(* ===== verification/Prelude.thy ===== *)
theory Prelude
  imports Main "HOL-Library.AList" "HOL-Library.List_Lexorder" "HOL-Library.Char_ord"
    "HOL-Library.Code_Target_Nat"
begin

text \<open>
  The vocabulary every component shares: the exceptions of the C++ code as values,
  machine-integer wrap-around, the standard containers (\<open>std::unordered_map\<close> and
  \<open>std::map\<close> as association lists with distinct keys, \<open>std::set\<close> as strictly
  increasing lists) with the laws the rest of the development relies on, stated as the
  locales \<open>finite_map\<close> and \<open>ordered_set\<close>, and generic list lemmas.
\<close>

section \<open>Collections of simplification rules\<close>

named_theorems container_simps \<open>lookup and membership after container updates\<close>
named_theorems text_simps \<open>printing and parsing of numbers\<close>
named_theorems inv_intros \<open>operations that keep an invariant\<close>

section \<open>Exceptions and results\<close>

datatype exn =
    RespError string
  | InvalidArgument
  | OutOfRange
  | LengthError
  | BadAlloc
  | RuntimeError string
  | SystemError string

type_synonym 'a res = "exn + 'a"

text \<open>A byte string: \<open>std::string\<close> is a list of 8-bit characters.\<close>

type_synonym bytes = string
type_synonym args = "string list"

abbreviation CR :: char where "CR \<equiv> CHR 0x0D"
abbreviation LF :: char where "LF \<equiv> CHR 0x0A"

definition crlf :: string where
  "crlf = [CR, LF]"

lemma length_crlf [simp]: "length crlf = 2"
  by (simp add: crlf_def)

section \<open>Machine integers\<close>

text \<open>
  \<open>std::size_t\<close> and \<open>std::uint64_t\<close> values are natural numbers below \<open>2 ^ 64\<close>; an
  addition that can wrap is written with \<open>wrap_u64\<close>. \<open>long long\<close>, \<open>int\<close> and
  chrono counts are integers; an operation that can leave the signed range is written with
  \<open>wrap_s64\<close> or \<open>wrap_s32\<close> (two's complement, what the generated code does where the
  language leaves the overflow undefined).
\<close>

definition u64_modulus :: nat where
  "u64_modulus = 2 ^ 64"

definition wrap_u64 :: "nat \<Rightarrow> nat" where
  "wrap_u64 n = n mod u64_modulus"

definition wrap_s64 :: "int \<Rightarrow> int" where
  "wrap_s64 i = (i + 2 ^ 63) mod 2 ^ 64 - 2 ^ 63"

definition wrap_s32 :: "int \<Rightarrow> int" where
  "wrap_s32 i = (i + 2 ^ 31) mod 2 ^ 32 - 2 ^ 31"

lemma wrap_u64_id [simp]: "n < u64_modulus \<Longrightarrow> wrap_u64 n = n"
  by (simp add: wrap_u64_def)

lemma wrap_u64_less [simp]: "wrap_u64 n < u64_modulus"
  by (simp add: wrap_u64_def u64_modulus_def)

lemma wrap_s64_id: "- (2 ^ 63) \<le> i \<Longrightarrow> i < 2 ^ 63 \<Longrightarrow> wrap_s64 i = i"
  by (simp add: wrap_s64_def)

lemma wrap_s64_range: "- (2 ^ 63) \<le> wrap_s64 i \<and> wrap_s64 i < 2 ^ 63"
  by (simp add: wrap_s64_def)

lemma wrap_s32_id: "- (2 ^ 31) \<le> i \<Longrightarrow> i < 2 ^ 31 \<Longrightarrow> wrap_s32 i = i"
  by (simp add: wrap_s32_def)

lemma wrap_s32_range: "- (2 ^ 31) \<le> wrap_s32 i \<and> wrap_s32 i < 2 ^ 31"
  by (simp add: wrap_s32_def)

section \<open>Maps\<close>

text \<open>
  The contract of a map container as its clients use it: \<open>find\<close> after \<open>operator[]=\<close>
  and after \<open>erase\<close>, and which keys an iteration visits.
\<close>

locale finite_map =
  fixes lookup_in :: "'m \<Rightarrow> 'k \<Rightarrow> 'v option"
    and store_in :: "'k \<Rightarrow> 'v \<Rightarrow> 'm \<Rightarrow> 'm"
    and erase_in :: "'k \<Rightarrow> 'm \<Rightarrow> 'm"
    and keys_of :: "'m \<Rightarrow> 'k list"
    and ok :: "'m \<Rightarrow> bool"
  assumes lookup_store: "lookup_in (store_in k v m) k' = (if k' = k then Some v else lookup_in m k')"
    and lookup_erase: "lookup_in (erase_in k m) k' = (if k' = k then None else lookup_in m k')"
    and keys_iff: "k \<in> set (keys_of m) \<longleftrightarrow> lookup_in m k \<noteq> None"
    and ok_store: "ok m \<Longrightarrow> ok (store_in k v m)"
    and ok_erase: "ok m \<Longrightarrow> ok (erase_in k m)"
    and ok_distinct: "ok m \<Longrightarrow> distinct (keys_of m)"
begin

lemma keys_store: "set (keys_of (store_in k v m)) = insert k (set (keys_of m))"
  by (auto simp: keys_iff lookup_store split: if_splits)

lemma keys_erase: "set (keys_of (erase_in k m)) = set (keys_of m) - {k}"
  by (auto simp: keys_iff lookup_erase split: if_splits)

lemma lookup_fold_store:
  "lookup_in (fold (\<lambda>(k, v). store_in k v) kvs m) k
     = (case map_of (rev kvs) k of Some v \<Rightarrow> Some v | None \<Rightarrow> lookup_in m k)"
  by (induction kvs arbitrary: m)
    (auto simp: lookup_store map_add_def split: option.splits)

lemma ok_fold_store: "ok m \<Longrightarrow> ok (fold (\<lambda>(k, v). store_in k v) kvs m)"
  by (induction kvs arbitrary: m) (auto simp: ok_store)

end

type_synonym ('k, 'v) hmap = "('k \<times> 'v) list"

definition hget :: "('k, 'v) hmap \<Rightarrow> 'k \<Rightarrow> 'v option" where
  "hget m k = map_of m k"

definition hput :: "'k \<Rightarrow> 'v \<Rightarrow> ('k, 'v) hmap \<Rightarrow> ('k, 'v) hmap" where
  "hput k v m = AList.update k v m"

definition herase :: "'k \<Rightarrow> ('k, 'v) hmap \<Rightarrow> ('k, 'v) hmap" where
  "herase k m = AList.delete k m"

definition hkeys :: "('k, 'v) hmap \<Rightarrow> 'k list" where
  "hkeys m = map fst m"

definition hcontains :: "('k, 'v) hmap \<Rightarrow> 'k \<Rightarrow> bool" where
  "hcontains m k = (hget m k \<noteq> None)"

definition hmap_ok :: "('k, 'v) hmap \<Rightarrow> bool" where
  "hmap_ok m = distinct (map fst m)"

interpretation hm: finite_map hget hput herase hkeys hmap_ok
  by unfold_locales
    (auto simp: hget_def hput_def herase_def hkeys_def hmap_ok_def update_conv' delete_conv'
       map_of_eq_None_iff distinct_update distinct_delete)

lemma hget_Nil [simp]: "hget [] k = None"
  by (simp add: hget_def)

lemma hmap_ok_Nil [simp]: "hmap_ok []"
  by (simp add: hmap_ok_def)

lemmas hget_hput [simp] = hm.lookup_store
lemmas hget_herase [simp] = hm.lookup_erase
lemmas hmap_ok_upd [simp, inv_intros] = hm.ok_store hm.ok_erase

lemma hcontains_hput [simp]: "hcontains (hput k v m) k' \<longleftrightarrow> k' = k \<or> hcontains m k'"
  by (simp add: hcontains_def)

lemma hcontains_herase [simp]: "hcontains (herase k m) k' \<longleftrightarrow> k' \<noteq> k \<and> hcontains m k'"
  by (simp add: hcontains_def)

lemma herase_absent: "hget m k = None \<Longrightarrow> herase k m = m"
  by (simp add: hget_def herase_def delete_idem map_of_eq_None_iff)

lemma hput_absent: "hget m k = None \<Longrightarrow> hput k v m = m @ [(k, v)]"
  by (simp add: hget_def hput_def update_nonempty map_of_eq_None_iff) (induction m, auto)

section \<open>Ordered sets\<close>

text \<open>
  \<open>std::set\<close>: iteration is in increasing order without duplicates, \<open>insert\<close> and
  \<open>erase\<close> change membership of one element.
\<close>

locale ordered_set =
  fixes insert_in :: "'a::linorder \<Rightarrow> 's \<Rightarrow> 's"
    and erase_from :: "'a \<Rightarrow> 's \<Rightarrow> 's"
    and elems :: "'s \<Rightarrow> 'a list"
    and valid :: "'s \<Rightarrow> bool"
  assumes elems_insert: "valid s \<Longrightarrow> set (elems (insert_in x s)) = insert x (set (elems s))"
    and elems_erase: "valid s \<Longrightarrow> set (elems (erase_from x s)) = set (elems s) - {x}"
    and valid_insert: "valid s \<Longrightarrow> valid (insert_in x s)"
    and valid_erase: "valid s \<Longrightarrow> valid (erase_from x s)"
    and valid_sorted: "valid s \<Longrightarrow> sorted_wrt (<) (elems s)"
begin

lemma elems_unique:
  assumes "valid s" "valid t" "set (elems s) = set (elems t)"
  shows "elems s = elems t"
  using assms valid_sorted strict_sorted_equal by blast

lemma insert_erase_size:
  assumes "valid s" "x \<in> set (elems s)"
  shows "length (elems (erase_from x s)) = length (elems s) - 1"
proof -
  have "distinct (elems s)" "distinct (elems (erase_from x s))"
    using assms valid_sorted valid_erase strict_sorted_iff by blast+
  then show ?thesis
    using assms by (simp add: distinct_card [symmetric] elems_erase)
qed

lemma insert_fresh_size:
  assumes "valid s" "x \<notin> set (elems s)"
  shows "length (elems (insert_in x s)) = Suc (length (elems s))"
proof -
  have "distinct (elems s)" "distinct (elems (insert_in x s))"
    using assms valid_sorted valid_insert strict_sorted_iff by blast+
  then show ?thesis
    using assms by (simp add: distinct_card [symmetric] elems_insert)
qed

end

type_synonym 'a oset = "'a list"

definition oset_ok :: "'a::linorder oset \<Rightarrow> bool" where
  "oset_ok s = sorted_wrt (<) s"

definition oset_insert :: "'a::linorder \<Rightarrow> 'a oset \<Rightarrow> 'a oset" where
  "oset_insert x s = insort_insert x s"

definition oset_erase :: "'a::linorder \<Rightarrow> 'a oset \<Rightarrow> 'a oset" where
  "oset_erase x s = filter (\<lambda>y. y \<noteq> x) s"

lemma oset_ok_insert: "oset_ok s \<Longrightarrow> oset_ok (oset_insert x s)"
  unfolding oset_ok_def oset_insert_def strict_sorted_iff
  by (simp add: sorted_insort_insert distinct_insort_insert)

lemma oset_ok_erase: "oset_ok s \<Longrightarrow> oset_ok (oset_erase x s)"
  unfolding oset_ok_def oset_erase_def by (simp add: sorted_wrt_filter)

interpretation os: ordered_set oset_insert oset_erase "\<lambda>s. s" oset_ok
proof unfold_locales
  fix s :: "'a oset" and x
  assume ok: "oset_ok s"
  show "set (oset_insert x s) = insert x (set s)"
    by (simp add: oset_insert_def set_insort_insert)
  show "set (oset_erase x s) = set s - {x}"
    by (auto simp: oset_erase_def)
  show "oset_ok (oset_insert x s)" "oset_ok (oset_erase x s)"
    using ok by (simp_all add: oset_ok_insert oset_ok_erase)
  show "sorted_wrt (<) s"
    using ok by (simp add: oset_ok_def)
qed

lemma oset_ok_Nil [simp]: "oset_ok []"
  by (simp add: oset_ok_def)

lemma oset_set_insert [simp]: "set (oset_insert x s) = insert x (set s)"
  by (simp add: oset_insert_def set_insort_insert)

lemma oset_set_erase [simp]: "set (oset_erase x s) = set s - {x}"
  by (auto simp: oset_erase_def)

lemmas oset_ok_upd [simp, inv_intros] = oset_ok_insert oset_ok_erase

lemma oset_ok_distinct: "oset_ok s \<Longrightarrow> distinct s"
  by (simp add: oset_ok_def strict_sorted_iff)

section \<open>Increasing lists of pairs\<close>

lemma increasing_pairs_unique:
  fixes xs ys :: "('a::linorder \<times> 'b) list"
  assumes "sorted_wrt (<) (map fst xs)" "sorted_wrt (<) (map fst ys)" "set xs = set ys"
  shows "xs = ys"
proof -
  have "inj_on fst (set xs \<union> set ys)"
    using assms by (simp add: strict_sorted_iff distinct_map)
  then show ?thesis
    using assms by (intro map_sorted_distinct_set_unique [where f = fst]) (simp_all add: strict_sorted_iff)
qed

lemma increasing_takeWhile_filter:
  fixes xs :: "('a::linorder \<times> 'b) list"
  assumes "sorted_wrt (<) (map fst xs)"
  shows "takeWhile (\<lambda>p. fst p \<le> hi) xs = filter (\<lambda>p. fst p \<le> hi) xs"
  using assms
proof (induction xs)
  case (Cons x xs)
  have "filter (\<lambda>p. fst p \<le> hi) xs = []" if "\<not> fst x \<le> hi"
    using that Cons.prems by (force simp: filter_empty_conv)
  with Cons show ?case by simp
qed simp

lemma increasing_dropWhile_filter:
  fixes xs :: "('a::linorder \<times> 'b) list"
  assumes "sorted_wrt (<) (map fst xs)"
  shows "dropWhile (\<lambda>p. fst p < lo) xs = filter (\<lambda>p. lo \<le> fst p) xs"
  using assms
proof (induction xs)
  case (Cons x xs)
  have "filter (\<lambda>p. lo \<le> fst p) xs = xs" if "\<not> fst x < lo"
    using that Cons.prems by (intro filter_True) force
  with Cons show ?case by auto
qed simp

section \<open>Windows of a list\<close>

lemma nths_interval: "nths xs {i. a \<le> i \<and> i < b} = take (b - a) (drop a xs)"
proof (induction xs arbitrary: a b)
  case (Cons x xs)
  have "{j. Suc j \<in> {i. a \<le> i \<and> i < b}} = {i. a - 1 \<le> i \<and> i < b - 1}" by auto
  then show ?case by (cases a; cases b) (simp_all add: nths_Cons Cons Cons [of 0, simplified])
qed simp

end
