(* ===== verification/Cpp_Text.thy ===== *)
theory Cpp_Text
  imports Prelude
begin

text \<open>
  The parts of the C++ standard library that turn text into numbers and back, as the
  source uses them: \<open>std::to_string\<close>, \<open>std::stoull\<close>, \<open>std::stoll\<close>, \<open>std::stoi\<close>,
  \<open>std::from_chars\<close> for 64-bit integers, and \<open>to_upper\<close> of \<open>command.cpp\<close>. The
  lemmas show that printing and parsing are inverse on the range of each type.
\<close>

section \<open>Characters\<close>

definition is_digit :: "char \<Rightarrow> bool" where
  "is_digit c \<longleftrightarrow> (48::nat) \<le> of_char c \<and> of_char c \<le> (57::nat)"

definition is_space :: "char \<Rightarrow> bool" where
  "is_space c \<longleftrightarrow> of_char c = (32::nat) \<or> ((9::nat) \<le> of_char c \<and> of_char c \<le> (13::nat))"

definition digit_char :: "nat \<Rightarrow> char" where
  "digit_char d = char_of (48 + d)"

definition digit_val :: "char \<Rightarrow> nat" where
  "digit_val c = of_char c - 48"

definition toupper :: "char \<Rightarrow> char" where
  "toupper c = (if (97::nat) \<le> of_char c \<and> of_char c \<le> (122::nat)
                then char_of (of_char c - (32::nat)) else c)"

definition tolower :: "char \<Rightarrow> char" where
  "tolower c = (if (65::nat) \<le> of_char c \<and> of_char c \<le> (90::nat)
                then char_of (of_char c + (32::nat)) else c)"

definition to_upper :: "string \<Rightarrow> string" where
  "to_upper value = map toupper value"

lemma of_digit_char: "d < 10 \<Longrightarrow> of_char (digit_char d) = 48 + d"
  by (simp add: digit_char_def)

lemma is_digit_digit_char [simp]: "d < 10 \<Longrightarrow> is_digit (digit_char d)"
  by (simp add: is_digit_def of_digit_char)

lemma digit_val_digit_char [simp]: "d < 10 \<Longrightarrow> digit_val (digit_char d) = d"
  by (simp add: digit_val_def of_digit_char)

lemma digit_val_less: "is_digit c \<Longrightarrow> digit_val c < 10"
  by (auto simp: is_digit_def digit_val_def)

lemma digit_char_digit_val: "is_digit c \<Longrightarrow> digit_char (digit_val c) = c"
  by (simp add: is_digit_def digit_val_def digit_char_def)

lemma is_digit_not_space: "is_digit c \<Longrightarrow> \<not> is_space c"
  by (auto simp: is_digit_def is_space_def)

lemma digit_not_sign [simp]:
  "\<not> is_digit CHR ''-''" "\<not> is_digit CHR ''+''" "\<not> is_digit CR" "\<not> is_digit LF"
  by (simp_all add: is_digit_def)

lemma toupper_idem [simp]: "toupper (toupper c) = toupper c"
  by (auto simp: toupper_def)

lemma to_upper_idem [simp]: "to_upper (to_upper s) = to_upper s"
  by (simp add: to_upper_def)

lemma to_upper_Nil [simp]: "to_upper [] = []" "to_upper s = [] \<longleftrightarrow> s = []"
  by (simp_all add: to_upper_def)

lemma length_to_upper [simp]: "length (to_upper s) = length s"
  by (simp add: to_upper_def)

section \<open>Printing\<close>

fun to_string_nat :: "nat \<Rightarrow> string" where
  "to_string_nat n =
     (if n < 10 then [digit_char n] else to_string_nat (n div 10) @ [digit_char (n mod 10)])"

declare to_string_nat.simps [simp del]

definition to_string_int :: "int \<Rightarrow> string" where
  "to_string_int i =
     (if i < 0 then CHR ''-'' # to_string_nat (nat (- i)) else to_string_nat (nat i))"

lemma to_string_nat_digits: "list_all is_digit (to_string_nat n)"
proof (induction n rule: to_string_nat.induct)
  case (1 n)
  show ?case
  proof (cases "n < 10")
    case True
    then show ?thesis by (simp add: to_string_nat.simps [of n])
  next
    case False
    with 1 have "list_all is_digit (to_string_nat (n div 10))" by blast
    with False show ?thesis by (simp add: to_string_nat.simps [of n])
  qed
qed

lemma to_string_nat_neq_Nil [simp]: "to_string_nat n \<noteq> []"
  by (subst to_string_nat.simps) simp

lemma length_to_string_nat_pos [simp]: "0 < length (to_string_nat n)"
  by simp

lemma hd_to_string_nat: "is_digit (hd (to_string_nat n))"
  using to_string_nat_digits [of n] by (cases "to_string_nat n") simp_all

section \<open>Reading digits\<close>

definition digits_val :: "string \<Rightarrow> nat" where
  "digits_val ds = foldl (\<lambda>a c. 10 * a + digit_val c) 0 ds"

lemma digits_val_snoc: "digits_val (ds @ [c]) = 10 * digits_val ds + digit_val c"
  by (simp add: digits_val_def)

lemma digits_val_to_string_nat [text_simps]: "digits_val (to_string_nat n) = n"
proof (induction n rule: to_string_nat.induct)
  case (1 n)
  show ?case
  proof (cases "n < 10")
    case True
    then show ?thesis by (simp add: to_string_nat.simps [of n] digits_val_def)
  next
    case False
    with 1 have "digits_val (to_string_nat (n div 10)) = n div 10" by blast
    moreover have "n mod 10 < 10" by simp
    ultimately show ?thesis
      using False by (simp add: to_string_nat.simps [of n] digits_val_snoc)
  qed
qed

lemma to_string_nat_inject [simp]: "to_string_nat m = to_string_nat n \<longleftrightarrow> m = n"
  by (metis digits_val_to_string_nat)

lemma takeWhile_digits_append:
  assumes "list_all P xs" and "ys = [] \<or> \<not> P (hd ys)"
  shows "takeWhile P (xs @ ys) = xs"
  using assms by (induction xs) (cases ys; auto)+

lemma takeWhile_list_all: "list_all P xs \<Longrightarrow> takeWhile P xs = xs"
  using takeWhile_digits_append [of P xs "[]"] by simp

lemma takeWhile_to_string_nat [simp]: "takeWhile is_digit (to_string_nat n) = to_string_nat n"
  using takeWhile_digits_append [OF to_string_nat_digits, of "[]" n] by simp

section \<open>\<open>strtoull\<close>, \<open>strtoll\<close>: leading blanks, a sign, digits, any tail\<close>

definition strto_parts :: "string \<Rightarrow> (bool \<times> nat) option" where
  "strto_parts s =
     (let t = dropWhile is_space s;
          (neg, u) = (case t of
              [] \<Rightarrow> (False, [])
            | c # r \<Rightarrow> if c = CHR ''-'' then (True, r)
                       else if c = CHR ''+'' then (False, r) else (False, t));
          ds = takeWhile is_digit u
      in if ds = [] then None else Some (neg, digits_val ds))"

definition stoull :: "string \<Rightarrow> nat res" where
  "stoull s =
     (case strto_parts s of
        None \<Rightarrow> Inl InvalidArgument
      | Some (neg, m) \<Rightarrow>
          if u64_modulus \<le> m then Inl OutOfRange
          else Inr (if neg then wrap_u64 (u64_modulus - m) else m))"

definition strto_value :: "bool \<times> nat \<Rightarrow> int" where
  "strto_value = (\<lambda>(neg, m). if neg then - int m else int m)"

definition stoll :: "string \<Rightarrow> int res" where
  "stoll s =
     (case strto_parts s of
        None \<Rightarrow> Inl InvalidArgument
      | Some p \<Rightarrow>
          if strto_value p < - (2 ^ 63) \<or> 2 ^ 63 \<le> strto_value p then Inl OutOfRange
          else Inr (strto_value p))"

definition stoi :: "string \<Rightarrow> int res" where
  "stoi s =
     (case strto_parts s of
        None \<Rightarrow> Inl InvalidArgument
      | Some p \<Rightarrow>
          if strto_value p < - (2 ^ 31) \<or> 2 ^ 31 \<le> strto_value p then Inl OutOfRange
          else Inr (strto_value p))"

lemma strto_parts_nat [text_simps]: "strto_parts (to_string_nat n) = Some (False, n)"
proof -
  have "is_digit (hd (to_string_nat n))" by (rule hd_to_string_nat)
  moreover obtain c r where cr: "to_string_nat n = c # r"
    by (cases "to_string_nat n") auto
  ultimately have c: "is_digit c" by simp
  then have "\<not> is_space c" "c \<noteq> CHR ''-''" "c \<noteq> CHR ''+''"
    by (auto simp: is_digit_not_space)
  then show ?thesis
    using takeWhile_to_string_nat [of n] digits_val_to_string_nat [of n]
    by (simp add: strto_parts_def cr Let_def)
qed

lemma strto_parts_int [text_simps]:
  "strto_parts (to_string_int i) = Some (i < 0, nat \<bar>i\<bar>)"
proof (cases "i < 0")
  case True
  have "\<not> is_space CHR ''-''" by (simp add: is_space_def)
  with True show ?thesis
    by (simp add: to_string_int_def strto_parts_def text_simps)
next
  case False
  then show ?thesis by (simp add: to_string_int_def text_simps)
qed

lemma stoull_to_string [text_simps]: "n < u64_modulus \<Longrightarrow> stoull (to_string_nat n) = Inr n"
  by (simp add: stoull_def text_simps)

lemma stoll_to_string [text_simps]:
  "- (2 ^ 63) \<le> i \<Longrightarrow> i < 2 ^ 63 \<Longrightarrow> stoll (to_string_int i) = Inr i"
  by (simp add: stoll_def text_simps strto_value_def)

lemma stoi_to_string [text_simps]:
  "- (2 ^ 31) \<le> i \<Longrightarrow> i < 2 ^ 31 \<Longrightarrow> stoi (to_string_int i) = Inr i"
  by (simp add: stoi_def text_simps strto_value_def)

lemma stoull_range: "stoull s = Inr n \<Longrightarrow> n < u64_modulus"
  by (auto simp: stoull_def split: option.splits if_splits)

lemma stoll_range: "stoll s = Inr i \<Longrightarrow> - (2 ^ 63) \<le> i \<and> i < 2 ^ 63"
  by (auto simp: stoll_def split: option.splits if_splits)

lemma stoi_range: "stoi s = Inr i \<Longrightarrow> - (2 ^ 31) \<le> i \<and> i < 2 ^ 31"
  by (auto simp: stoi_def split: option.splits if_splits)

section \<open>\<open>from_chars\<close>: the value and how far it read\<close>

definition from_chars_u64 :: "string \<Rightarrow> (nat \<times> nat) option" where
  "from_chars_u64 s =
     (let ds = takeWhile is_digit s
      in if ds = [] \<or> u64_modulus \<le> digits_val ds then None
         else Some (digits_val ds, length ds))"

definition from_chars_s64 :: "string \<Rightarrow> (int \<times> nat) option" where
  "from_chars_s64 s =
     (let neg = (s \<noteq> [] \<and> hd s = CHR ''-'');
          ds = takeWhile is_digit (if neg then tl s else s);
          i = (if neg then - int (digits_val ds) else int (digits_val ds))
      in if ds = [] \<or> i < - (2 ^ 63) \<or> 2 ^ 63 \<le> i then None
         else Some (i, if neg then Suc (length ds) else length ds))"

text \<open>The idiom of every caller: success, and the whole text read.\<close>

definition whole_u64 :: "string \<Rightarrow> nat option" where
  "whole_u64 s = (case from_chars_u64 s of
      None \<Rightarrow> None | Some (n, p) \<Rightarrow> if p = length s then Some n else None)"

definition whole_s64 :: "string \<Rightarrow> int option" where
  "whole_s64 s = (case from_chars_s64 s of
      None \<Rightarrow> None | Some (i, p) \<Rightarrow> if p = length s then Some i else None)"

lemma length_takeWhile_eq: "length (takeWhile P xs) = length xs \<longleftrightarrow> list_all P xs"
  by (metis append_self_conv list_all_iff length_append takeWhile_dropWhile_id
      length_0_conv takeWhile_eq_all_conv add_cancel_right_right)

lemma whole_u64_eq:
  "whole_u64 s = (if s \<noteq> [] \<and> list_all is_digit s \<and> digits_val s < u64_modulus
                  then Some (digits_val s) else None)"
proof (cases "list_all is_digit s")
  case True
  then show ?thesis
    by (auto simp: whole_u64_def from_chars_u64_def Let_def takeWhile_list_all)
next
  case False
  then have "length (takeWhile is_digit s) \<noteq> length s" by (simp add: length_takeWhile_eq)
  with False show ?thesis
    by (simp add: whole_u64_def from_chars_u64_def Let_def)
qed

lemma whole_u64_to_string [text_simps]: "n < u64_modulus \<Longrightarrow> whole_u64 (to_string_nat n) = Some n"
  by (simp add: whole_u64_eq to_string_nat_digits text_simps)

lemma whole_u64_range: "whole_u64 s = Some n \<Longrightarrow> n < u64_modulus"
  by (auto simp: whole_u64_eq split: if_splits)

lemma whole_s64_to_string [text_simps]:
  "- (2 ^ 63) \<le> i \<Longrightarrow> i < 2 ^ 63 \<Longrightarrow> whole_s64 (to_string_int i) = Some i"
proof (cases "i < 0")
  case True
  then show "- (2 ^ 63) \<le> i \<Longrightarrow> i < 2 ^ 63 \<Longrightarrow> whole_s64 (to_string_int i) = Some i"
    by (simp add: whole_s64_def from_chars_s64_def to_string_int_def text_simps Let_def)
next
  case False
  moreover have "hd (to_string_nat (nat i)) \<noteq> CHR ''-''"
    using hd_to_string_nat [of "nat i"] by auto
  ultimately show "- (2 ^ 63) \<le> i \<Longrightarrow> i < 2 ^ 63 \<Longrightarrow> whole_s64 (to_string_int i) = Some i"
    by (simp add: whole_s64_def from_chars_s64_def to_string_int_def text_simps Let_def)
qed

lemma whole_s64_range: "whole_s64 s = Some i \<Longrightarrow> - (2 ^ 63) \<le> i \<and> i < 2 ^ 63"
  by (auto simp: whole_s64_def from_chars_s64_def Let_def split: option.splits if_splits)

end
