(* ===== verification/Resp.thy ===== *)
theory Resp
  imports Cpp_Text "HOL-Library.Sublist"
begin

text \<open>
  The wire protocol: \<open>RespType\<close> and its printer \<open>to_bytes\<close>, and the request parser of
  \<open>src/src/resp/resp.cpp\<close> (\<open>read_till_crlf\<close>, \<open>parse_usize_from_buf\<close>,
  \<open>parse_simple_string\<close>, \<open>parse_bulk_string\<close>, \<open>parse_command\<close>), together with the
  loop that drains complete requests from a connection's buffer. Sizes are 64-bit: where
  the parser adds a length taken from the wire, the sum wraps.

  The locale \<open>framing\<close> states what a receive loop relies on (a printed message parses back
  whatever follows it; a cut message asks for more bytes); inside it the chunk
  independence of the loop is proved once.
\<close>

section \<open>Reply values\<close>

datatype RespType =
    SimpleString string
  | BulkString string
  | SimpleError string
  | NullBulkString
  | Integer int
  | Array "string list"
  | NestedArray "RespType list"
  | NullArray

definition bulk_bytes :: "string \<Rightarrow> string" where
  "bulk_bytes value = CHR ''$'' # to_string_nat (length value) @ crlf @ value @ crlf"

primrec to_bytes :: "RespType \<Rightarrow> string" where
  "to_bytes (SimpleString value) = CHR ''+'' # value @ crlf"
| "to_bytes (BulkString value) = bulk_bytes value"
| "to_bytes (SimpleError value) = CHR ''-'' # value @ crlf"
| "to_bytes NullBulkString = ''$-1'' @ crlf"
| "to_bytes (Integer value) = CHR '':'' # to_string_int value @ crlf"
| "to_bytes (Array elements) =
     CHR ''*'' # to_string_nat (length elements) @ crlf @ concat (map bulk_bytes elements)"
| "to_bytes (NestedArray nested) =
     CHR ''*'' # to_string_nat (length nested) @ crlf @ concat (map to_bytes nested)"
| "to_bytes NullArray = ''*-1'' @ crlf"

text \<open>The \<open>value\<close> member of a reply.\<close>

fun resp_value :: "RespType \<Rightarrow> string" where
  "resp_value (SimpleString value) = value"
| "resp_value (BulkString value) = value"
| "resp_value (SimpleError value) = value"
| "resp_value (Integer value) = to_string_int value"
| "resp_value _ = []"

section \<open>The request parser\<close>

fun find_crlf :: "string \<Rightarrow> nat option" where
  "find_crlf (a # b # rest) =
     (if a = CR \<and> b = LF then Some 0 else map_option Suc (find_crlf (b # rest)))"
| "find_crlf _ = None"

definition read_till_crlf :: "string \<Rightarrow> (string \<times> nat) option" where
  "read_till_crlf buffer =
     (case find_crlf buffer of
        None \<Rightarrow> None
      | Some pos \<Rightarrow> Some (take pos buffer, pos + 2))"

definition parse_usize_from_buf :: "string \<Rightarrow> nat res" where
  "parse_usize_from_buf buffer =
     (case stoull buffer of
        Inl _ \<Rightarrow> Inl (RespError ''Invalid integer value'')
      | Inr n \<Rightarrow> Inr n)"

definition parse_simple_string :: "string \<Rightarrow> (RespType \<times> nat) res" where
  "parse_simple_string buffer =
     (if buffer = [] then Inl (RespError ''Invalid value for simple string'')
      else case read_till_crlf (drop 1 buffer) of
        None \<Rightarrow> Inl (RespError ''Invalid value for simple string'')
      | Some (buf_data, len) \<Rightarrow> Inr (SimpleString buf_data, len + 1))"

definition parse_bulk_string :: "string \<Rightarrow> (RespType \<times> nat) option res" where
  "parse_bulk_string buffer =
     (if buffer = [] then Inr None
      else if hd buffer \<noteq> CHR ''$'' then Inl (RespError ''Expected bulk string'')
      else case read_till_crlf (drop 1 buffer) of
        None \<Rightarrow> Inr None
      | Some (buf_data, len) \<Rightarrow>
          (case parse_usize_from_buf buf_data of
             Inl e \<Rightarrow> Inl e
           | Inr bulkstr_len \<Rightarrow>
               let bytes_consumed = len + 1;
                   bulkstr_end_idx = wrap_u64 (bytes_consumed + bulkstr_len)
               in if wrap_u64 (bulkstr_end_idx + 2) > length buffer then Inr None
                  else Inr (Some (BulkString (take bulkstr_len (drop bytes_consumed buffer)),
                                  wrap_u64 (bulkstr_end_idx + 2)))))"

text \<open>
  \<open>elements.reserve(count)\<close> throws \<open>std::length_error\<close> above \<open>max_size()\<close>: the largest
  object size divided by the 32 bytes of a \<open>std::string\<close>.
\<close>

definition vector_max_size :: nat where
  "vector_max_size = (2 ^ 63 - 1) div 32"

text \<open>
  The \<open>for\<close> loop over \<open>count\<close> elements; \<open>substr\<close> throws beyond the end. The sum
  \<open>offset += consumed\<close> cannot wrap: \<open>parse_bulk_string\<close> has just compared \<open>consumed\<close>
  with what is left of the buffer (\<open>parse_bulk_string_bound\<close>).
\<close>

fun parse_elements :: "nat \<Rightarrow> string \<Rightarrow> nat \<Rightarrow> string list \<Rightarrow> (string list \<times> nat) option res" where
  "parse_elements 0 buffer offset elements = Inr (Some (elements, offset))"
| "parse_elements (Suc n) buffer offset elements =
     (if length buffer < offset then Inl OutOfRange
      else case parse_bulk_string (drop offset buffer) of
        Inl e \<Rightarrow> Inl e
      | Inr None \<Rightarrow> Inr None
      | Inr (Some (resp, consumed)) \<Rightarrow>
          parse_elements n buffer (offset + consumed) (elements @ [resp_value resp]))"

text \<open>
  \<open>elements.reserve(count)\<close> throws \<open>std::length_error\<close> beyond \<open>max_size()\<close>, and otherwise
  \<open>std::bad_alloc\<close> when there is no memory for that many strings: \<open>memory\<close> is the number of
  elements the allocator can provide for.
\<close>

definition parse_command_in :: "nat \<Rightarrow> string \<Rightarrow> (string list \<times> nat) option res" where
  "parse_command_in memory buffer =
     (if buffer = [] then Inr None
      else if hd buffer \<noteq> CHR ''*'' then Inl (RespError ''Expected array for command'')
      else case read_till_crlf (drop 1 buffer) of
        None \<Rightarrow> Inr None
      | Some (count_str, header_len) \<Rightarrow>
          (case parse_usize_from_buf count_str of
             Inl e \<Rightarrow> Inl e
           | Inr count \<Rightarrow>
               if vector_max_size < count then Inl LengthError
               else if memory < count then Inl BadAlloc
               else parse_elements count buffer (header_len + 1) []))"

text \<open>The parser with an allocator that refuses nothing; the rest of the development uses this
  one. With less memory the parser does the same or throws \<open>std::bad_alloc\<close> (below).\<close>

definition parse_command :: "string \<Rightarrow> (string list \<times> nat) option res" where
  "parse_command buffer = parse_command_in vector_max_size buffer"

lemma parse_command_eq:
  "parse_command buffer =
     (if buffer = [] then Inr None
      else if hd buffer \<noteq> CHR ''*'' then Inl (RespError ''Expected array for command'')
      else case read_till_crlf (drop 1 buffer) of
        None \<Rightarrow> Inr None
      | Some (count_str, header_len) \<Rightarrow>
          (case parse_usize_from_buf count_str of
             Inl e \<Rightarrow> Inl e
           | Inr count \<Rightarrow>
               if vector_max_size < count then Inl LengthError
               else parse_elements count buffer (header_len + 1) []))"
  by (simp add: parse_command_def parse_command_in_def split: option.split sum.split)

text \<open>The number of elements the header of a request announces.\<close>

definition announced :: "string \<Rightarrow> nat option" where
  "announced buffer =
     (if buffer = [] \<or> hd buffer \<noteq> CHR ''*'' then None
      else case read_till_crlf (drop 1 buffer) of
        None \<Rightarrow> None
      | Some (count_str, _) \<Rightarrow> (case parse_usize_from_buf count_str of Inl _ \<Rightarrow> None | Inr count \<Rightarrow> Some count))"

lemma parse_command_in_announced:
  "announced buffer = Some count \<Longrightarrow> count \<le> vector_max_size \<Longrightarrow>
     parse_command_in memory buffer = (if memory < count then Inl BadAlloc else parse_command buffer)"
  by (auto simp: parse_command_def parse_command_in_def announced_def split: if_splits option.splits sum.splits)

lemma parse_command_in_other:
  "(\<And>count. announced buffer = Some count \<Longrightarrow> vector_max_size < count) \<Longrightarrow> parse_command_in memory buffer = parse_command buffer"
  by (auto simp: parse_command_def parse_command_in_def announced_def split: if_splits option.splits sum.splits)

section \<open>Finding the line end\<close>

lemma find_crlf_Some:
  "find_crlf s = Some i \<Longrightarrow> Suc i < length s \<and> s ! i = CR \<and> s ! Suc i = LF"
  by (induction s arbitrary: i rule: find_crlf.induct) (auto split: if_splits)

lemma find_crlf_append: "CR \<notin> set ds \<Longrightarrow> find_crlf (ds @ crlf @ rest) = Some (length ds)"
proof (induction ds)
  case Nil
  then show ?case by (simp add: crlf_def)
next
  case (Cons d ds)
  then have IH: "find_crlf (ds @ crlf @ rest) = Some (length ds)" by simp
  obtain b r where br: "ds @ crlf @ rest = b # r"
    by (cases "ds @ crlf @ rest") (simp_all add: crlf_def)
  with IH Cons.prems show ?case by auto
qed

lemma find_crlf_cut:
  assumes "CR \<notin> set ds" and "strict_prefix p (ds @ crlf)"
  shows "find_crlf p = None"
proof (rule ccontr)
  assume "find_crlf p \<noteq> None"
  then obtain i where i: "Suc i < length p" "p ! i = CR"
    using find_crlf_Some [of p] by auto
  from assms(2) obtain q where q: "ds @ crlf = p @ q" and len: "length p < length ds + 2"
    by (auto simp: strict_prefix_def prefix_def dest: prefix_length_less)
      (metis add_2_eq_Suc' length_append length_crlf length_greater_0_conv
        less_add_same_cancel1 self_append_conv)
  from i len have "i < length ds" by simp
  moreover have "p ! i = (ds @ crlf) ! i" using i q by (simp add: nth_append)
  ultimately have "ds ! i = CR" using i by (simp add: nth_append)
  with \<open>i < length ds\<close> assms(1) show False by (metis nth_mem)
qed

lemma read_till_crlf_append:
  "CR \<notin> set ds \<Longrightarrow> read_till_crlf (ds @ crlf @ rest) = Some (ds, length ds + 2)"
  by (simp add: read_till_crlf_def find_crlf_append)

lemma read_till_crlf_cut:
  "CR \<notin> set ds \<Longrightarrow> strict_prefix p (ds @ crlf) \<Longrightarrow> read_till_crlf p = None"
  by (simp add: read_till_crlf_def find_crlf_cut)

lemma read_till_crlf_bound: "read_till_crlf s = Some (d, n) \<Longrightarrow> n \<le> length s \<and> n = length d + 2"
  by (auto simp: read_till_crlf_def dest: find_crlf_Some split: option.splits)

lemma CR_notin_to_string [simp]: "CR \<notin> set (to_string_nat n)"
  using to_string_nat_digits [of n] by (auto simp: list_all_iff)

lemma parse_usize_to_string [text_simps]:
  "n < u64_modulus \<Longrightarrow> parse_usize_from_buf (to_string_nat n) = Inr n"
  by (simp add: parse_usize_from_buf_def text_simps)


section \<open>Bulk strings\<close>

lemma length_bulk_bytes: "length (bulk_bytes v) = length (to_string_nat (length v)) + length v + 5"
  by (simp add: bulk_bytes_def)

lemma parse_bulk_string_bytes:
  assumes "length (bulk_bytes v) + length rest < u64_modulus"
  shows "parse_bulk_string (bulk_bytes v @ rest) = Inr (Some (BulkString v, length (bulk_bytes v)))"
proof -
  let ?n = "to_string_nat (length v)"
  have len: "length v < u64_modulus" "length ?n + length v + 5 < u64_modulus"
    using assms by (simp_all add: length_bulk_bytes)
  have "read_till_crlf (?n @ crlf @ v @ crlf @ rest) = Some (?n, length ?n + 2)"
    by (simp add: read_till_crlf_append)
  then have "parse_bulk_string (bulk_bytes v @ rest)
      = Inr (Some (BulkString v, length ?n + length v + 5))"
    using len by (simp add: parse_bulk_string_def bulk_bytes_def parse_usize_to_string)
  then show ?thesis by (simp add: length_bulk_bytes)
qed

lemma strict_prefix_append_cases:
  assumes "strict_prefix p (xs @ ys)"
  obtains (left) "strict_prefix p xs" | (right) q where "p = xs @ q" "strict_prefix q ys"
proof -
  from assms have pre: "prefix p (xs @ ys)" and neq: "p \<noteq> xs @ ys"
    by (auto simp: strict_prefix_def)
  show ?thesis
  proof (cases "prefix p xs \<and> p \<noteq> xs")
    case True
    then show ?thesis by (intro left) (simp add: strict_prefix_def)
  next
    case False
    with pre obtain q where "p = xs @ q" "prefix q ys"
      by (metis append_Nil2 prefix_append Nil_prefix)
    then show ?thesis using neq by (intro right) (auto simp: strict_prefix_def)
  qed
qed

lemma parse_bulk_string_cut:
  assumes "length (bulk_bytes v) < u64_modulus" and "strict_prefix p (bulk_bytes v)"
  shows "parse_bulk_string p = Inr None"
proof (cases p)
  case Nil
  then show ?thesis by (simp add: parse_bulk_string_def)
next
  case (Cons c p')
  let ?n = "to_string_nat (length v)"
  from assms(2) Cons have c: "c = CHR ''$''" and p': "strict_prefix p' ((?n @ crlf) @ v @ crlf)"
    by (simp_all add: bulk_bytes_def)
  from p' show ?thesis
  proof (cases rule: strict_prefix_append_cases)
    case left
    then have "read_till_crlf p' = None" by (rule read_till_crlf_cut [rotated]) simp
    with Cons c show ?thesis by (simp add: parse_bulk_string_def)
  next
    case (right q)
    then have "length q < length v + 2" using prefix_length_less [of q "v @ crlf"] by simp
    moreover from right have "read_till_crlf p' = Some (?n, length ?n + 2)"
      by (simp add: read_till_crlf_append)
    moreover have "length ?n + length v + 5 < u64_modulus"
      using assms(1) by (simp add: length_bulk_bytes)
    ultimately show ?thesis
      using Cons c right(1) by (simp add: parse_bulk_string_def parse_usize_to_string)
  qed
qed

section \<open>Commands\<close>

lemma parse_elements_bytes:
  assumes "length (pre @ concat (map bulk_bytes vs) @ rest) < u64_modulus"
  shows "parse_elements (length vs) (pre @ concat (map bulk_bytes vs) @ rest) (length pre) acc
     = Inr (Some (acc @ vs, length pre + length (concat (map bulk_bytes vs))))"
  using assms
proof (induction vs arbitrary: pre acc)
  case Nil
  then show ?case by simp
next
  case (Cons v vs)
  let ?buf = "pre @ concat (map bulk_bytes (v # vs)) @ rest"
  have "parse_bulk_string (drop (length pre) ?buf) = Inr (Some (BulkString v, length (bulk_bytes v)))"
    using Cons.prems parse_bulk_string_bytes [of v "concat (map bulk_bytes vs) @ rest"] by simp
  then show ?case
    using Cons.IH [of "pre @ bulk_bytes v" "acc @ [v]"] Cons.prems by simp
qed

lemma parse_elements_cut:
  assumes "length (pre @ concat (map bulk_bytes vs)) < u64_modulus"
    and "strict_prefix p (concat (map bulk_bytes vs))"
  shows "parse_elements (length vs) (pre @ p) (length pre) acc = Inr None"
  using assms
proof (induction vs arbitrary: pre p acc)
  case Nil
  then show ?case by simp
next
  case (Cons v vs)
  from Cons.prems(2) have "strict_prefix p (bulk_bytes v @ concat (map bulk_bytes vs))" by simp
  then show ?case
  proof (cases rule: strict_prefix_append_cases)
    case left
    then have "parse_bulk_string p = Inr None"
      using Cons.prems(1) by (intro parse_bulk_string_cut) simp_all
    then show ?thesis by simp
  next
    case (right q)
    then have "length q < length (concat (map bulk_bytes vs))" by (simp add: prefix_length_less)
    then have len: "length (bulk_bytes v) + length q < u64_modulus"
      using Cons.prems(1) by simp
    then have "parse_bulk_string p = Inr (Some (BulkString v, length (bulk_bytes v)))"
      using right parse_bulk_string_bytes by simp
    then show ?thesis
      using right Cons.IH [of "pre @ bulk_bytes v" q "acc @ [v]"] Cons.prems(1) by simp
  qed
qed

abbreviation command_bytes :: "string list \<Rightarrow> string" where
  "command_bytes args \<equiv> to_bytes (Array args)"

lemma vector_max_less: "n \<le> vector_max_size \<Longrightarrow> n < u64_modulus"
  by (simp add: vector_max_size_def u64_modulus_def)

lemma parse_command_bytes:
  assumes "length (command_bytes args) + length rest < u64_modulus"
    and "length args \<le> vector_max_size"
  shows "parse_command (command_bytes args @ rest) = Inr (Some (args, length (command_bytes args)))"
proof -
  let ?n = "to_string_nat (length args)"
  let ?pre = "CHR ''*'' # ?n @ crlf"
  let ?buf = "?pre @ concat (map bulk_bytes args) @ rest"
  have "read_till_crlf (?n @ crlf @ concat (map bulk_bytes args) @ rest) = Some (?n, length ?n + 2)"
    by (simp add: read_till_crlf_append)
  moreover have "parse_usize_from_buf ?n = Inr (length args)"
    using assms(2) by (simp add: parse_usize_to_string vector_max_less)
  ultimately have "parse_command (command_bytes args @ rest) = parse_elements (length args) ?buf (length ?pre) []"
    using assms(2) by (simp add: parse_command_eq)
  also have "\<dots> = Inr (Some (args, length (command_bytes args)))"
    using parse_elements_bytes [of ?pre args rest "[]"] assms(1) by simp
  finally show ?thesis .
qed

lemma parse_command_cut:
  assumes "length (command_bytes args) < u64_modulus" and "length args \<le> vector_max_size"
    and "strict_prefix p (command_bytes args)"
  shows "parse_command p = Inr None"
proof (cases p)
  case Nil
  then show ?thesis by (simp add: parse_command_eq)
next
  case (Cons c p')
  let ?n = "to_string_nat (length args)"
  from assms(3) Cons have c: "c = CHR ''*''"
    and p': "strict_prefix p' ((?n @ crlf) @ concat (map bulk_bytes args))"
    by simp_all
  from p' show ?thesis
  proof (cases rule: strict_prefix_append_cases)
    case left
    then have "read_till_crlf p' = None" by (rule read_till_crlf_cut [rotated]) simp
    with Cons c show ?thesis by (simp add: parse_command_eq)
  next
    case (right q)
    then have "read_till_crlf p' = Some (?n, length ?n + 2)" by (simp add: read_till_crlf_append)
    moreover have "parse_usize_from_buf ?n = Inr (length args)"
      using assms(2) by (simp add: parse_usize_to_string vector_max_less)
    moreover have "parse_elements (length args) ((CHR ''*'' # ?n @ crlf) @ q) (length (CHR ''*'' # ?n @ crlf)) []
        = Inr None"
      using right assms(1) by (intro parse_elements_cut) simp_all
    ultimately show ?thesis
      using Cons c right(1) assms(2) by (simp add: parse_command_eq)
  qed
qed

section \<open>The parser stays inside its buffer\<close>

text \<open>
  Whatever the wire says, a parsed request consumed at least its header and at most the
  buffer, and no \<open>substr\<close> starts beyond the end: the receive loop makes progress.
\<close>

lemma parse_bulk_string_bound: "parse_bulk_string b = Inr (Some (r, n)) \<Longrightarrow> n \<le> length b"
  by (auto simp: parse_bulk_string_def Let_def split: if_splits option.splits sum.splits)

lemma parse_bulk_string_exn: "parse_bulk_string b = Inl e \<Longrightarrow> \<exists>m. e = RespError m"
  by (auto simp: parse_bulk_string_def parse_usize_from_buf_def Let_def
      split: if_splits option.splits sum.splits)

lemma parse_elements_safe:
  assumes "offset \<le> length buffer"
  shows "parse_elements n buffer offset acc \<noteq> Inl OutOfRange"
    and "parse_elements n buffer offset acc = Inr (Some (xs, m)) \<Longrightarrow> m \<le> length buffer"
    and "parse_elements n buffer offset acc = Inl e \<Longrightarrow> \<exists>t. e = RespError t"
    and "parse_elements n buffer offset acc = Inr (Some (xs, m)) \<Longrightarrow> offset \<le> m"
    and "parse_elements n buffer offset acc = Inr (Some (xs, m)) \<Longrightarrow> length xs = length acc + n"
proof -
  have "parse_elements n buffer offset acc \<noteq> Inl OutOfRange
      \<and> (\<forall>xs m. parse_elements n buffer offset acc = Inr (Some (xs, m))
            \<longrightarrow> offset \<le> m \<and> m \<le> length buffer \<and> length xs = length acc + n)
      \<and> (\<forall>e. parse_elements n buffer offset acc = Inl e \<longrightarrow> (\<exists>t. e = RespError t))"
    using assms
  proof (induction n arbitrary: offset acc)
    case 0
    then show ?case by simp
  next
    case (Suc n)
    show ?case
    proof (cases "parse_bulk_string (drop offset buffer)")
      case (Inl e)
      then show ?thesis
        using Suc.prems parse_bulk_string_exn [OF Inl] by auto
    next
      case (Inr r)
      show ?thesis
      proof (cases r)
        case None
        then show ?thesis using Inr Suc.prems by simp
      next
        case (Some rc)
        obtain v c where rc: "rc = (v, c)" by fastforce
        with Inr Some have "c \<le> length (drop offset buffer)"
          using parse_bulk_string_bound [of "drop offset buffer" v c] by simp
        then have le: "offset + c \<le> length buffer" using Suc.prems by simp
        then show ?thesis
          using Suc.IH [OF le, of "acc @ [resp_value v]"] Suc.prems Inr Some rc
          by fastforce
      qed
    qed
  qed
  then show "parse_elements n buffer offset acc \<noteq> Inl OutOfRange"
    and "parse_elements n buffer offset acc = Inr (Some (xs, m)) \<Longrightarrow> m \<le> length buffer"
    and "parse_elements n buffer offset acc = Inl e \<Longrightarrow> \<exists>t. e = RespError t"
    and "parse_elements n buffer offset acc = Inr (Some (xs, m)) \<Longrightarrow> offset \<le> m"
    and "parse_elements n buffer offset acc = Inr (Some (xs, m)) \<Longrightarrow> length xs = length acc + n"
    by blast+
qed

lemma parse_usize_nonempty: "parse_usize_from_buf d = Inr n \<Longrightarrow> d \<noteq> []"
  by (auto simp: parse_usize_from_buf_def stoull_def strto_parts_def split: sum.splits)

lemma parse_command_consumes:
  assumes "parse_command b = Inr (Some (args, n))"
  shows "4 \<le> n" and "n \<le> length b"
proof -
  obtain d h c where
    h: "read_till_crlf (drop 1 b) = Some (d, h)" and c: "parse_usize_from_buf d = Inr c"
    and ne: "b \<noteq> []" and el: "parse_elements c b (h + 1) [] = Inr (Some (args, n))"
    using assms
    by (auto simp: parse_command_eq split: if_splits option.splits sum.splits)
  from h have "h \<le> length (drop 1 b)" "h = length d + 2"
    using read_till_crlf_bound by blast+
  moreover have "d \<noteq> []" using c by (rule parse_usize_nonempty)
  ultimately have off: "h + 1 \<le> length b" "4 \<le> h + 1"
    using ne by (cases b; cases d; simp)+
  show "n \<le> length b" using parse_elements_safe(2) [OF off(1) el] .
  show "4 \<le> n" using parse_elements_safe(4) [OF off(1) el] off(2) by simp
qed

lemma parse_elements_count:
  "parse_elements n buffer offset elements = Inr (Some (args, m)) \<Longrightarrow> length args = length elements + n"
  by (induction n buffer offset elements rule: parse_elements.induct)
    (auto split: if_splits sum.splits option.splits prod.splits)

lemma parse_command_count:
  "parse_command b = Inr (Some (args, n)) \<Longrightarrow> announced b = Some (length args)"
  by (auto simp: parse_command_eq announced_def dest!: parse_elements_count split: if_splits option.splits sum.splits)

lemma parse_command_oversized:
  assumes "parse_command b = Inl LengthError"
  shows "\<exists>n. announced b = Some n \<and> vector_max_size < n"
proof (rule ccontr)
  assume "\<not> ?thesis"
  with assms obtain d h c where
    h: "read_till_crlf (drop 1 b) = Some (d, h)" and "b \<noteq> []"
    and el: "parse_elements c b (h + 1) [] = Inl LengthError"
    by (auto simp: parse_command_eq announced_def parse_usize_from_buf_def
        split: if_splits option.splits sum.splits)
  then have "h + 1 \<le> length b" using read_till_crlf_bound [OF h] by (cases b) auto
  then show False using parse_elements_safe(3) [OF _ el] by blast
qed

lemma parse_command_exn:
  assumes "parse_command b = Inl e"
  shows "e = LengthError \<or> (\<exists>t. e = RespError t)"
proof (rule ccontr)
  assume ne: "\<not> ?thesis"
  with assms obtain d h c where
    h: "read_till_crlf (drop 1 b) = Some (d, h)" and "b \<noteq> []"
    and el: "parse_elements c b (h + 1) [] = Inl e"
    by (auto simp: parse_command_eq parse_usize_from_buf_def
        split: if_splits option.splits sum.splits)
  then have "h + 1 \<le> length b" using read_till_crlf_bound [OF h] by (cases b) auto
  then show False using parse_elements_safe(3) [OF _ el] ne by blast
qed

section \<open>Draining a connection's buffer\<close>

text \<open>
  The receive loops of \<open>Server::run\<close>: after a chunk is appended, complete requests are
  taken off the front of the buffer until the parser asks for more bytes or throws.
\<close>

function drain :: "string \<Rightarrow> string list list \<times> string \<times> exn option" where
  "drain buffer =
     (case parse_command buffer of
        Inl e \<Rightarrow> ([], buffer, Some e)
      | Inr None \<Rightarrow> ([], buffer, None)
      | Inr (Some (args, consumed)) \<Rightarrow>
          (case drain (drop consumed buffer) of (cmds, rest, e) \<Rightarrow> (args # cmds, rest, e)))"
  by pat_completeness auto
termination
proof (relation "measure length")
  fix buffer x y args consumed
  assume "parse_command buffer = Inr x" "x = Some y" "(args, consumed) = y"
  then have "parse_command buffer = Inr (Some (args, consumed))" by simp
  then have "4 \<le> consumed" "consumed \<le> length buffer" by (rule parse_command_consumes)+
  then show "(drop consumed buffer, buffer) \<in> measure length" by simp
qed simp

declare drain.simps [simp del]

fun feed_chunks :: "string \<Rightarrow> string list \<Rightarrow> string list list \<times> string \<times> exn option" where
  "feed_chunks buffer [] = ([], buffer, None)"
| "feed_chunks buffer (chunk # chunks) =
     (case drain (buffer @ chunk) of
        (cmds, rest, Some e) \<Rightarrow> (cmds, rest, Some e)
      | (cmds, rest, None) \<Rightarrow>
          (case feed_chunks rest chunks of (cmds', rest', e) \<Rightarrow> (cmds @ cmds', rest', e)))"

locale framing =
  fixes enc :: "'m \<Rightarrow> string"
    and parse :: "string \<Rightarrow> ('m \<times> nat) option res"
    and drain_buf :: "string \<Rightarrow> 'm list \<times> string \<times> exn option"
    and feed :: "string \<Rightarrow> string list \<Rightarrow> 'm list \<times> string \<times> exn option"
    and good :: "'m \<Rightarrow> bool"
    and bound :: nat
  assumes parse_enc: "good m \<Longrightarrow> length (enc m) + length rest < bound \<Longrightarrow>
      parse (enc m @ rest) = Inr (Some (m, length (enc m)))"
    and parse_cut: "good m \<Longrightarrow> length (enc m) < bound \<Longrightarrow> strict_prefix p (enc m) \<Longrightarrow>
      parse p = Inr None"
    and parse_Nil: "parse [] = Inr None"
    and drain_more: "parse b = Inr None \<Longrightarrow> drain_buf b = ([], b, None)"
    and drain_step: "parse b = Inr (Some (m, n)) \<Longrightarrow>
      drain_buf b = (case drain_buf (drop n b) of (ms, r, e) \<Rightarrow> (m # ms, r, e))"
    and feed_Nil: "feed b [] = ([], b, None)"
    and feed_Cons: "drain_buf (b @ c) = (ms, r, None) \<Longrightarrow>
      feed b (c # cs) = (case feed r cs of (ms', r', e) \<Rightarrow> (ms @ ms', r', e))"
begin

abbreviation stream :: "'m list \<Rightarrow> string" where
  "stream ms \<equiv> concat (map enc ms)"

lemma enc_neq_Nil: "good m \<Longrightarrow> length (enc m) < bound \<Longrightarrow> enc m \<noteq> []"
  using parse_enc [of m "[]"] parse_Nil by auto

lemma drain_stream:
  assumes "\<forall>m \<in> set ms. good m" "length (stream ms @ p) < bound" "parse p = Inr None"
  shows "drain_buf (stream ms @ p) = (ms, p, None)"
  using assms
proof (induction ms)
  case Nil
  then show ?case by (simp add: drain_more)
next
  case (Cons m ms)
  then have "parse (enc m @ stream ms @ p) = Inr (Some (m, length (enc m)))"
    by (intro parse_enc) simp_all
  then show ?case using Cons by (simp add: drain_step)
qed

lemma cut_stream:
  assumes "\<forall>m \<in> set ms. good m" "length (stream ms) < bound" "b @ c = stream ms"
  obtains ds p later where "ms = ds @ later" "b = stream ds @ p" "p @ c = stream later"
    "parse p = Inr None"
proof -
  have "\<exists>ds p later. ms = ds @ later \<and> b = stream ds @ p \<and> p @ c = stream later
      \<and> parse p = Inr None"
    using assms
  proof (induction ms arbitrary: b)
    case Nil
    then show ?case by (intro exI [of _ "[]"]) (simp add: parse_Nil)
  next
    case (Cons m ms)
    from Cons.prems(3) have eq: "b @ c = enc m @ stream ms" by simp
    show ?case
    proof (cases "strict_prefix b (enc m)")
      case True
      then have "parse b = Inr None" using Cons.prems by (intro parse_cut) auto
      then show ?thesis using Cons.prems(3) by (intro exI [of _ "[]"] exI [of _ b] exI [of _ "m # ms"]) simp
    next
      case False
      then obtain b' where b': "b = enc m @ b'" "b' @ c = stream ms"
        using eq by (auto simp: append_eq_append_conv2 strict_prefix_def prefix_def) metis
      with Cons obtain ds p later where
        "ms = ds @ later \<and> b' = stream ds @ p \<and> p @ c = stream later \<and> parse p = Inr None"
        by fastforce
      with b' show ?thesis by (intro exI [of _ "m # ds"]) auto
    qed
  qed
  with that show thesis by blast
qed

text \<open>
  However the bytes of a sequence of messages are cut into chunks, the loop delivers after
  each chunk the messages that are complete, and keeps the beginning of the next one.
\<close>

lemma feed_prefix:
  assumes "\<forall>m \<in> set ms. good m" "length (stream ms) < bound" "b @ concat cs @ q = stream ms"
    and "parse b = Inr None"
  shows "\<exists>ds p later. feed b cs = (ds, p, None) \<and> ms = ds @ later \<and> p @ q = stream later \<and> parse p = Inr None"
  using assms
proof (induction cs arbitrary: b ms)
  case Nil
  then show ?case by (intro exI [of _ "[]"] exI [of _ b] exI [of _ ms]) (simp add: feed_Nil)
next
  case (Cons c cs)
  from Cons.prems(3) have "(b @ c) @ concat cs @ q = stream ms" by simp
  with Cons.prems(1,2) obtain ds p later where
    p: "ms = ds @ later" "b @ c = stream ds @ p" "p @ concat cs @ q = stream later" "parse p = Inr None"
    by (rule cut_stream)
  have "length (stream ds @ p) \<le> length (stream ms)"
    unfolding p(2) [symmetric] Cons.prems(3) [symmetric] by simp
  then have "drain_buf (b @ c) = (ds, p, None)"
    using Cons.prems(1,2) p drain_stream [of ds p] by simp
  moreover obtain ds' p' later' where "feed p cs = (ds', p', None)" "later = ds' @ later'"
      "p' @ q = stream later'" "parse p' = Inr None"
    using Cons.prems(1,2) p Cons.IH [of later p] by auto
  ultimately show ?case using p(1)
    by (intro exI [of _ "ds @ ds'"] exI [of _ p'] exI [of _ later']) (simp add: feed_Cons)
qed

lemma incomplete_stream:
  assumes "\<forall>m \<in> set ms. good m" "length (stream ms) < bound" "parse (stream ms) = Inr None"
  shows "ms = []"
proof (rule ccontr)
  assume "ms \<noteq> []"
  then obtain m ms' where "ms = m # ms'" by (cases ms) auto
  with assms show False using parse_enc [of m "stream ms'"] by simp
qed

lemma feed_chunking:
  assumes "\<forall>m \<in> set ms. good m" "length (stream ms) < bound" "b @ concat cs = stream ms"
    and "parse b = Inr None"
  shows "feed b cs = (ms, [], None)"
proof -
  obtain ds p later where f: "feed b cs = (ds, p, None)" "ms = ds @ later" "p = stream later" "parse p = Inr None"
    using feed_prefix [of ms b cs "[]"] assms by auto
  with assms have "later = []" by (intro incomplete_stream) auto
  with f show ?thesis by simp
qed

text \<open>A last message that is cut short stays in the buffer.\<close>

lemma feed_torn:
  assumes "\<forall>m \<in> set ms. good m" "good m" "length (stream (ms @ [m])) < bound"
    and "concat cs = stream ms @ p" "strict_prefix p (enc m)"
  shows "feed [] cs = (ms, p, None)"
proof -
  obtain q where q: "enc m = p @ q" "q \<noteq> []" using assms(5) by (auto simp: strict_prefix_def prefix_def)
  then have all: "[] @ concat cs @ q = stream (ms @ [m])" using assms(4) by simp
  then obtain ds r later where f: "feed [] cs = (ds, r, None)" "ms @ [m] = ds @ later" "r @ q = stream later"
      "parse r = Inr None"
    using feed_prefix [of "ms @ [m]" "[]" cs q] assms parse_Nil by auto
  show ?thesis
  proof (cases "later = []")
    case True
    with f(3) q(2) show ?thesis by simp
  next
    case False
    then obtain later' x where "later = later' @ [x]" by (metis rev_exhaust)
    then have l: "later = later' @ [m]" "ms = ds @ later'" using f(2) by simp_all
    then have r: "r = stream later' @ p" using f(3) q(1) by simp
    have "later' = []"
    proof (rule ccontr)
      assume "later' \<noteq> []"
      then obtain k ks where k: "later' = k # ks" by (cases later') auto
      then have "parse (enc k @ stream ks @ p) = Inr (Some (k, length (enc k)))"
        using assms(1,3,4) l(2) q by (intro parse_enc) auto
      with f(4) r k show False by simp
    qed
    with f l r show ?thesis by simp
  qed
qed

end

interpretation resp_framing: framing command_bytes parse_command drain feed_chunks
  "\<lambda>args. length args \<le> vector_max_size" u64_modulus
proof unfold_locales
  fix b c cs ms r
  show "feed_chunks b [] = ([], b, None)" by simp
  show "drain (b @ c) = (ms, r, None) \<Longrightarrow>
      feed_chunks b (c # cs) = (case feed_chunks r cs of (ms', r', e) \<Rightarrow> (ms @ ms', r', e))"
    by simp
next
  fix b m n
  show "parse_command b = Inr None \<Longrightarrow> drain b = ([], b, None)"
    by (subst drain.simps) simp
  show "parse_command b = Inr (Some (m, n)) \<Longrightarrow>
      drain b = (case drain (drop n b) of (ms, r, e) \<Rightarrow> (m # ms, r, e))"
    by (subst drain.simps) simp
  show "parse_command [] = Inr None" by (simp add: parse_command_eq)
qed (rule parse_command_bytes parse_command_cut; assumption)+

section \<open>Properties\<close>

text \<open>C7: Pipelining and chunk independence of the receive loop. However the bytes of a
  sequence of encoded requests are cut into the chunks that \<open>recv\<close> returns, draining the
  connection buffer after each chunk delivers exactly those requests, in order, raises no
  protocol error and leaves the buffer empty.\<close>

theorem pipelined_commands_any_chunking:
  assumes "\<forall>args \<in> set cmds. length args \<le> vector_max_size"
    and "length (concat (map (\<lambda>args. to_bytes (Array args)) cmds)) < u64_modulus"
    and "concat chunks = concat (map (\<lambda>args. to_bytes (Array args)) cmds)"
  shows "feed_chunks [] chunks = (cmds, [], None)"
  using resp_framing.feed_chunking [of cmds "[]" chunks] assms by (simp add: parse_command_eq)

theorem pipelined_commands_any_chunking_witness:
  "feed_chunks [] [''*1'', [CR], [LF] @ ''$4'' @ crlf @ ''PI'', ''NG'' @ crlf @ ''*2'' @ crlf @ ''$3'',
      crlf @ ''GET'' @ crlf @ ''$1'' @ crlf @ ''k'' @ crlf]
     = ([[''PING''], [''GET'', ''k'']], [], None)"
proof (rule pipelined_commands_any_chunking)
  show "\<forall>args \<in> set [[''PING''], [''GET'', ''k'']]. length args \<le> vector_max_size"
    by (simp add: vector_max_size_def)
  show "length (concat (map (\<lambda>args. to_bytes (Array args)) [[''PING''], [''GET'', ''k'']])) < u64_modulus"
    by (simp add: bulk_bytes_def to_string_nat.simps u64_modulus_def)
  show "concat [''*1'', [CR], [LF] @ ''$4'' @ crlf @ ''PI'', ''NG'' @ crlf @ ''*2'' @ crlf @ ''$3'',
      crlf @ ''GET'' @ crlf @ ''$1'' @ crlf @ ''k'' @ crlf]
      = concat (map (\<lambda>args. to_bytes (Array args)) [[''PING''], [''GET'', ''k'']])"
    by code_simp
qed

text \<open>Encode/decode round trip of requests. A printed array of bulk strings, whatever
  bytes its elements hold and whatever follows it in the buffer, parses back to the same
  elements and consumes exactly its own bytes.\<close>

lemma command_roundtrip:
  assumes "length args \<le> vector_max_size"
    and "length (to_bytes (Array args)) + length rest < u64_modulus"
  shows "parse_command (to_bytes (Array args) @ rest) = Inr (Some (args, length (to_bytes (Array args))))"
  using assms by (intro parse_command_bytes)

text \<open>C19: Safety of the request parser on arbitrary bytes, whatever memory there is for the list
  of its elements. A parsed request has as many elements as its header announces and consumed
  at least four bytes and no more than the buffer holds, so the receive loop terminates. It
  throws nothing but the protocol error the server catches, \<open>std::length_error\<close> when the
  header announces more elements than a vector can have, and \<open>std::bad_alloc\<close> when it
  announces more than there is memory for; in particular \<open>substr\<close> is never called beyond
  the end.\<close>

theorem parser_progress_and_exceptions:
  "case parse_command_in memory buffer of
     Inr (Some (args, consumed)) \<Rightarrow> 4 \<le> consumed \<and> consumed \<le> length buffer \<and> announced buffer = Some (length args)
   | Inr None \<Rightarrow> True
   | Inl e \<Rightarrow> (\<exists>message. e = RespError message)
       \<or> e = LengthError \<and> (\<exists>n. announced buffer = Some n \<and> vector_max_size < n)
       \<or> e = BadAlloc \<and> (\<exists>n. announced buffer = Some n \<and> memory < n \<and> n \<le> vector_max_size)"
proof (cases "\<exists>n. announced buffer = Some n \<and> memory < n \<and> n \<le> vector_max_size")
  case True
  then show ?thesis by (auto simp: parse_command_in_announced)
next
  case False
  then have "parse_command_in memory buffer = parse_command buffer"
    using parse_command_in_announced [of buffer _ memory] parse_command_in_other [of buffer memory]
    by (cases "announced buffer") (force simp: not_less)+
  then show ?thesis
    using parse_command_consumes [of buffer] parse_command_count [of buffer] parse_command_exn [of buffer]
      parse_command_oversized [of buffer]
    by (auto split: sum.split option.split)
qed

text \<open>So with less memory the parser does the same, or throws \<open>std::bad_alloc\<close>, which the receive
  loop does not catch either: a header of a few bytes is enough to ask for more than there is.\<close>

lemma parse_command_memory:
  "parse_command_in memory buffer = parse_command buffer \<or> parse_command_in memory buffer = Inl BadAlloc"
  by (cases "announced buffer"; cases "the (announced buffer) \<le> vector_max_size")
    (auto simp: parse_command_in_announced intro: parse_command_in_other)

lemma huge_count_throws_bad_alloc:
  assumes "memory < 10 ^ 15"
  shows "parse_command_in memory (''*1000000000000000'' @ crlf) = Inl BadAlloc"
proof -
  have "announced (''*1000000000000000'' @ crlf) = Some (10 ^ 15)" by code_simp
  with assms show ?thesis by (simp add: parse_command_in_announced vector_max_size_def)
qed

lemma parse_usize_minus_one: "parse_usize_from_buf ''-1'' = Inr (u64_modulus - 1)"
  by (simp add: parse_usize_from_buf_def stoull_def strto_parts_def is_space_def is_digit_def
      digits_val_def digit_val_def wrap_u64_def u64_modulus_def)

text \<open>A negative bulk length is not rejected. \<open>std::stoull\<close> reads \<open>-1\<close> as the
  largest 64-bit value, the end index wraps, and the parser returns the rest of the buffer
  as the element while consuming only its first byte, so the same bytes are parsed again
  as the next request.\<close>

lemma negative_bulk_length_misframes:
  shows "parse_bulk_string (''$-1'' @ crlf @ c # body)
     = Inr (Some (BulkString (take (u64_modulus - 1) (c # body)), 6))"
proof -
  have "read_till_crlf (''-1'' @ crlf @ c # body) = Some (''-1'', 4)"
    using read_till_crlf_append [of "''-1''" "c # body"] by simp
  moreover note parse_usize_minus_one
  moreover have "wrap_u64 (5 + (u64_modulus - 1)) = 4" "wrap_u64 6 = 6"
    by (simp_all add: wrap_u64_def u64_modulus_def)
  ultimately show ?thesis
    by (simp add: parse_bulk_string_def crlf_def)
qed

text \<open>A negative element count takes the server down. \<open>*-1\<close> asks for
  \<open>2 ^ 64 - 1\<close> elements and \<open>reserve\<close> throws \<open>std::length_error\<close>, which the receive
  loop, catching only \<open>RespError\<close>, does not handle.\<close>

lemma negative_count_throws_length_error:
  "parse_command (''*-1'' @ crlf @ rest) = Inl LengthError"
proof -
  have "read_till_crlf (''-1'' @ crlf @ rest) = Some (''-1'', 4)"
    using read_till_crlf_append [of "''-1''" rest] by simp
  moreover note parse_usize_minus_one
  moreover have "vector_max_size < u64_modulus - 1"
    by (simp add: vector_max_size_def u64_modulus_def)
  ultimately show ?thesis by (simp add: parse_command_eq)
qed

text \<open>The two bytes after a bulk string are skipped whatever they are.\<close>

lemma bulk_terminator_unchecked:
  "parse_bulk_string (''$1'' @ crlf @ ''aXY'') = Inr (Some (BulkString ''a'', 7))"
  by code_simp

end
