(* ===== verification/Rax.thy ===== *)
theory Rax
  imports Prelude
begin

text \<open>
  The radix tree of \<open>third_party/rax\<close> is used by the streams through four calls:
  \<open>raxNew\<close>, \<open>raxTryInsert\<close>, \<open>raxFind\<close> and a \<open>raxSeek\<close> with \<open>>=\<close> followed by
  \<open>raxNext\<close>. The locale \<open>ordered_dict\<close> states their documented behaviour: a dictionary
  over byte strings that never overwrites on a failed insertion and iterates in
  lexicographic order of unsigned bytes. The value of a tree is the increasing list of
  its entries; the operations on it satisfy the contract.
\<close>

locale ordered_dict =
  fixes try_insert :: "'k::linorder \<Rightarrow> 'v \<Rightarrow> 't \<Rightarrow> 't \<times> bool"
    and find_key :: "'t \<Rightarrow> 'k \<Rightarrow> 'v option"
    and iter_ge :: "'k \<Rightarrow> 't \<Rightarrow> ('k \<times> 'v) list"
    and contents :: "'t \<Rightarrow> ('k \<times> 'v) list"
    and valid :: "'t \<Rightarrow> bool"
  assumes contents_sorted: "valid t \<Longrightarrow> sorted_wrt (<) (map fst (contents t))"
    and find_contents: "valid t \<Longrightarrow> find_key t k = map_of (contents t) k"
    and insert_exists: "valid t \<Longrightarrow> k \<in> fst ` set (contents t) \<Longrightarrow> try_insert k v t = (t, False)"
    and insert_fresh: "valid t \<Longrightarrow> k \<notin> fst ` set (contents t) \<Longrightarrow>
       snd (try_insert k v t) \<and> valid (fst (try_insert k v t))
       \<and> set (contents (fst (try_insert k v t))) = insert (k, v) (set (contents t))"
    and iter_contents: "valid t \<Longrightarrow> iter_ge k t = filter (\<lambda>p. k \<le> fst p) (contents t)"
begin

text \<open>A key above every stored key is appended at the end.\<close>

lemma insert_greatest:
  assumes t: "valid t" and gt: "\<forall>k' \<in> fst ` set (contents t). k' < k"
  shows "snd (try_insert k v t)" "valid (fst (try_insert k v t))"
    "contents (fst (try_insert k v t)) = contents t @ [(k, v)]"
proof -
  let ?t = "fst (try_insert k v t)"
  have fresh: "k \<notin> fst ` set (contents t)" using gt by force
  note ins = insert_fresh [OF t fresh, of v]
  then show "snd (try_insert k v t)" "valid ?t" by simp_all
  have s1: "sorted_wrt (<) (map fst (contents ?t))" using ins contents_sorted by blast
  have s2: "sorted_wrt (<) (map fst (contents t @ [(k, v)]))"
    using contents_sorted [OF t] gt by (simp add: sorted_wrt_append)
  have eqs: "set (contents ?t) = set (contents t @ [(k, v)])" using ins by simp
  then show "contents ?t = contents t @ [(k, v)]"
    using s1 s2 by (intro increasing_pairs_unique)
qed

lemma iter_prefix:
  assumes "valid t"
  shows "takeWhile (\<lambda>p. fst p \<le> hi) (iter_ge lo t)
     = filter (\<lambda>p. lo \<le> fst p \<and> fst p \<le> hi) (contents t)"
proof -
  have "sorted_wrt (<) (map fst (filter (\<lambda>p. lo \<le> fst p) (contents t)))"
    using contents_sorted [OF assms] by (simp add: sorted_wrt_map sorted_wrt_filter)
  then have "takeWhile (\<lambda>p. fst p \<le> hi) (filter (\<lambda>p. lo \<le> fst p) (contents t))
      = filter (\<lambda>p. fst p \<le> hi) (filter (\<lambda>p. lo \<le> fst p) (contents t))"
    by (rule increasing_takeWhile_filter)
  then show ?thesis by (simp add: iter_contents assms conj_commute)
qed

end

type_synonym 'v rax = "(string \<times> 'v) list"

definition raxNew :: "'v rax" where
  "raxNew = []"

fun raxTryInsert :: "string \<Rightarrow> 'v \<Rightarrow> 'v rax \<Rightarrow> 'v rax \<times> bool" where
  "raxTryInsert k v [] = ([(k, v)], True)"
| "raxTryInsert k v ((k', v') # t) =
     (if k < k' then ((k, v) # (k', v') # t, True)
      else if k = k' then ((k', v') # t, False)
      else (case raxTryInsert k v t of (t', ok) \<Rightarrow> ((k', v') # t', ok)))"

definition raxFind :: "'v rax \<Rightarrow> string \<Rightarrow> 'v option" where
  "raxFind t k = map_of t k"

text \<open>The entries \<open>raxNext\<close> delivers after seeking to the first key at or above \<open>k\<close>.\<close>

definition raxSeekGE :: "string \<Rightarrow> 'v rax \<Rightarrow> (string \<times> 'v) list" where
  "raxSeekGE k t = dropWhile (\<lambda>p. fst p < k) t"

definition rax_ok :: "'v rax \<Rightarrow> bool" where
  "rax_ok t = sorted_wrt (<) (map fst t)"

lemma raxTryInsert_exists: "rax_ok t \<Longrightarrow> k \<in> fst ` set t \<Longrightarrow> raxTryInsert k v t = (t, False)"
  by (induction k v t rule: raxTryInsert.induct) (force simp: rax_ok_def)+

lemma raxTryInsert_fresh:
  "rax_ok t \<Longrightarrow> k \<notin> fst ` set t \<Longrightarrow>
     snd (raxTryInsert k v t) \<and> rax_ok (fst (raxTryInsert k v t))
     \<and> set (fst (raxTryInsert k v t)) = insert (k, v) (set t)"
proof (induction k v t rule: raxTryInsert.induct)
  case (1 k v)
  then show ?case by (simp add: rax_ok_def)
next
  case (2 k v k' v' t)
  show ?case
  proof (cases "k < k'")
    case True
    with 2 show ?thesis by (force simp: rax_ok_def)
  next
    case False
    with 2 have "rax_ok t" "k' < k" "k \<notin> fst ` set t" by (auto simp: rax_ok_def)
    moreover from this False "2.prems" have
      "snd (raxTryInsert k v t) \<and> rax_ok (fst (raxTryInsert k v t))
       \<and> set (fst (raxTryInsert k v t)) = insert (k, v) (set t)"
      by (intro "2.IH") auto
    ultimately show ?thesis
      using False "2.prems" by (auto simp: rax_ok_def split: prod.splits)
  qed
qed

lemma raxSeekGE_filter: "rax_ok t \<Longrightarrow> raxSeekGE k t = filter (\<lambda>p. k \<le> fst p) t"
  by (simp add: raxSeekGE_def rax_ok_def increasing_dropWhile_filter)

interpretation rd: ordered_dict raxTryInsert raxFind raxSeekGE "\<lambda>t. t" rax_ok
proof unfold_locales
  fix t :: "'v rax" and k v
  assume ok: "rax_ok t"
  show "sorted_wrt (<) (map fst t)" using ok by (simp add: rax_ok_def)
  show "raxFind t k = map_of t k" by (simp add: raxFind_def)
  show "k \<in> fst ` set t \<Longrightarrow> raxTryInsert k v t = (t, False)"
    using ok by (rule raxTryInsert_exists)
  show "k \<notin> fst ` set t \<Longrightarrow> snd (raxTryInsert k v t) \<and> rax_ok (fst (raxTryInsert k v t))
      \<and> set (fst (raxTryInsert k v t)) = insert (k, v) (set t)"
    using ok by (rule raxTryInsert_fresh)
  show "raxSeekGE k t = filter (\<lambda>p. k \<le> fst p) t" using ok by (rule raxSeekGE_filter)
qed

lemma rax_ok_New [simp]: "rax_ok raxNew"
  by (simp add: rax_ok_def raxNew_def)

end
