(* ===== verification/Stream_Data.thy ===== *)
theory Stream_Data
  imports Cpp_Text Rax "HOL-Library.Word"
begin

unbundle bit_operations_syntax

text \<open>
  \<open>src/src/stream\<close>: stream identifiers (two 64-bit words ordered lexicographically),
  their textual forms, their 16-byte big-endian keys, and \<open>class Stream\<close> over the radix
  tree. The lemmas show that the byte keys order like the identifiers, that a stream is
  at every moment an increasing log of entries, that \<open>insert\<close> appends to this log, and
  that \<open>get_range\<close> returns a window of it.
\<close>

section \<open>Identifiers\<close>

datatype StreamID = StreamID (milliseconds: "64 word") (sequence: "64 word")

text \<open>\<open>operator<\<close>.\<close>

definition StreamID_less :: "StreamID \<Rightarrow> StreamID \<Rightarrow> bool" where
  "StreamID_less a b =
     (if milliseconds a \<noteq> milliseconds b then milliseconds a < milliseconds b
      else sequence a < sequence b)"

instantiation StreamID :: linorder
begin

definition less_StreamID :: "StreamID \<Rightarrow> StreamID \<Rightarrow> bool" where
  "less_StreamID = StreamID_less"

definition less_eq_StreamID :: "StreamID \<Rightarrow> StreamID \<Rightarrow> bool" where
  "less_eq_StreamID a b = (a < b \<or> a = b)"

instance
proof
  fix a b c :: StreamID
  show "a < b \<longleftrightarrow> a \<le> b \<and> \<not> b \<le> a"
    by (cases a; cases b) (auto simp: less_StreamID_def StreamID_less_def less_eq_StreamID_def split: if_splits)
  show "a \<le> a" by (simp add: less_eq_StreamID_def)
  show "a \<le> b \<Longrightarrow> b \<le> c \<Longrightarrow> a \<le> c"
    by (cases a; cases b; cases c)
      (auto simp: less_StreamID_def StreamID_less_def less_eq_StreamID_def split: if_splits)
  show "a \<le> b \<Longrightarrow> b \<le> a \<Longrightarrow> a = b"
    by (cases a; cases b) (auto simp: less_StreamID_def StreamID_less_def less_eq_StreamID_def split: if_splits)
  show "a \<le> b \<or> b \<le> a"
    by (cases a; cases b) (auto simp: less_StreamID_def StreamID_less_def less_eq_StreamID_def split: if_splits)
qed

end

definition u64_max :: "64 word" where
  "u64_max = - 1"

fun find_char :: "char \<Rightarrow> string \<Rightarrow> nat option" where
  "find_char c [] = None"
| "find_char c (x # xs) = (if x = c then Some 0 else map_option Suc (find_char c xs))"

definition StreamID_parse :: "string \<Rightarrow> StreamID option" where
  "StreamID_parse text =
     (case find_char CHR ''-'' text of
        None \<Rightarrow> None
      | Some dash \<Rightarrow>
          if dash = 0 \<or> length text \<le> dash + 1
             \<or> find_char CHR ''-'' (drop (dash + 1) text) \<noteq> None then None
          else (case (whole_u64 (take dash text), whole_u64 (drop (dash + 1) text)) of
                  (Some ms, Some seq) \<Rightarrow> Some (StreamID (of_nat ms) (of_nat seq))
                | _ \<Rightarrow> None))"

definition StreamID_to_string :: "StreamID \<Rightarrow> string" where
  "StreamID_to_string sid =
     to_string_nat (unat (milliseconds sid)) @ ''-'' @ to_string_nat (unat (sequence sid))"

definition parse_range_bound :: "string \<Rightarrow> 64 word \<Rightarrow> StreamID option" where
  "parse_range_bound text default_sequence =
     (if text = [] then None
      else if find_char CHR ''-'' text \<noteq> None then StreamID_parse text
      else (case whole_u64 text of
              None \<Rightarrow> None
            | Some ms \<Rightarrow> Some (StreamID (of_nat ms) default_sequence)))"

definition parse_range_start :: "string \<Rightarrow> StreamID option" where
  "parse_range_start text =
     (if text = ''-'' then Some (StreamID 0 0) else parse_range_bound text 0)"

definition parse_range_end :: "string \<Rightarrow> StreamID option" where
  "parse_range_end text =
     (if text = ''+'' then Some (StreamID u64_max u64_max) else parse_range_bound text u64_max)"

definition parse_read_id :: "string \<Rightarrow> StreamID option" where
  "parse_read_id text = parse_range_bound text 0"

definition advance_id :: "StreamID \<Rightarrow> StreamID option" where
  "advance_id sid =
     (if sequence sid \<noteq> u64_max then Some (StreamID (milliseconds sid) (sequence sid + 1))
      else if milliseconds sid = u64_max then None
      else Some (StreamID (milliseconds sid + 1) 0))"

section \<open>Keys\<close>

primrec write_be :: "nat \<Rightarrow> 64 word \<Rightarrow> string" where
  "write_be 0 value = []"
| "write_be (Suc i) value = write_be i (drop_bit 8 value) @ [char_of (unat (value AND 0xFF))]"

definition write_u64_be :: "64 word \<Rightarrow> string" where
  "write_u64_be value = write_be 8 value"

definition read_u64_be :: "string \<Rightarrow> 64 word" where
  "read_u64_be source = foldl (\<lambda>value c. push_bit 8 value OR of_char c) 0 (take 8 source)"

definition kEncodedIDSize :: nat where
  "kEncodedIDSize = 16"

definition encode_id :: "StreamID \<Rightarrow> string" where
  "encode_id sid = write_u64_be (milliseconds sid) @ write_u64_be (sequence sid)"

definition decode_id :: "string \<Rightarrow> StreamID res" where
  "decode_id key =
     (if length key \<noteq> kEncodedIDSize
      then Inl (RuntimeError ''invalid encoded stream ID length in rax'')
      else Inr (StreamID (read_u64_be key) (read_u64_be (drop 8 key))))"

section \<open>The stream\<close>

type_synonym StreamEntryData = "(string \<times> string) list"

datatype StreamAddResult = Ok | InvalidID | ZeroID | NotGreater

record Stream =
  tree :: "StreamEntryData rax"
  has_max_id :: bool
  max_id :: StreamID

definition new_Stream :: Stream where
  "new_Stream = \<lparr>tree = raxNew, has_max_id = False, max_id = StreamID 0 0\<rparr>"

text \<open>Results of functions with an out parameter: the status and the value assigned.\<close>

definition next_sequence :: "Stream \<Rightarrow> 64 word \<Rightarrow> StreamAddResult \<times> StreamID" where
  "next_sequence st ms =
     (if \<not> has_max_id st then (Ok, StreamID ms (if ms = 0 then 1 else 0))
      else if milliseconds (max_id st) < ms then (Ok, StreamID ms 0)
      else if sequence (max_id st) = u64_max then (NotGreater, StreamID 0 0)
      else (Ok, StreamID (milliseconds (max_id st)) (sequence (max_id st) + 1)))"

definition resolve_id :: "64 word \<Rightarrow> Stream \<Rightarrow> string \<Rightarrow> StreamAddResult \<times> StreamID" where
  "resolve_id now_ms st id_text =
     (if id_text = ''*'' then next_sequence st now_ms
      else case find_char CHR ''-'' id_text of
        Some dash \<Rightarrow>
          if drop (dash + 1) id_text = ''*'' then
            (if dash = 0 then (InvalidID, StreamID 0 0)
             else case whole_u64 (take dash id_text) of
               None \<Rightarrow> (InvalidID, StreamID 0 0)
             | Some ms \<Rightarrow>
                 if has_max_id st \<and> of_nat ms < milliseconds (max_id st)
                 then (NotGreater, StreamID 0 0)
                 else next_sequence st (of_nat ms))
          else (case StreamID_parse id_text of
               None \<Rightarrow> (InvalidID, StreamID 0 0)
             | Some out \<Rightarrow>
                 if milliseconds out = 0 \<and> sequence out = 0 then (ZeroID, out)
                 else if has_max_id st \<and> \<not> max_id st < out then (NotGreater, out)
                 else (Ok, out))
      | None \<Rightarrow> (InvalidID, StreamID 0 0))"

definition insert_entry ::
  "64 word \<Rightarrow> Stream \<Rightarrow> string \<Rightarrow> StreamEntryData \<Rightarrow> StreamAddResult \<times> Stream \<times> StreamID" where
  "insert_entry now_ms st id_text data =
     (case resolve_id now_ms st id_text of
        (Ok, sid) \<Rightarrow>
          (case raxTryInsert (encode_id sid) data (tree st) of
             (_, False) \<Rightarrow> (NotGreater, st, StreamID 0 0)
           | (t, True) \<Rightarrow>
               (Ok, st\<lparr>tree := t, max_id := sid, has_max_id := True\<rparr>, sid))
      | (r, _) \<Rightarrow> (r, st, StreamID 0 0))"

definition last_id :: "Stream \<Rightarrow> StreamID option" where
  "last_id st = (if has_max_id st then Some (max_id st) else None)"

definition find_entry :: "Stream \<Rightarrow> string \<Rightarrow> StreamEntryData option" where
  "find_entry st id_text =
     (case StreamID_parse id_text of
        None \<Rightarrow> None
      | Some sid \<Rightarrow> raxFind (tree st) (encode_id sid))"

text \<open>The iteration of \<open>get_range\<close> over the entries the seek delivers.\<close>

fun range_loop :: "StreamID \<Rightarrow> nat \<Rightarrow> (string \<times> StreamEntryData) list
    \<Rightarrow> (string \<times> StreamEntryData) list \<Rightarrow> (string \<times> StreamEntryData) list res" where
  "range_loop end_id count [] results = Inr results"
| "range_loop end_id count ((key, payload) # rest) results =
     (case decode_id key of
        Inl e \<Rightarrow> Inl e
      | Inr sid \<Rightarrow>
          if end_id < sid then Inr results
          else let results' = results @ [(StreamID_to_string sid, payload)]
               in if count \<noteq> 0 \<and> count \<le> length results' then Inr results'
                  else range_loop end_id count rest results')"

definition get_range ::
  "Stream \<Rightarrow> StreamID \<Rightarrow> StreamID \<Rightarrow> nat \<Rightarrow> (string \<times> StreamEntryData) list res" where
  "get_range st start end_id count =
     (if end_id < start then Inr []
      else range_loop end_id count (raxSeekGE (encode_id start) (tree st)) [])"

section \<open>Textual identifiers\<close>

lemma find_char_append: "c \<notin> set xs \<Longrightarrow> find_char c (xs @ c # ys) = Some (length xs)"
  by (induction xs) auto

lemma find_char_None: "find_char c xs = None \<longleftrightarrow> c \<notin> set xs"
  by (induction xs) auto

lemma dash_notin_to_string [simp]: "CHR ''-'' \<notin> set (to_string_nat n)"
  using to_string_nat_digits [of n] by (auto simp: list_all_iff)

lemma unat_less_2p64: "unat (w :: 64 word) < 2 ^ 64"
  using unsigned_less [of w, where 'a = nat] by simp

lemma unat_of_nat_u64: "n < 2 ^ 64 \<Longrightarrow> unat (of_nat n :: 64 word) = n"
  by (simp add: unsigned_of_nat take_bit_nat_eq_self)

lemma unat_less_u64_modulus [simp]: "unat (w :: 64 word) < u64_modulus"
  unfolding u64_modulus_def by (rule unat_less_2p64)

lemma StreamID_parse_to_string [text_simps]: "StreamID_parse (StreamID_to_string sid) = Some sid"
proof -
  let ?m = "to_string_nat (unat (milliseconds sid))"
  let ?s = "to_string_nat (unat (sequence sid))"
  have "find_char CHR ''-'' (?m @ CHR ''-'' # ?s) = Some (length ?m)"
    by (simp add: find_char_append)
  then show ?thesis
    by (simp add: StreamID_parse_def StreamID_to_string_def text_simps find_char_None Suc_le_eq)
qed

section \<open>Order of the keys\<close>

definition be_val :: "string \<Rightarrow> nat" where
  "be_val s = foldl (\<lambda>a c. 256 * a + of_char c) 0 s"

lemma be_val_acc: "foldl (\<lambda>a c. 256 * a + of_char c) x s = x * 256 ^ length s + be_val s"
  unfolding be_val_def
proof (induction s arbitrary: x)
  case (Cons c s)
  show ?case
    unfolding foldl_Cons Cons.IH [of "256 * x + of_char c"] Cons.IH [of "256 * 0 + of_char c"]
    by (simp add: algebra_simps)
qed simp

lemma be_val_Nil [simp]: "be_val [] = 0"
  by (simp add: be_val_def)

lemma be_val_Cons [simp]: "be_val (c # s) = of_char c * 256 ^ length s + be_val s"
  using be_val_acc [of "of_char c" s] by (simp add: be_val_def)

lemma be_val_append [simp]: "be_val (s @ t) = be_val s * 256 ^ length t + be_val t"
  by (induction s) (simp_all add: algebra_simps power_add)

lemma of_char_less: "of_char (c :: char) < (256 :: nat)"
  by (metis mod_less_divisor of_char_mod_256 zero_less_numeral)

lemma be_val_less: "be_val s < 256 ^ length s"
proof (induction s)
  case (Cons c s)
  have "of_char c * 256 ^ length s + be_val s < (of_char c + 1) * 256 ^ length s"
    using Cons.IH by simp
  also have "\<dots> \<le> 256 * 256 ^ length s"
    using of_char_less [of c] by (intro mult_right_mono) (simp_all add: Suc_le_eq)
  finally show ?case by simp
qed simp

lemma digit_compare:
  fixes a b x y m :: nat
  assumes "x < m" "y < m"
  shows "a * m + x < b * m + y \<longleftrightarrow> a < b \<or> (a = b \<and> x < y)"
proof -
  have lt: "a * m + x < b * m + y" if "a < b" "x < m" for a b x y
  proof -
    have "a * m + x < (a + 1) * m" using that by simp
    also have "\<dots> \<le> b * m" using that by (intro mult_right_mono) simp_all
    finally show ?thesis by simp
  qed
  show ?thesis
    using lt [of a b x y] lt [of b a y x] assms by (cases a b rule: linorder_cases) auto
qed

lemma lex_be_val: "length s = length t \<Longrightarrow> s < t \<longleftrightarrow> be_val s < be_val t"
proof (induction s t rule: list_induct2)
  case (Cons c s d t)
  then show ?case
    using digit_compare [of "be_val s" "256 ^ length s" "be_val t" "of_char c" "of_char d"]
      be_val_less [of s] be_val_less [of t]
    by (auto simp: less_char_def)
qed simp

lemma be_val_write_be: "be_val (write_be k w) = unat w mod 256 ^ k"
proof (induction k arbitrary: w)
  case (Suc k)
  have "w AND 0xFF = take_bit 8 w" by (simp add: take_bit_eq_mask mask_eq_exp_minus_1)
  then have "unat (w AND 0xFF) = take_bit 8 (unat w)"
    by (simp only: unsigned_take_bit_eq)
  then have "unat (w AND 0xFF) = unat w mod 256"
    by (simp add: take_bit_eq_mod)
  moreover have "unat (drop_bit 8 w) = unat w div 256"
    using unat_drop_bit_eq [of 8 w] by (simp add: drop_bit_eq_div)
  ultimately show ?case
    using Suc.IH [of "drop_bit 8 w"] mod_mult2_eq [of "unat w" 256 "256 ^ k"]
    by (simp add: mult.commute)
qed simp

lemma length_write_be [simp]: "length (write_be k w) = k"
  by (induction k arbitrary: w) simp_all

lemma length_write_u64_be [simp]: "length (write_u64_be w) = 8"
  by (simp add: write_u64_be_def)

lemma be_val_write_u64_be [simp]: "be_val (write_u64_be w) = unat w"
  using unat_less_2p64 [of w] by (simp add: write_u64_be_def be_val_write_be)

lemma length_encode_id [simp]: "length (encode_id sid) = kEncodedIDSize"
  by (simp add: encode_id_def kEncodedIDSize_def)

lemma be_val_encode_id:
  "be_val (encode_id sid) = unat (milliseconds sid) * 2 ^ 64 + unat (sequence sid)"
  by (simp add: encode_id_def)

lemma sid_val_less: "be_val (encode_id a) < be_val (encode_id b) \<longleftrightarrow> a < b"
proof -
  show ?thesis
    using digit_compare [of "unat (sequence a)" "2 ^ 64" "unat (sequence b)"
        "unat (milliseconds a)" "unat (milliseconds b)"]
      unat_less_2p64 [of "sequence a"] unat_less_2p64 [of "sequence b"]
    by (auto simp: be_val_encode_id less_StreamID_def StreamID_less_def word_less_nat_alt word_unat_eq_iff)
qed

lemma sid_val_le: "be_val (encode_id a) \<le> be_val (encode_id b) \<longleftrightarrow> a \<le> b"
  by (simp add: sid_val_less flip: not_less)

lemma encode_id_less: "encode_id a < encode_id b \<longleftrightarrow> a < b"
  by (simp add: lex_be_val sid_val_less)

lemma encode_id_inject [simp]: "encode_id a = encode_id b \<longleftrightarrow> a = b"
  by (metis encode_id_less linorder_neq_iff order_less_irrefl)

lemma encode_id_le: "encode_id a \<le> encode_id b \<longleftrightarrow> a \<le> b"
  by (simp add: encode_id_less flip: not_less)

lemma shift_in_byte:
  fixes v :: "64 word"
  assumes "unat v * 256 + of_char c < 2 ^ 64"
  shows "unat (push_bit 8 v OR of_char c) = unat v * 256 + of_char c"
proof -
  have "\<not> bit (of_char c :: nat) k" if "8 \<le> k" for k
  proof -
    have "(256 :: nat) = 2 ^ 8" by simp
    also have "(2 :: nat) ^ 8 \<le> 2 ^ k" using that by (intro power_increasing) simp_all
    finally have "of_char c < (2 :: nat) ^ k" using of_char_less [of c] by linarith
    then show ?thesis by (simp add: bit_iff_odd)
  qed
  then have "push_bit 8 v AND of_nat (of_char c) = 0"
    by (auto simp: bit_eq_iff bit_simps)
  then have "push_bit 8 v OR of_char c = push_bit 8 v + of_nat (of_char c)"
    by (simp add: disjunctive_add_eq_or of_nat_of_char)
  also have "\<dots> = of_nat (unat v * 256 + of_char c)"
    by (simp add: push_bit_eq_mult)
  also have "unat (of_nat (unat v * 256 + of_char c) :: 64 word) = unat v * 256 + of_char c"
    using assms by (rule unat_of_nat_u64)
  finally show ?thesis .
qed

lemma unat_read_be:
  fixes v :: "64 word"
  assumes "unat v * 256 ^ length s + be_val s < 2 ^ 64"
  shows "unat (foldl (\<lambda>value c. push_bit 8 value OR of_char c) v s) = unat v * 256 ^ length s + be_val s"
  using assms
proof (induction s arbitrary: v)
  case (Cons c s)
  have "unat v * 256 + of_char c \<le> (unat v * 256 + of_char c) * 256 ^ length s" by simp
  also have "\<dots> < 2 ^ 64" using Cons.prems by (simp add: algebra_simps)
  finally have step: "unat (push_bit 8 v OR of_char c) = unat v * 256 + of_char c"
    by (rule shift_in_byte)
  have "unat (push_bit 8 v OR of_char c) * 256 ^ length s + be_val s < 2 ^ 64"
    unfolding step using Cons.prems by (simp add: algebra_simps)
  from Cons.IH [OF this] show ?case by (simp add: step algebra_simps)
qed simp

lemma read_write_u64_be: "read_u64_be (write_u64_be w @ rest) = w"
proof -
  have "unat (read_u64_be (write_u64_be w @ rest)) = unat w"
    using unat_read_be [of 0 "write_u64_be w"] unat_less_2p64 [of w]
    by (simp add: read_u64_be_def)
  then show ?thesis by (rule unsigned_word_eqI)
qed

lemma decode_encode_id [text_simps]: "decode_id (encode_id sid) = Inr sid"
  using read_write_u64_be [of "milliseconds sid" "write_u64_be (sequence sid)"]
    read_write_u64_be [of "sequence sid" "[]"]
  by (simp add: decode_id_def) (simp add: encode_id_def)

section \<open>A stream is an increasing log\<close>

abbreviation enc_entry :: "StreamID \<times> StreamEntryData \<Rightarrow> string \<times> StreamEntryData" where
  "enc_entry p \<equiv> (encode_id (fst p), snd p)"

abbreviation show_entry :: "StreamID \<times> StreamEntryData \<Rightarrow> string \<times> StreamEntryData" where
  "show_entry p \<equiv> (StreamID_to_string (fst p), snd p)"

text \<open>The abstract value of a stream: its entries under their identifiers.\<close>

definition entries :: "Stream \<Rightarrow> (StreamID \<times> StreamEntryData) list" where
  "entries st =
     map (\<lambda>p. (case decode_id (fst p) of Inr sid \<Rightarrow> sid | Inl _ \<Rightarrow> StreamID 0 0, snd p)) (tree st)"

definition stream_ok :: "Stream \<Rightarrow> bool" where
  "stream_ok st \<longleftrightarrow>
     rax_ok (tree st) \<and> (\<forall>k \<in> fst ` set (tree st). k \<in> range encode_id)
     \<and> (has_max_id st \<longleftrightarrow> tree st \<noteq> [])
     \<and> (\<forall>p \<in> set (entries st). StreamID 0 0 < fst p \<and> fst p \<le> max_id st)
     \<and> (tree st \<noteq> [] \<longrightarrow> fst (last (entries st)) = max_id st)"

lemma stream_ok_new [simp]: "stream_ok new_Stream"
  by (simp add: stream_ok_def new_Stream_def entries_def raxNew_def rax_ok_def)

lemma entries_new [simp]: "entries new_Stream = []"
  by (simp add: new_Stream_def entries_def raxNew_def)

lemma tree_entries: "stream_ok st \<Longrightarrow> tree st = map enc_entry (entries st)"
  by (auto simp: stream_ok_def entries_def text_simps intro!: map_idI [symmetric])

lemma entries_increasing:
  assumes "stream_ok st"
  shows "sorted_wrt (<) (map fst (entries st))"
proof -
  from assms have "rax_ok (tree st)" by (simp add: stream_ok_def)
  then have "rax_ok (map enc_entry (entries st))" unfolding tree_entries [OF assms] .
  then show ?thesis by (simp add: rax_ok_def sorted_wrt_map encode_id_less)
qed

lemma entries_Nil_iff [simp]: "entries st = [] \<longleftrightarrow> tree st = []"
  by (simp add: entries_def)

lemma max_id_positive:
  assumes "stream_ok st" "has_max_id st"
  shows "StreamID 0 0 < max_id st"
proof -
  from assms have "entries st \<noteq> []" by (simp add: stream_ok_def)
  then have "last (entries st) \<in> set (entries st)" by (rule last_in_set)
  moreover have "\<forall>p \<in> set (entries st). StreamID 0 0 < fst p"
    using assms by (simp add: stream_ok_def)
  ultimately have "StreamID 0 0 < fst (last (entries st))" by blast
  moreover have "fst (last (entries st)) = max_id st" using assms by (simp add: stream_ok_def)
  ultimately show ?thesis by simp
qed

lemma last_id_entries:
  "stream_ok st \<Longrightarrow> last_id st = (if entries st = [] then None else Some (fst (last (entries st))))"
  by (auto simp: stream_ok_def last_id_def entries_def)

lemma less_StreamID_zero: "StreamID 0 0 < sid \<longleftrightarrow> sid \<noteq> StreamID 0 0"
  by (cases sid) (auto simp: less_StreamID_def StreamID_less_def word_neq_0_conv)

lemma unat_word_Suc: "(w :: 64 word) \<noteq> u64_max \<Longrightarrow> unat (w + 1) = Suc (unat w)"
  unfolding u64_max_def by (metis add.commute max_word_wrap unatSuc)

lemma word_Suc_greater: "(w :: 64 word) \<noteq> u64_max \<Longrightarrow> w < w + 1"
  by (simp add: word_less_nat_alt unat_word_Suc)

lemma next_sequence_greater:
  assumes "next_sequence st ms = (Ok, sid)" "has_max_id st \<longrightarrow> StreamID 0 0 < max_id st"
  shows "StreamID 0 0 < sid \<and> (has_max_id st \<longrightarrow> max_id st < sid)"
proof (cases "has_max_id st \<and> \<not> milliseconds (max_id st) < ms")
  case True
  with assms(1) have ne: "sequence (max_id st) \<noteq> u64_max"
    and sid: "sid = StreamID (milliseconds (max_id st)) (sequence (max_id st) + 1)"
    by (auto simp: next_sequence_def split: if_splits)
  have "max_id st < sid" using word_Suc_greater [OF ne] by (simp add: sid less_StreamID_def StreamID_less_def)
  with True assms(2) show ?thesis by auto
next
  case False
  with assms show ?thesis
    by (auto simp: next_sequence_def less_StreamID_def StreamID_less_def word_gt_0 split: if_splits)
qed

lemma resolve_id_greater:
  assumes "resolve_id now st idt = (Ok, sid)" "has_max_id st \<longrightarrow> StreamID 0 0 < max_id st"
  shows "StreamID 0 0 < sid \<and> (has_max_id st \<longrightarrow> max_id st < sid)"
  using assms next_sequence_greater [OF _ assms(2)]
  by (auto simp: resolve_id_def less_StreamID_zero split: if_splits option.splits)

lemma insert_entry_error:
  "insert_entry now st idt data = (r, st', sid) \<Longrightarrow> r \<noteq> Ok \<Longrightarrow> st' = st"
  by (auto simp: insert_entry_def split: prod.splits StreamAddResult.splits bool.splits)

text \<open>A successful \<open>insert\<close> appends one entry, under an identifier above all others.\<close>

lemma entries_snoc:
  "entries (st\<lparr>tree := tree st @ [(encode_id sid, data)], max_id := m, has_max_id := h\<rparr>)
     = entries st @ [(sid, data)]"
  by (simp add: entries_def text_simps)

lemma resolved_insert:
  assumes "stream_ok st" "resolve_id now st idt = (Ok, sid)"
  shows "raxTryInsert (encode_id sid) data (tree st) = (tree st @ [(encode_id sid, data)], True)"
    and "StreamID 0 0 < sid" and "\<forall>p \<in> set (entries st). fst p < sid"
    and "\<forall>k \<in> fst ` set (tree st). k < encode_id sid"
proof -
  have "has_max_id st \<longrightarrow> StreamID 0 0 < max_id st"
    using assms(1) by (blast intro: max_id_positive)
  then have gt: "StreamID 0 0 < sid" "has_max_id st \<longrightarrow> max_id st < sid"
    using resolve_id_greater [OF assms(2)] by auto
  show "StreamID 0 0 < sid" by (rule gt)
  show above: "\<forall>p \<in> set (entries st). fst p < sid"
  proof
    fix p assume p: "p \<in> set (entries st)"
    then have "has_max_id st" "fst p \<le> max_id st"
      using assms(1) by (auto simp: stream_ok_def entries_def)
    with gt(2) show "fst p < sid" by simp
  qed
  show keys: "\<forall>k \<in> fst ` set (tree st). k < encode_id sid"
    using above unfolding tree_entries [OF assms(1)] by (auto simp: encode_id_less)
  from keys have "snd (raxTryInsert (encode_id sid) data (tree st))"
    "fst (raxTryInsert (encode_id sid) data (tree st)) = tree st @ [(encode_id sid, data)]"
    using assms(1) rd.insert_greatest [of "tree st" "encode_id sid" data]
    by (simp_all add: stream_ok_def)
  then show "raxTryInsert (encode_id sid) data (tree st) = (tree st @ [(encode_id sid, data)], True)"
    by (simp add: prod_eq_iff)
qed

lemma insert_entry_eq:
  assumes "stream_ok st" "resolve_id now st idt = (r, sid)"
  shows "insert_entry now st idt data =
     (if r = Ok then (Ok, st\<lparr>tree := tree st @ [(encode_id sid, data)], max_id := sid, has_max_id := True\<rparr>, sid)
      else (r, st, StreamID 0 0))"
  using assms resolved_insert(1) [OF assms(1)]
  by (cases r) (simp_all add: insert_entry_def)

lemma insert_entry_ok:
  assumes "stream_ok st" "insert_entry now st idt data = (r, st', sid)"
  shows "stream_ok st'"
proof (cases "fst (resolve_id now st idt) = Ok")
  case True
  then obtain i where res: "resolve_id now st idt = (Ok, i)" by (cases "resolve_id now st idt") auto
  note ins = resolved_insert [OF assms(1) res]
  have st': "st' = st\<lparr>tree := tree st @ [(encode_id i, data)], max_id := i, has_max_id := True\<rparr>"
    using assms(2) insert_entry_eq [OF assms(1) res, of data] by auto
  have "sorted_wrt (<) (map fst (tree st @ [(encode_id i, data)]))"
    using assms(1) ins(4) by (simp add: stream_ok_def rax_ok_def sorted_wrt_append)
  moreover have "\<forall>p \<in> set (entries st'). StreamID 0 0 < fst p \<and> fst p \<le> i"
    using ins assms(1) unfolding st' entries_snoc by (auto simp: stream_ok_def less_imp_le)
  ultimately show ?thesis
    using assms(1) unfolding stream_ok_def
    by (auto simp: st' entries_snoc rax_ok_def)
next
  case False
  then show ?thesis
    using assms insert_entry_eq [OF assms(1), of now idt] by (cases "resolve_id now st idt") auto
qed

section \<open>Range reads\<close>

definition limit :: "nat \<Rightarrow> 'a list \<Rightarrow> 'a list" where
  "limit count xs = (if count = 0 then xs else take count xs)"

lemma range_loop_entries:
  assumes "count = 0 \<or> length acc < count"
  shows "range_loop end_id count (map enc_entry es) acc
     = Inr (acc @ map show_entry
         (let sel = takeWhile (\<lambda>p. fst p \<le> end_id) es
          in if count = 0 then sel else take (count - length acc) sel))"
  using assms
proof (induction es arbitrary: acc)
  case Nil
  then show ?case by simp
next
  case (Cons e es)
  let ?acc = "acc @ [show_entry e]"
  consider (stop) "end_id < fst e" | (full) "fst e \<le> end_id" "count = Suc (length acc)"
    | (go) "fst e \<le> end_id" "count = 0 \<or> length ?acc < count"
    using Cons.prems by fastforce
  then show ?case
  proof cases
    case go
    then have "Suc (count - Suc (length acc)) = count - length acc" if "count \<noteq> 0"
      using that by simp
    with go Cons.IH [OF go(2)] show ?thesis
      by (auto simp: text_simps Let_def not_less take_Cons' Suc_diff_le)
  next
    case stop
    then show ?thesis by (auto simp: text_simps Let_def)
  next
    case full
    then show ?thesis by (simp add: text_simps Let_def not_less)
  qed
qed

text \<open>\<open>get_range\<close> returns the first \<open>count\<close> entries between the bounds, in order.\<close>

lemma get_range_window:
  assumes "stream_ok st"
  shows "get_range st start end_id count
     = Inr (map show_entry (limit count (filter (\<lambda>p. start \<le> fst p \<and> fst p \<le> end_id) (entries st))))"
proof -
  have inc: "sorted_wrt (<) (map fst (entries st))" by (rule entries_increasing [OF assms])
  have "rax_ok (tree st)" using assms by (simp add: stream_ok_def)
  then have "raxSeekGE (encode_id start) (tree st) = filter (\<lambda>p. encode_id start \<le> fst p) (tree st)"
    by (rule rd.iter_contents)
  also have "\<dots> = map enc_entry (filter (\<lambda>p. start \<le> fst p) (entries st))"
    unfolding tree_entries [OF assms] by (simp add: filter_map comp_def encode_id_le)
  finally have seek: "raxSeekGE (encode_id start) (tree st)
      = map enc_entry (filter (\<lambda>p. start \<le> fst p) (entries st))" .
  have "takeWhile (\<lambda>p. fst p \<le> end_id) (filter (\<lambda>p. start \<le> fst p) (entries st))
      = filter (\<lambda>p. start \<le> fst p \<and> fst p \<le> end_id) (entries st)"
    using inc
    by (subst increasing_takeWhile_filter) (simp_all add: sorted_wrt_map sorted_wrt_filter conj_commute)
  moreover have "filter (\<lambda>p. start \<le> fst p \<and> fst p \<le> end_id) (entries st) = []"
    if "end_id < start"
    using that by (auto simp: filter_empty_conv)
  ultimately show ?thesis
    by (simp add: get_range_def seek range_loop_entries limit_def)
qed

text \<open>\<open>advance_id\<close> is the successor in the order of identifiers.\<close>

lemma advance_id_val: "advance_id a = Some a' \<Longrightarrow> be_val (encode_id a') = Suc (be_val (encode_id a))"
  by (auto simp: advance_id_def be_val_encode_id unat_word_Suc u64_max_def unsigned_minus_1_eq_mask
      mask_eq_exp_minus_1 split: if_splits)

lemma advance_id_Some: "advance_id a = Some a' \<Longrightarrow> a' \<le> b \<longleftrightarrow> a < b"
  unfolding sid_val_le [symmetric] sid_val_less [symmetric] by (simp add: advance_id_val Suc_le_eq)

lemma advance_id_None:
  assumes "advance_id a = None"
  shows "\<not> a < b"
proof -
  have "sequence b \<le> u64_max" "milliseconds b \<le> u64_max"
    unfolding u64_max_def by (rule max_word_max)+
  then show ?thesis
    using assms by (auto simp: advance_id_def less_StreamID_def StreamID_less_def split: if_splits)
qed

section \<open>Explicit identifiers and lookups\<close>

lemma resolve_id_explicit:
  assumes "stream_ok st"
  shows "fst (resolve_id now st (StreamID_to_string sid)) =
     (if sid = StreamID 0 0 then ZeroID
      else if entries st \<noteq> [] \<and> sid \<le> fst (last (entries st)) then NotGreater else Ok)"
proof -
  let ?m = "to_string_nat (unat (milliseconds sid))"
  let ?s = "to_string_nat (unat (sequence sid))"
  have dash: "find_char CHR ''-'' (StreamID_to_string sid) = Some (length ?m)"
    by (simp add: StreamID_to_string_def find_char_append)
  have "?s \<noteq> ''*''"
    using hd_to_string_nat [of "unat (sequence sid)"] by (auto simp: is_digit_def)
  then have star: "drop (length ?m + 1) (StreamID_to_string sid) \<noteq> ''*''"
      "StreamID_to_string sid \<noteq> ''*''"
    by (auto simp: StreamID_to_string_def append_eq_Cons_conv)
  have last: "has_max_id st \<longleftrightarrow> entries st \<noteq> []" "entries st \<noteq> [] \<longrightarrow> fst (last (entries st)) = max_id st"
    using assms by (simp_all add: stream_ok_def)
  show ?thesis
    using dash star last
    by (cases sid) (auto simp: resolve_id_def text_simps not_less)
qed

lemma map_of_snoc_fresh:
  "\<forall>p \<in> set xs. fst p < k \<Longrightarrow> map_of (xs @ [(k :: 'a :: linorder, v)]) k = Some v"
  by (induction xs) auto

lemma find_entry_inserted:
  assumes "stream_ok st" "resolve_id now st idt = (Ok, sid)"
  shows "find_entry (fst (snd (insert_entry now st idt data))) (StreamID_to_string sid) = Some data"
proof -
  have "map_of (tree st @ [(encode_id sid, data)]) (encode_id sid) = Some data"
    using resolved_insert(4) [OF assms] by (intro map_of_snoc_fresh) auto
  then show ?thesis
    using insert_entry_eq [OF assms] by (simp add: find_entry_def text_simps raxFind_def)
qed

section \<open>Properties\<close>

text \<open>Stream identifiers survive both of their encodings: the text form parses back
  to the identifier and the 16-byte radix-tree key decodes to it.\<close>

lemma stream_id_roundtrips:
  "StreamID_parse (StreamID_to_string sid) = Some sid
   \<and> length (encode_id sid) = kEncodedIDSize \<and> decode_id (encode_id sid) = Inr sid"
  by (simp add: text_simps)

text \<open>The bytewise order of the encoded keys, in which the radix tree iterates, is the
  numerical order of stream identifiers (\<open>operator<\<close>).\<close>

lemma stream_key_order: "encode_id a < encode_id b \<longleftrightarrow> a < b"
  by (rule encode_id_less)

text \<open>\<open>Stream::insert\<close> refines appending to a log. On a well-formed stream, success
  assigns an identifier above 0-0 and above every stored one and appends exactly the new
  entry; any other status leaves the stream untouched; well-formedness is kept.\<close>

lemma stream_insert_appends:
  assumes "stream_ok st"
  shows "case insert_entry now st id_text data of
      (r, st', sid) \<Rightarrow> stream_ok st'
        \<and> (if r = Ok then entries st' = entries st @ [(sid, data)] \<and> StreamID 0 0 < sid
             \<and> (\<forall>p \<in> set (entries st). fst p < sid)
           else st' = st)"
proof (cases "insert_entry now st id_text data")
  case (fields r st' sid)
  have ok: "stream_ok st'" by (rule insert_entry_ok [OF assms fields])
  obtain r' i where res: "resolve_id now st id_text = (r', i)" by fastforce
  note eq = insert_entry_eq [OF assms res, of data]
  show ?thesis
  proof (cases "r' = Ok")
    case True
    with res have "resolve_id now st id_text = (Ok, i)" by simp
    note ins = resolved_insert [OF assms this]
    from True eq fields ok ins show ?thesis by (auto simp: entries_snoc)
  next
    case False
    with eq fields ok show ?thesis by auto
  qed
qed

definition sample_stream :: Stream where
  "sample_stream = fst (snd (insert_entry 0
     (fst (snd (insert_entry 0 new_Stream ''5-1'' [(''a'', ''x'')]))) ''7-*'' [(''b'', ''y'')]))"

lemma sample_stream_ok: "stream_ok sample_stream"
  unfolding sample_stream_def by (metis insert_entry_ok prod.collapse stream_ok_new)

text \<open>An entry just added is found under the identifier the call returned.\<close>

lemma stream_insert_then_find:
  assumes "stream_ok st" and "insert_entry now st id_text data = (Ok, st', sid)"
  shows "find_entry st' (StreamID_to_string sid) = Some data"
proof -
  obtain r i where res: "resolve_id now st id_text = (r, i)" by fastforce
  with assms insert_entry_eq [OF assms(1) res, of data] have "r = Ok" "i = sid"
    by (auto split: if_splits)
  with res find_entry_inserted [OF assms(1), of now id_text sid data] assms(2) show ?thesis by simp
qed

text \<open>\<open>Stream::get_range\<close> returns, for any bounds and limit, the entries between the
  bounds in increasing order, cut to the first \<open>count\<close> when \<open>count\<close> is not zero, and never
  throws on a well-formed stream.\<close>

lemma stream_range_is_window:
  assumes "stream_ok st"
  shows "get_range st start end_id count = Inr (map (\<lambda>p. (StreamID_to_string (fst p), snd p))
     (limit count (filter (\<lambda>p. start \<le> fst p \<and> fst p \<le> end_id) (entries st))))"
  using assms by (rule get_range_window)

text \<open>An explicit identifier is classified exactly: 0-0 is refused as zero, one at or
  below the last entry as not greater, every other is accepted.\<close>

lemma stream_explicit_id_classified:
  assumes "stream_ok st"
  shows "fst (insert_entry now st (StreamID_to_string sid) data) =
     (if sid = StreamID 0 0 then ZeroID
      else if entries st \<noteq> [] \<and> sid \<le> fst (last (entries st)) then NotGreater else Ok)"
proof -
  obtain r i where res: "resolve_id now st (StreamID_to_string sid) = (r, i)" by fastforce
  show ?thesis
    using resolve_id_explicit [OF assms, of now sid] insert_entry_eq [OF assms res, of data] res
    by (cases r) auto
qed

end
