(* ===== verification/Double.thy ===== *)
theory Double
  imports Complex_Main "HOL-Library.Product_Lexorder" Prelude
begin

text \<open>
  Values of type \<open>double\<close> by their numerical value: a finite number is the rational it
  denotes (both zeros denote 0), beside the infinities and NaN. The comparisons are those
  of IEEE 754: every comparison with NaN is false. The linear order of the type agrees
  with them away from NaN, so the library's sorted lists apply to
  \<open>std::set<std::pair<double, std::string>>\<close>, which never holds NaN.
\<close>

datatype double = NInf | Fin rat | PInf | NaN

fun dbl_rank :: "double \<Rightarrow> nat" where
  "dbl_rank NInf = 0"
| "dbl_rank (Fin _) = 1"
| "dbl_rank PInf = 2"
| "dbl_rank NaN = 3"

fun fin_val :: "double \<Rightarrow> rat" where
  "fin_val (Fin q) = q"
| "fin_val _ = 0"

instantiation double :: linorder
begin

definition less_double :: "double \<Rightarrow> double \<Rightarrow> bool" where
  "less_double a b \<longleftrightarrow> dbl_rank a < dbl_rank b \<or> (dbl_rank a = dbl_rank b \<and> fin_val a < fin_val b)"

definition less_eq_double :: "double \<Rightarrow> double \<Rightarrow> bool" where
  "less_eq_double a b \<longleftrightarrow> dbl_rank a < dbl_rank b \<or> (dbl_rank a = dbl_rank b \<and> fin_val a \<le> fin_val b)"

instance
proof
  fix a b c :: double
  show "a < b \<longleftrightarrow> a \<le> b \<and> \<not> b \<le> a" by (auto simp: less_double_def less_eq_double_def)
  show "a \<le> a" by (simp add: less_eq_double_def)
  show "a \<le> b \<Longrightarrow> b \<le> c \<Longrightarrow> a \<le> c" by (auto simp: less_eq_double_def)
  show "a \<le> b \<Longrightarrow> b \<le> a \<Longrightarrow> a = b" by (cases a; cases b) (auto simp: less_eq_double_def)
  show "a \<le> b \<or> b \<le> a" by (auto simp: less_eq_double_def)
qed

end

definition isnan :: "double \<Rightarrow> bool" where
  "isnan d \<longleftrightarrow> d = NaN"

definition isinf :: "double \<Rightarrow> bool" where
  "isinf d \<longleftrightarrow> d = PInf \<or> d = NInf"

definition isfinite :: "double \<Rightarrow> bool" where
  "isfinite d \<longleftrightarrow> \<not> isnan d \<and> \<not> isinf d"

definition dbl_less :: "double \<Rightarrow> double \<Rightarrow> bool" where
  "dbl_less a b \<longleftrightarrow> \<not> isnan a \<and> \<not> isnan b \<and> a < b"

definition dbl_eq :: "double \<Rightarrow> double \<Rightarrow> bool" where
  "dbl_eq a b \<longleftrightarrow> \<not> isnan a \<and> \<not> isnan b \<and> a = b"

lemma dbl_less_iff [simp]: "a \<noteq> NaN \<Longrightarrow> b \<noteq> NaN \<Longrightarrow> dbl_less a b \<longleftrightarrow> a < b"
  by (simp add: dbl_less_def isnan_def)

lemma dbl_eq_iff [simp]: "a \<noteq> NaN \<Longrightarrow> b \<noteq> NaN \<Longrightarrow> dbl_eq a b \<longleftrightarrow> a = b"
  by (simp add: dbl_eq_def isnan_def)

lemma Fin_less [simp]: "Fin a < Fin b \<longleftrightarrow> a < b" "Fin a \<le> Fin b \<longleftrightarrow> a \<le> b"
  by (simp_all add: less_double_def less_eq_double_def)

section \<open>Arithmetic\<close>

text \<open>
  The operations of IEEE 754 for a rounding function \<open>rnd\<close>: an operation on finite numbers
  is the exact result rounded. The sign of a zero divisor is not represented; the code only
  divides by numbers other than 0.
\<close>

fun dbl_neg :: "double \<Rightarrow> double" where
  "dbl_neg (Fin a) = Fin (- a)"
| "dbl_neg NInf = PInf"
| "dbl_neg PInf = NInf"
| "dbl_neg NaN = NaN"

fun dbl_add :: "(rat \<Rightarrow> double) \<Rightarrow> double \<Rightarrow> double \<Rightarrow> double" where
  "dbl_add rnd (Fin a) (Fin b) = rnd (a + b)"
| "dbl_add rnd NaN b = NaN"
| "dbl_add rnd a NaN = NaN"
| "dbl_add rnd PInf NInf = NaN"
| "dbl_add rnd NInf PInf = NaN"
| "dbl_add rnd PInf b = PInf"
| "dbl_add rnd NInf b = NInf"
| "dbl_add rnd a b = b"

definition dbl_sub :: "(rat \<Rightarrow> double) \<Rightarrow> double \<Rightarrow> double \<Rightarrow> double" where
  "dbl_sub rnd a b = dbl_add rnd a (dbl_neg b)"

text \<open>The sign of a number that is not NaN, and the infinity of a sign.\<close>

definition dbl_sign :: "double \<Rightarrow> int" where
  "dbl_sign a = (if a < Fin 0 then - 1 else if a = Fin 0 then 0 else 1)"

definition dbl_inf :: "int \<Rightarrow> double" where
  "dbl_inf sign = (if sign < 0 then NInf else if sign = 0 then NaN else PInf)"

definition dbl_mul :: "(rat \<Rightarrow> double) \<Rightarrow> double \<Rightarrow> double \<Rightarrow> double" where
  "dbl_mul rnd a b =
     (if isnan a \<or> isnan b then NaN
      else if isinf a \<or> isinf b then dbl_inf (dbl_sign a * dbl_sign b)
      else rnd (fin_val a * fin_val b))"

definition dbl_div :: "(rat \<Rightarrow> double) \<Rightarrow> double \<Rightarrow> double \<Rightarrow> double" where
  "dbl_div rnd a b =
     (if isnan a \<or> isnan b \<or> (isinf a \<and> isinf b) then NaN
      else if isinf b then Fin 0
      else if isinf a then dbl_inf (dbl_sign a * (if dbl_sign b < 0 then - 1 else 1))
      else if b = Fin 0 then dbl_inf (dbl_sign a)
      else rnd (fin_val a / fin_val b))"

definition dbl_clamp :: "double \<Rightarrow> double \<Rightarrow> double \<Rightarrow> double" where
  "dbl_clamp a lo hi = (if dbl_less a lo then lo else if dbl_less hi a then hi else a)"

text \<open>Truncation of a non-negative finite number to an unsigned integer.\<close>

definition dbl_trunc :: "double \<Rightarrow> nat" where
  "dbl_trunc a = nat \<lfloor>fin_val a\<rfloor>"

end
