(* ===== verification/Config.thy ===== *)
theory Config
  imports Cpp_Text
begin

text \<open>
  \<open>src/src/config\<close>: the settings and the command line that fills them. The working
  directory, the default of \<open>--dir\<close>, is an argument.
\<close>

record Config =
  cfg_port :: int
  cfg_is_replica :: bool
  cfg_master_host :: string
  cfg_master_port :: int
  cfg_dir :: string
  cfg_dbfilename :: string
  cfg_appendonly :: string
  cfg_appenddirname :: string
  cfg_appendfilename :: string
  cfg_appendfsync :: string

definition default_config :: "string \<Rightarrow> Config" where
  "default_config cwd = \<lparr>cfg_port = 6379, cfg_is_replica = False, cfg_master_host = [],
     cfg_master_port = 0, cfg_dir = cwd, cfg_dbfilename = [], cfg_appendonly = ''no'',
     cfg_appenddirname = ''appendonlydir'', cfg_appendfilename = ''appendonly.aof'',
     cfg_appendfsync = ''everysec''\<rparr>"

text \<open>\<open>std::atoi\<close>: \<open>strtol\<close>, which saturates, truncated to an \<open>int\<close>.\<close>

definition atoi :: "string \<Rightarrow> int" where
  "atoi s = (case strto_parts s of
      None \<Rightarrow> 0
    | Some p \<Rightarrow> wrap_s32 (max (- (2 ^ 63)) (min (2 ^ 63 - 1) (strto_value p))))"

fun split_at_space :: "string \<Rightarrow> (string \<times> string) option" where
  "split_at_space [] = None"
| "split_at_space (c # s) =
     (if c = CHR '' '' then Some ([], s)
      else map_option (\<lambda>(a, b). (c # a, b)) (split_at_space s))"

text \<open>The argument loop; the list is what is left of \<open>argv\<close> from index \<open>i\<close>.\<close>

fun parse_args_loop :: "Config \<Rightarrow> string list \<Rightarrow> Config" where
  "parse_args_loop config [] = config"
| "parse_args_loop config [_] = config"
| "parse_args_loop config (a # v # rest) =
     (if a = ''--port'' then parse_args_loop (config\<lparr>cfg_port := atoi v\<rparr>) rest
      else if a = ''--dir'' then parse_args_loop (config\<lparr>cfg_dir := v\<rparr>) rest
      else if a = ''--dbfilename'' then parse_args_loop (config\<lparr>cfg_dbfilename := v\<rparr>) rest
      else if a = ''--replicaof'' then
        (let config = config\<lparr>cfg_is_replica := True\<rparr>
         in case split_at_space v of
              Some (host, port) \<Rightarrow>
                parse_args_loop (config\<lparr>cfg_master_host := host, cfg_master_port := atoi port\<rparr>) rest
            | None \<Rightarrow>
                (case rest of
                   p # rest' \<Rightarrow>
                     parse_args_loop (config\<lparr>cfg_master_host := v, cfg_master_port := atoi p\<rparr>) rest'
                 | [] \<Rightarrow> config\<lparr>cfg_master_host := v\<rparr>))
      else if a = ''--appendonly'' then parse_args_loop (config\<lparr>cfg_appendonly := v\<rparr>) rest
      else if a = ''--appenddirname'' then parse_args_loop (config\<lparr>cfg_appenddirname := v\<rparr>) rest
      else if a = ''--appendfilename'' then parse_args_loop (config\<lparr>cfg_appendfilename := v\<rparr>) rest
      else if a = ''--appendfsync'' then parse_args_loop (config\<lparr>cfg_appendfsync := v\<rparr>) rest
      else parse_args_loop config (v # rest))"

definition parse_args :: "string \<Rightarrow> string list \<Rightarrow> Config" where
  "parse_args cwd argv = parse_args_loop (default_config cwd) (drop 1 argv)"

text \<open>The primary can be given as two arguments or as one with a space.\<close>

lemma split_at_space_none: "CHR '' '' \<notin> set s \<Longrightarrow> split_at_space s = None"
  by (induction s) auto

lemma split_at_space_append: "CHR '' '' \<notin> set s \<Longrightarrow> split_at_space (s @ '' '' @ t) = Some (s, t)"
  by (induction s) auto

lemma replicaof_forms:
  assumes "CHR '' '' \<notin> set host"
  shows "parse_args_loop config (''--replicaof'' # (host @ '' '' @ port) # rest)
     = parse_args_loop config (''--replicaof'' # host # port # rest)"
  using split_at_space_append [OF assms, of port] split_at_space_none [OF assms] by simp

text \<open>An option that is not known is skipped, and so is a last option without a value.\<close>

lemma unknown_skipped:
  assumes "a \<notin> {''--port'', ''--dir'', ''--dbfilename'', ''--replicaof'', ''--appendonly'', ''--appenddirname'',
      ''--appendfilename'', ''--appendfsync''}"
  shows "parse_args_loop config (a # rest) = parse_args_loop config rest"
  using assms by (cases rest) auto

end
