(* ===== verification/Store_State.thy ===== *)
theory Store_State
  imports Resp Stream_Data Double Config
begin

text \<open>
  The state of \<open>class Store\<close> (\<open>src/src/store/store.hpp\<close>), the environment its handlers
  run in, and the operations of \<open>src/src/store/store.cpp\<close> that every command family uses:
  lazy expiry, the type of a key, \<open>peek\<close>, \<open>KEYS\<close>, \<open>TYPE\<close> and the loading of RDB
  entries. Well-formedness of the state (\<open>store_wf\<close>) is what every handler keeps.
\<close>

section \<open>What the handlers take from outside\<close>

text \<open>
  The two clocks (nanoseconds; read once per command), POSIX \<open>fnmatch\<close> on C strings,
  the SHA-256 digest of OpenSSL (\<open>None\<close> when \<open>EVP_Digest\<close> reports failure), and the
  conversions between text and \<open>double\<close>: \<open>stod\<close> with the number of characters read,
  rounding of an exact result to \<open>double\<close>, shortest printing and printing with four
  decimals by \<open>to_chars\<close> (\<open>None\<close> when it reports an error), \<open>std::to_string\<close> of a
  \<open>double\<close>, and the functions of \<open>cmath\<close>.
\<close>

record env =
  steady_now :: int
  system_now :: int
  fnmatch :: "string \<Rightarrow> string \<Rightarrow> bool"
  sha256 :: "string \<Rightarrow> string option"
  stod :: "string \<Rightarrow> (double \<times> nat) option"
  round_double :: "rat \<Rightarrow> double"
  to_chars :: "double \<Rightarrow> string option"
  to_chars_fixed4 :: "double \<Rightarrow> string option"
  to_string_double :: "double \<Rightarrow> string"
  math_sin :: "double \<Rightarrow> double"
  math_cos :: "double \<Rightarrow> double"
  math_asin :: "double \<Rightarrow> double"
  math_sqrt :: "double \<Rightarrow> double"

section \<open>The store\<close>

datatype BlockKind = BlockList | BlockStream | BlockWait

record BlockRequest =
  br_kind :: BlockKind
  br_keys :: "string list"
  br_ids :: "StreamID list"
  br_count :: nat
  br_timeout :: double

record SortedSet =
  scores :: "(string, double) hmap"
  ordered :: "(double \<times> string) oset"

record store =
  Storage :: "(string, string) hmap"
  Expirations :: "(string, int) hmap"
  DynamicVector :: "(string, string list) hmap"
  pending_block :: "BlockRequest option"
  pending_propagations :: "string list list"
  Streams :: "(string, Stream) hmap"
  sorted_sets :: "(string, SortedSet) hmap"
  subscribers :: "(string, int oset) hmap"
  pending_messages :: "(int \<times> string) list"
  default_user_enabled :: bool
  default_user_nopass :: bool
  default_user_passwords :: "string list"
  is_replica :: bool
  master_host :: string
  master_port :: int
  master_replid :: string
  master_repl_offset :: int
  dir :: string
  dbfilename :: string
  appendonly :: string
  appenddirname :: string
  appendfilename :: string
  appendfsync :: string

definition new_store :: store where
  "new_store = \<lparr>Storage = [], Expirations = [], DynamicVector = [], pending_block = None,
     pending_propagations = [], Streams = [], sorted_sets = [], subscribers = [],
     pending_messages = [], default_user_enabled = True, default_user_nopass = True,
     default_user_passwords = [], is_replica = False, master_host = [], master_port = 0,
     master_replid = [], master_repl_offset = 0, dir = [], dbfilename = [], appendonly = [],
     appenddirname = [], appendfilename = [], appendfsync = []\<rparr>"

definition default_user_auto_auth :: "store \<Rightarrow> bool" where
  "default_user_auto_auth s = (default_user_enabled s \<and> default_user_nopass s)"

definition bump_repl_offset :: "int \<Rightarrow> store \<Rightarrow> store" where
  "bump_repl_offset n s = s\<lparr>master_repl_offset := wrap_s64 (master_repl_offset s + n)\<rparr>"

definition set_repl_offset :: "int \<Rightarrow> store \<Rightarrow> store" where
  "set_repl_offset value s = s\<lparr>master_repl_offset := value\<rparr>"

definition queue_propagation :: "string list \<Rightarrow> store \<Rightarrow> store" where
  "queue_propagation args s = s\<lparr>pending_propagations := pending_propagations s @ [args]\<rparr>"

definition take_pending_propagations :: "store \<Rightarrow> string list list \<times> store" where
  "take_pending_propagations s = (pending_propagations s, s\<lparr>pending_propagations := []\<rparr>)"

definition take_pending_messages :: "store \<Rightarrow> (int \<times> string) list \<times> store" where
  "take_pending_messages s = (pending_messages s, s\<lparr>pending_messages := []\<rparr>)"

definition take_pending_block :: "store \<Rightarrow> BlockRequest option \<times> store" where
  "take_pending_block s = (pending_block s, s\<lparr>pending_block := None\<rparr>)"

section \<open>Replies shared by the handlers\<close>

declare to_bytes.simps [simp del]

definition simple_error :: "string \<Rightarrow> string" where
  "simple_error message = to_bytes (SimpleError message)"

definition arity_error :: "string \<Rightarrow> string" where
  "arity_error command = simple_error
     (''ERR wrong number of arguments for '' @ [CHR 0x27] @ command @ [CHR 0x27] @ '' command'')"

definition wrong_type :: string where
  "wrong_type = simple_error ''WRONGTYPE Operation against a key holding the wrong kind of value''"

definition not_integer_error :: string where
  "not_integer_error = simple_error ''ERR value is not an integer or out of range''"

definition ok_reply :: string where
  "ok_reply = to_bytes (SimpleString ''OK'')"

section \<open>Expiry, types, lookups\<close>

definition is_expired :: "env \<Rightarrow> store \<Rightarrow> string \<Rightarrow> store \<times> bool" where
  "is_expired env s key =
     (case hget (Expirations s) key of
        None \<Rightarrow> (s, False)
      | Some deadline \<Rightarrow>
          if deadline \<le> steady_now env
          then (s\<lparr>Expirations := herase key (Expirations s), Storage := herase key (Storage s)\<rparr>, True)
          else (s, False))"

definition key_type :: "env \<Rightarrow> store \<Rightarrow> string \<Rightarrow> store \<times> string" where
  "key_type env s key =
     (case is_expired env s key of
        (s, True) \<Rightarrow> (s, ''none'')
      | (s, False) \<Rightarrow>
          (s, if hcontains (Storage s) key then ''string''
              else if hcontains (DynamicVector s) key then ''list''
              else if hcontains (Streams s) key then ''stream''
              else if hcontains (sorted_sets s) key then ''zset'' else ''none''))"

definition wrong_sorted_set_type :: "env \<Rightarrow> store \<Rightarrow> string \<Rightarrow> store \<times> bool" where
  "wrong_sorted_set_type env s key =
     (case key_type env s key of (s, type) \<Rightarrow> (s, type \<noteq> ''none'' \<and> type \<noteq> ''zset''))"

definition wrong_string_type :: "env \<Rightarrow> store \<Rightarrow> string \<Rightarrow> store \<times> bool" where
  "wrong_string_type env s key =
     (case key_type env s key of (s, type) \<Rightarrow> (s, type \<noteq> ''none'' \<and> type \<noteq> ''string''))"

definition peek :: "env \<Rightarrow> store \<Rightarrow> string \<Rightarrow> store \<times> string option" where
  "peek env s key =
     (case is_expired env s key of
        (s, True) \<Rightarrow> (s, None)
      | (s, False) \<Rightarrow> (s, hget (Storage s) key))"

definition handle_type :: "env \<Rightarrow> store \<Rightarrow> args \<Rightarrow> store \<times> string" where
  "handle_type env s args =
     (if length args \<noteq> 2 then (s, arity_error ''type'')
      else case key_type env s (args ! 1) of (s, type) \<Rightarrow> (s, to_bytes (SimpleString type)))"

definition c_str :: "string \<Rightarrow> string" where
  "c_str s = takeWhile (\<lambda>c. c \<noteq> CHR 0x00) s"

fun match_keys :: "env \<Rightarrow> string \<Rightarrow> store \<Rightarrow> string list \<Rightarrow> store \<times> string list" where
  "match_keys env pattern s [] = (s, [])"
| "match_keys env pattern s (key # candidates) =
     (case is_expired env s key of
        (s, True) \<Rightarrow> match_keys env pattern s candidates
      | (s, False) \<Rightarrow>
          (case match_keys env pattern s candidates of
             (s, matched) \<Rightarrow>
               (s, if fnmatch env (c_str pattern) (c_str key) then key # matched else matched)))"

text \<open>
  \<open>std::map\<close> iterates in key order; the hash maps in an unspecified one, here the order
  of insertion.
\<close>

definition key_candidates :: "store \<Rightarrow> string list" where
  "key_candidates s =
     sort (hkeys (Storage s)) @ hkeys (DynamicVector s) @ hkeys (Streams s) @ hkeys (sorted_sets s)"

definition handle_keys :: "env \<Rightarrow> store \<Rightarrow> args \<Rightarrow> store \<times> string" where
  "handle_keys env s args =
     (if length args \<noteq> 2 then (s, arity_error ''keys'')
      else case match_keys env (args ! 1) s (key_candidates s) of
        (s, matched) \<Rightarrow> (s, to_bytes (Array matched)))"

section \<open>Start-up\<close>

record RdbEntry =
  re_key :: string
  re_value :: string
  re_expire_at_ms :: "64 word option"

text \<open>
  \<open>std::chrono::milliseconds\<close> holds a signed 64-bit count, and \<open>system_clock\<close> counts
  nanoseconds: an absolute deadline is reduced to both ranges before it is compared.
\<close>

definition expire_at_ns :: "64 word \<Rightarrow> int" where
  "expire_at_ns ms = wrap_s64 (sint ms * 1000000)"

fun load_entries :: "env \<Rightarrow> RdbEntry list \<Rightarrow> store \<Rightarrow> store" where
  "load_entries env [] s = s"
| "load_entries env (entry # es) s =
     load_entries env es
       (case re_expire_at_ms entry of
          None \<Rightarrow> s\<lparr>Storage := hput (re_key entry) (re_value entry) (Storage s)\<rparr>
        | Some ms \<Rightarrow>
            if expire_at_ns ms \<le> system_now env then s
            else s\<lparr>Expirations := hput (re_key entry)
                       (wrap_s64 (steady_now env + (expire_at_ns ms - system_now env))) (Expirations s),
                   Storage := hput (re_key entry) (re_value entry) (Storage s)\<rparr>)"

end
