(* ===== verification/Keyspace.thy ===== *)
theory Keyspace
  imports Store_State
begin

text \<open>
  Invariants of the store and the abstract key space it represents. \<open>store_wf\<close> is the
  well-formedness every handler keeps; \<open>typed_ok\<close> says that a key lives in one container
  only; \<open>view\<close> is the specification state: at an instant, the value each key has for a
  client. The contracts \<open>wf_handler\<close> and \<open>reading_handler\<close> are the interfaces the command
  handlers are proved against.
\<close>

section \<open>Well-formed stores\<close>

definition zset_ok :: "SortedSet \<Rightarrow> bool" where
  "zset_ok z \<longleftrightarrow> hmap_ok (scores z) \<and> oset_ok (ordered z)
     \<and> (\<forall>d m. (d, m) \<in> set (ordered z) \<longleftrightarrow> hget (scores z) m = Some d)
     \<and> (\<forall>d m. (d, m) \<in> set (ordered z) \<longrightarrow> d \<noteq> NaN)"

definition maps_ok :: "store \<Rightarrow> bool" where
  "maps_ok s \<longleftrightarrow> hmap_ok (Storage s) \<and> hmap_ok (Expirations s) \<and> hmap_ok (DynamicVector s)
     \<and> hmap_ok (Streams s) \<and> hmap_ok (sorted_sets s) \<and> hmap_ok (subscribers s)"

definition lists_ok :: "store \<Rightarrow> bool" where
  "lists_ok s \<longleftrightarrow> (\<forall>k xs. hget (DynamicVector s) k = Some xs \<longrightarrow> xs \<noteq> [])"

definition streams_ok :: "store \<Rightarrow> bool" where
  "streams_ok s \<longleftrightarrow> (\<forall>k st. hget (Streams s) k = Some st \<longrightarrow> stream_ok st \<and> entries st \<noteq> [])"

definition zsets_ok :: "store \<Rightarrow> bool" where
  "zsets_ok s \<longleftrightarrow> (\<forall>k z. hget (sorted_sets s) k = Some z \<longrightarrow> zset_ok z \<and> scores z \<noteq> [])"

definition subs_ok :: "store \<Rightarrow> bool" where
  "subs_ok s \<longleftrightarrow> (\<forall>c fds. hget (subscribers s) c = Some fds \<longrightarrow> oset_ok fds \<and> fds \<noteq> [])"

text \<open>Only string keys carry a deadline.\<close>

definition expiry_ok :: "store \<Rightarrow> bool" where
  "expiry_ok s \<longleftrightarrow> (\<forall>k. hcontains (Expirations s) k \<longrightarrow> hcontains (Storage s) k)"

definition store_wf :: "store \<Rightarrow> bool" where
  "store_wf s \<longleftrightarrow> maps_ok s \<and> lists_ok s \<and> streams_ok s \<and> zsets_ok s \<and> subs_ok s \<and> expiry_ok s"

lemmas store_wf_defs =
  store_wf_def maps_ok_def lists_ok_def streams_ok_def zsets_ok_def subs_ok_def expiry_ok_def

text \<open>A key lives in at most one of the four containers.\<close>

definition typed_ok :: "store \<Rightarrow> bool" where
  "typed_ok s \<longleftrightarrow> (\<forall>k.
     (hcontains (Storage s) k \<longrightarrow> \<not> hcontains (DynamicVector s) k \<and> \<not> hcontains (Streams s) k
        \<and> \<not> hcontains (sorted_sets s) k)
     \<and> (hcontains (DynamicVector s) k \<longrightarrow> \<not> hcontains (Streams s) k \<and> \<not> hcontains (sorted_sets s) k)
     \<and> (hcontains (Streams s) k \<longrightarrow> \<not> hcontains (sorted_sets s) k))"

lemma store_wf_new [simp]: "store_wf new_store"
  by (simp add: store_wf_defs new_store_def hcontains_def)

lemma typed_ok_new [simp]: "typed_ok new_store"
  by (simp add: typed_ok_def new_store_def hcontains_def)

text \<open>The fields outside the key space do not matter to it.\<close>

lemma store_wf_frame [simp]:
  "store_wf (s\<lparr>pending_block := a\<rparr>) = store_wf s" "store_wf (s\<lparr>pending_propagations := b\<rparr>) = store_wf s"
  "store_wf (s\<lparr>pending_messages := c\<rparr>) = store_wf s" "store_wf (s\<lparr>default_user_enabled := d\<rparr>) = store_wf s"
  "store_wf (s\<lparr>default_user_nopass := e\<rparr>) = store_wf s" "store_wf (s\<lparr>default_user_passwords := f\<rparr>) = store_wf s"
  "store_wf (s\<lparr>master_repl_offset := g\<rparr>) = store_wf s"
  by (simp_all add: store_wf_defs)

lemma typed_ok_frame [simp]:
  "typed_ok (s\<lparr>pending_block := a\<rparr>) = typed_ok s" "typed_ok (s\<lparr>pending_propagations := b\<rparr>) = typed_ok s"
  "typed_ok (s\<lparr>pending_messages := c\<rparr>) = typed_ok s" "typed_ok (s\<lparr>default_user_enabled := d\<rparr>) = typed_ok s"
  "typed_ok (s\<lparr>default_user_nopass := e\<rparr>) = typed_ok s" "typed_ok (s\<lparr>default_user_passwords := f\<rparr>) = typed_ok s"
  "typed_ok (s\<lparr>master_repl_offset := g\<rparr>) = typed_ok s" "typed_ok (s\<lparr>subscribers := h\<rparr>) = typed_ok s"
  by (simp_all add: typed_ok_def)

section \<open>Lazy expiry\<close>

text \<open>Whether a key's deadline has passed, and the store after the check removed it.\<close>

definition dead :: "env \<Rightarrow> store \<Rightarrow> string \<Rightarrow> bool" where
  "dead env s k \<longleftrightarrow> (\<exists>deadline. hget (Expirations s) k = Some deadline \<and> deadline \<le> steady_now env)"

definition reap :: "env \<Rightarrow> store \<Rightarrow> string \<Rightarrow> store" where
  "reap env s k =
     (if dead env s k
      then s\<lparr>Expirations := herase k (Expirations s), Storage := herase k (Storage s)\<rparr> else s)"

lemma dead_frame [simp]:
  "dead env (s\<lparr>Storage := x\<rparr>) k = dead env s k"
  "dead env (s\<lparr>DynamicVector := y\<rparr>) k = dead env s k"
  "dead env (s\<lparr>Streams := z\<rparr>) k = dead env s k"
  "dead env (s\<lparr>sorted_sets := u\<rparr>) k = dead env s k"
  "dead env (s\<lparr>pending_block := b\<rparr>) k = dead env s k"
  "dead env (s\<lparr>pending_propagations := p\<rparr>) k = dead env s k"
  by (simp_all add: dead_def)

lemma is_expired_eq: "is_expired env s k = (reap env s k, dead env s k)"
  by (auto simp: is_expired_def reap_def dead_def split: option.splits)

lemma reap_frame [simp]:
  "DynamicVector (reap env s k) = DynamicVector s" "Streams (reap env s k) = Streams s"
  "sorted_sets (reap env s k) = sorted_sets s" "subscribers (reap env s k) = subscribers s"
  "pending_block (reap env s k) = pending_block s"
  "pending_propagations (reap env s k) = pending_propagations s"
  "pending_messages (reap env s k) = pending_messages s"
  "default_user_enabled (reap env s k) = default_user_enabled s"
  "default_user_nopass (reap env s k) = default_user_nopass s"
  "default_user_passwords (reap env s k) = default_user_passwords s"
  "is_replica (reap env s k) = is_replica s" "master_repl_offset (reap env s k) = master_repl_offset s"
  by (simp_all add: reap_def)

lemma hget_Storage_reap [simp]:
  "hget (Storage (reap env s k)) k' = (if k' = k \<and> dead env s k then None else hget (Storage s) k')"
  by (simp add: reap_def)

lemma hget_Expirations_reap [simp]:
  "hget (Expirations (reap env s k)) k' = (if k' = k \<and> dead env s k then None else hget (Expirations s) k')"
  by (simp add: reap_def)

lemma dead_reap [simp]: "dead env (reap env s k) k' \<longleftrightarrow> k' \<noteq> k \<and> dead env s k'"
  by (auto simp: dead_def)

lemma reap_alive: "\<not> dead env s k \<Longrightarrow> reap env s k = s"
  by (simp add: reap_def)

lemma reap_wf [inv_intros]: "store_wf s \<Longrightarrow> store_wf (reap env s k)"
  by (auto simp: store_wf_defs reap_def)

lemma reap_typed [inv_intros]: "typed_ok s \<Longrightarrow> typed_ok (reap env s k)"
  by (auto simp: typed_ok_def reap_def)

section \<open>The abstract key space\<close>

datatype val =
    VString string
  | VList "string list"
  | VStream "(StreamID \<times> StreamEntryData) list"
  | VZset "(double \<times> string) list"

definition view :: "env \<Rightarrow> store \<Rightarrow> string \<Rightarrow> val option" where
  "view env s k =
     (if dead env s k then None
      else case hget (Storage s) k of Some v \<Rightarrow> Some (VString v)
      | None \<Rightarrow> (case hget (DynamicVector s) k of Some xs \<Rightarrow> Some (VList xs)
      | None \<Rightarrow> (case hget (Streams s) k of Some st \<Rightarrow> Some (VStream (entries st))
      | None \<Rightarrow> (case hget (sorted_sets s) k of Some z \<Rightarrow> Some (VZset (ordered z)) | None \<Rightarrow> None))))"

fun type_name :: "val option \<Rightarrow> string" where
  "type_name None = ''none''"
| "type_name (Some (VString _)) = ''string''"
| "type_name (Some (VList _)) = ''list''"
| "type_name (Some (VStream _)) = ''stream''"
| "type_name (Some (VZset _)) = ''zset''"

lemma key_type_eq: "key_type env s k = (reap env s k, type_name (view env s k))"
  by (auto simp: key_type_def is_expired_eq view_def hcontains_def split: option.splits bool.splits)

lemma wrong_sorted_set_type_eq:
  "wrong_sorted_set_type env s k
     = (reap env s k, case view env s k of None \<Rightarrow> False | Some (VZset _) \<Rightarrow> False | _ \<Rightarrow> True)"
  by (auto simp: wrong_sorted_set_type_def key_type_eq split: option.splits val.splits)

lemma wrong_string_type_eq:
  "wrong_string_type env s k
     = (reap env s k, case view env s k of None \<Rightarrow> False | Some (VString _) \<Rightarrow> False | _ \<Rightarrow> True)"
  by (auto simp: wrong_string_type_def key_type_eq split: option.splits val.splits)

lemma peek_eq: "peek env s k = (reap env s k, if dead env s k then None else hget (Storage s) k)"
  by (auto simp: peek_def is_expired_eq split: bool.splits)

text \<open>
  Removing a dead key does not change what a client sees, as long as no other container
  holds the same key.
\<close>

lemma typed_ok_string:
  "typed_ok s \<Longrightarrow> hget (Storage s) k = Some v \<Longrightarrow>
     hget (DynamicVector s) k = None \<and> hget (Streams s) k = None \<and> hget (sorted_sets s) k = None"
  unfolding typed_ok_def hcontains_def by (metis option.distinct(1))

lemma typed_ok_list:
  "typed_ok s \<Longrightarrow> hget (DynamicVector s) k = Some xs \<Longrightarrow>
     hget (Storage s) k = None \<and> hget (Streams s) k = None \<and> hget (sorted_sets s) k = None"
  unfolding typed_ok_def hcontains_def by (metis option.distinct(1))

lemma typed_ok_stream:
  "typed_ok s \<Longrightarrow> hget (Streams s) k = Some st \<Longrightarrow>
     hget (Storage s) k = None \<and> hget (DynamicVector s) k = None \<and> hget (sorted_sets s) k = None"
  unfolding typed_ok_def hcontains_def by (metis option.distinct(1))

lemma typed_ok_zset:
  "typed_ok s \<Longrightarrow> hget (sorted_sets s) k = Some z \<Longrightarrow>
     hget (Storage s) k = None \<and> hget (DynamicVector s) k = None \<and> hget (Streams s) k = None"
  unfolding typed_ok_def hcontains_def by (metis option.distinct(1))

lemma dead_string:
  "expiry_ok s \<Longrightarrow> dead env s k \<Longrightarrow> \<exists>v. hget (Storage s) k = Some v"
  unfolding expiry_ok_def dead_def hcontains_def by auto

lemma view_reap_other: "k' \<noteq> k \<Longrightarrow> view env (reap env s k) k' = view env s k'"
  by (simp add: view_def split: option.split)

lemma view_reap:
  assumes "typed_ok s" "expiry_ok s"
  shows "view env (reap env s k) = view env s"
proof
  fix k'
  show "view env (reap env s k) k' = view env s k'"
  proof (cases "k' = k \<and> dead env s k")
    case True
    then obtain v where "hget (Storage s) k = Some v" using dead_string [OF assms(2)] by blast
    with True typed_ok_string [OF assms(1)] show ?thesis by (simp add: view_def)
  next
    case False
    then show ?thesis by (cases "k' = k") (simp_all add: reap_alive view_reap_other)
  qed
qed

lemma store_wf_expiry: "store_wf s \<Longrightarrow> expiry_ok s"
  by (simp add: store_wf_def)

text \<open>What the commands on strings see of a key: the bytes of the string, empty when absent.\<close>

definition holds_string :: "env \<Rightarrow> store \<Rightarrow> string \<Rightarrow> bool" where
  "holds_string env s k =
     (case view env s k of None \<Rightarrow> True | Some (VString _) \<Rightarrow> True | _ \<Rightarrow> False)"

definition string_at :: "env \<Rightarrow> store \<Rightarrow> string \<Rightarrow> string" where
  "string_at env s k = (case view env s k of Some (VString v) \<Rightarrow> v | _ \<Rightarrow> [])"

lemma wrong_string_type_holds:
  "wrong_string_type env s k = (reap env s k, \<not> holds_string env s k)"
  by (simp add: wrong_string_type_eq holds_string_def split: option.split val.split)

lemma string_at_storage:
  "(case hget (Storage (reap env s k)) k of None \<Rightarrow> [] | Some v \<Rightarrow> v) = string_at env s k"
  by (simp add: string_at_def view_def split: option.split)

lemma view_put_string:
  "\<not> dead env s k \<Longrightarrow>
     view env (s\<lparr>Storage := hput k v (Storage s)\<rparr>) = (view env s)(k \<mapsto> VString v)"
  by (rule ext) (simp add: view_def split: option.split)

lemma view_put_string_reap:
  "typed_ok s \<Longrightarrow> store_wf s \<Longrightarrow>
     view env ((reap env s k)\<lparr>Storage := hput k v (Storage (reap env s k))\<rparr>) = (view env s)(k \<mapsto> VString v)"
  using view_put_string [of env "reap env s k" k v] view_reap [of s env k] store_wf_expiry [of s] by simp

lemma typed_put_string:
  "typed_ok s \<Longrightarrow> store_wf s \<Longrightarrow> holds_string env s k \<Longrightarrow>
     typed_ok ((reap env s k)\<lparr>Storage := hput k v (Storage (reap env s k))\<rparr>)"
proof -
  assume ok: "typed_ok s" "store_wf s" "holds_string env s k"
  have "hget (DynamicVector s) k = None \<and> hget (Streams s) k = None \<and> hget (sorted_sets s) k = None"
  proof (cases "hget (Storage s) k")
    case (Some v)
    with ok show ?thesis using typed_ok_string by blast
  next
    case None
    then have "\<not> dead env s k" using dead_string store_wf_expiry ok(2) by fastforce
    with None ok(3) show ?thesis by (auto simp: holds_string_def view_def split: option.splits)
  qed
  with reap_typed [OF ok(1), of env k] show ?thesis
    unfolding typed_ok_def by (auto simp: hcontains_def)
qed

section \<open>Contracts of handlers\<close>

text \<open>
  A handler takes the environment, the store and the words of the command, and returns
  the store and a reply. Every handler keeps the store well-formed; the run of any
  sequence of commands then does. What the handlers rely on of the environment is that
  rounding an exact result never gives NaN.
\<close>

definition env_ok :: "env \<Rightarrow> bool" where
  "env_ok env \<longleftrightarrow> (\<forall>q. round_double env q \<noteq> NaN)"

locale wf_handler =
  fixes h :: "env \<Rightarrow> store \<Rightarrow> args \<Rightarrow> store \<times> 'r"
  assumes handler_wf: "env_ok env \<Longrightarrow> store_wf s \<Longrightarrow> store_wf (fst (h env s args))"
begin

lemma run_wf:
  "\<forall>(env, args) \<in> set cmds. env_ok env \<Longrightarrow> store_wf s \<Longrightarrow>
     store_wf (fold (\<lambda>(env, args) s. fst (h env s args)) cmds s)"
  by (induction cmds arbitrary: s) (auto simp: handler_wf)

end

text \<open>A reading handler changes the store at most by removing dead keys.\<close>

definition reap_all :: "env \<Rightarrow> string list \<Rightarrow> store \<Rightarrow> store" where
  "reap_all env ks s = fold (\<lambda>k s. reap env s k) ks s"

lemma reap_all_simps [simp]:
  "reap_all env [] s = s" "reap_all env (k # ks) s = reap_all env ks (reap env s k)"
  by (simp_all add: reap_all_def)

lemma reap_all_frame [simp]:
  "DynamicVector (reap_all env ks s) = DynamicVector s" "Streams (reap_all env ks s) = Streams s"
  "sorted_sets (reap_all env ks s) = sorted_sets s"
  by (induction ks arbitrary: s) simp_all

lemma reap_all_wf: "store_wf s \<Longrightarrow> store_wf (reap_all env ks s)"
  by (induction ks arbitrary: s) (simp_all add: reap_wf)

lemma reap_all_typed: "typed_ok s \<Longrightarrow> typed_ok (reap_all env ks s)"
  by (induction ks arbitrary: s) (simp_all add: reap_typed)

lemma view_reap_all: "typed_ok s \<Longrightarrow> store_wf s \<Longrightarrow> view env (reap_all env ks s) = view env s"
  by (induction ks arbitrary: s) (simp_all add: view_reap reap_typed reap_wf store_wf_expiry)

locale reading_handler =
  fixes h :: "env \<Rightarrow> store \<Rightarrow> args \<Rightarrow> store \<times> 'r"
  assumes only_reaps: "\<exists>ks. fst (h env s args) = reap_all env ks s"
begin

lemma keeps_view:
  "typed_ok s \<Longrightarrow> store_wf s \<Longrightarrow> view env (fst (h env s args)) = view env s"
  using only_reaps [of env s args] view_reap_all by metis

lemma keeps_typed: "typed_ok s \<Longrightarrow> typed_ok (fst (h env s args))"
  using only_reaps [of env s args] reap_all_typed by metis

end

sublocale reading_handler \<subseteq> wf_handler
  by unfold_locales (metis only_reaps reap_all_wf)

section \<open>A concrete environment\<close>

text \<open>
  An instance of the environment for concrete inputs: decimal scores only, and a glob
  matcher for literal patterns and the single star.
\<close>

definition sample_stod :: "string \<Rightarrow> (double \<times> nat) option" where
  "sample_stod t =
     (if t \<noteq> [] \<and> list_all is_digit t then Some (Fin (of_nat (digits_val t)), length t) else None)"

definition sample_to_chars :: "double \<Rightarrow> string option" where
  "sample_to_chars d = (case d of Fin q \<Rightarrow> Some (to_string_int \<lfloor>q\<rfloor>) | _ \<Rightarrow> None)"

definition sample_env :: env where
  "sample_env = \<lparr>steady_now = 5, system_now = 1000, fnmatch = (\<lambda>p t. p = ''*'' \<or> p = t),
     sha256 = (\<lambda>x. Some x), stod = sample_stod, round_double = Fin, to_chars = sample_to_chars,
     to_chars_fixed4 = sample_to_chars, to_string_double = (\<lambda>d. case sample_to_chars d of None \<Rightarrow> [] | Some t \<Rightarrow> t),
     math_sin = id, math_cos = (\<lambda>_. Fin 1), math_asin = id, math_sqrt = id\<rparr>"

lemma sample_env_ok [simp]: "env_ok sample_env"
  by (simp add: env_ok_def sample_env_def)

end
