(* ===== verification/Strings_Cmd.thy ===== *)
theory Strings_Cmd
  imports Keyspace
begin

text \<open>
  The string commands of \<open>src/src/store/strings.cpp\<close>: \<open>SET\<close> with optional expiry,
  \<open>GET\<close>, \<open>STRLEN\<close> and \<open>INCR\<close>. Deadlines are signed 64-bit nanosecond counts and
  \<open>INCR\<close> works on a 32-bit \<open>int\<close>; both wrap.
\<close>

section \<open>Handlers\<close>

text \<open>The lambda \<open>assign\<close> of \<open>handle_set\<close>.\<close>

definition assign :: "string \<Rightarrow> string \<Rightarrow> store \<Rightarrow> store" where
  "assign key value s = s\<lparr>Storage := hput key value (Storage s),
     sorted_sets := herase key (sorted_sets s), DynamicVector := herase key (DynamicVector s),
     Streams := herase key (Streams s)\<rparr>"

definition expire_error :: string where
  "expire_error = simple_error
     (''ERR invalid expire time in '' @ [CHR 0x27] @ ''set'' @ [CHR 0x27] @ '' command'')"

definition handle_set :: "env \<Rightarrow> store \<Rightarrow> args \<Rightarrow> store \<times> string" where
  "handle_set env s args =
     (if length args \<noteq> 3 \<and> length args \<noteq> 5 then (s, arity_error ''set'')
      else let key = args ! 1; value = args ! 2
       in if length args = 3 then
            (let s = assign key value s
             in (s\<lparr>Expirations := herase key (Expirations s)\<rparr>, ok_reply))
          else case stoll (args ! 4) of
            Inl _ \<Rightarrow> (s, expire_error)
          | Inr duration \<Rightarrow>
              if duration \<le> 0 then (s, expire_error)
              else if args ! 3 = ''EX'' then
                (assign key value (s\<lparr>Expirations :=
                   hput key (wrap_s64 (steady_now env + duration * 1000000000)) (Expirations s)\<rparr>), ok_reply)
              else if args ! 3 = ''PX'' then
                (assign key value (s\<lparr>Expirations :=
                   hput key (wrap_s64 (steady_now env + duration * 1000000)) (Expirations s)\<rparr>), ok_reply)
              else (s, simple_error ''ERR syntax error''))"

definition handle_get :: "env \<Rightarrow> store \<Rightarrow> args \<Rightarrow> store \<times> string" where
  "handle_get env s args =
     (if length args \<noteq> 2 then (s, arity_error ''get'')
      else case is_expired env s (args ! 1) of
        (s, True) \<Rightarrow> (s, to_bytes NullBulkString)
      | (s, False) \<Rightarrow>
          (s, case hget (Storage s) (args ! 1) of
                None \<Rightarrow> to_bytes NullBulkString
              | Some value \<Rightarrow> to_bytes (BulkString value)))"

definition handle_strlen :: "env \<Rightarrow> store \<Rightarrow> args \<Rightarrow> store \<times> string" where
  "handle_strlen env s args =
     (if length args \<noteq> 2 then (s, arity_error ''strlen'')
      else case wrong_string_type env s (args ! 1) of
        (s, True) \<Rightarrow> (s, wrong_type)
      | (s, False) \<Rightarrow>
          (s, to_bytes (Integer (case hget (Storage s) (args ! 1) of
                None \<Rightarrow> 0 | Some value \<Rightarrow> int (length value)))))"

text \<open>The arity message of \<open>INCR\<close> names \<open>lrange\<close>, as in the source.\<close>

definition handle_incr :: "store \<Rightarrow> args \<Rightarrow> store \<times> string" where
  "handle_incr s args =
     (if length args \<noteq> 2 then (s, arity_error ''lrange'')
      else let key = args ! 1
       in case hget (Storage s) key of
            None \<Rightarrow> (s\<lparr>Storage := hput key ''1'' (Storage s)\<rparr>, to_bytes (Integer 1))
          | Some val \<Rightarrow>
              (case stoi val of
                 Inl _ \<Rightarrow> (s, not_integer_error)
               | Inr n \<Rightarrow>
                   let n = wrap_s32 (n + 1)
                   in (s\<lparr>Storage := hput key (to_string_int n) (Storage s)\<rparr>, to_bytes (Integer n))))"

section \<open>The handlers keep the store well-formed\<close>

lemma assign_wf [inv_intros]: "store_wf s \<Longrightarrow> store_wf (assign k v s)"
  by (auto simp: store_wf_defs assign_def)

lemma assign_typed [inv_intros]: "typed_ok s \<Longrightarrow> typed_ok (assign k v s)"
  by (auto simp: typed_ok_def assign_def)

lemma assign_expire_wf:
  assumes "store_wf s"
  shows "store_wf (assign k v (s\<lparr>Expirations := hput k d (Expirations s)\<rparr>))"
    "store_wf ((assign k v s)\<lparr>Expirations := herase k (Expirations (assign k v s))\<rparr>)"
  using assms by (auto simp: store_wf_defs assign_def)

lemma handle_set_wf: "store_wf s \<Longrightarrow> store_wf (fst (handle_set env s args))"
  by (auto simp: handle_set_def Let_def assign_expire_wf split: sum.splits)

lemma handle_set_typed: "typed_ok s \<Longrightarrow> typed_ok (fst (handle_set env s args))"
  by (auto simp: handle_set_def Let_def assign_def typed_ok_def split: sum.splits)

interpretation set_h: wf_handler handle_set
  by unfold_locales (rule handle_set_wf)

lemma handle_get_eq:
  "handle_get env s args =
     (if length args \<noteq> 2 then (s, arity_error ''get'')
      else (reap env s (args ! 1),
            if dead env s (args ! 1) then to_bytes NullBulkString
            else case hget (Storage s) (args ! 1) of
                   None \<Rightarrow> to_bytes NullBulkString
                 | Some value \<Rightarrow> to_bytes (BulkString value)))"
  by (simp add: handle_get_def is_expired_eq split: bool.split)

interpretation get_h: reading_handler handle_get
proof unfold_locales
  fix env s args
  show "\<exists>ks. fst (handle_get env s args) = reap_all env ks s"
    by (rule exI [of _ "if length args \<noteq> 2 then [] else [args ! 1]"]) (simp add: handle_get_eq)
qed

interpretation strlen_h: reading_handler handle_strlen
proof unfold_locales
  fix env s args
  show "\<exists>ks. fst (handle_strlen env s args) = reap_all env ks s"
    by (rule exI [of _ "if length args \<noteq> 2 then [] else [args ! 1]"])
      (simp add: handle_strlen_def wrong_string_type_eq split: bool.split)
qed

lemma handle_incr_wf: "store_wf s \<Longrightarrow> store_wf (fst (handle_incr s args))"
  by (auto simp: handle_incr_def Let_def store_wf_defs split: sum.splits option.splits)

interpretation incr_h: wf_handler "\<lambda>_. handle_incr"
  by unfold_locales (rule handle_incr_wf)

section \<open>Properties\<close>

text \<open>\<open>SET key value\<close> answers OK and, at every instant, makes the key hold exactly that
  string: whatever the key held before, of whatever type and with whatever deadline, is
  gone, the value has no deadline, and no other key changes.\<close>

lemma set_overwrites_key:
  "snd (handle_set env s [cmd, k, v]) = ok_reply
   \<and> view env' (fst (handle_set env s [cmd, k, v])) = (view env' s)(k \<mapsto> VString v)"
proof -
  let ?s = "fst (handle_set env s [cmd, k, v])"
  have eq: "handle_set env s [cmd, k, v]
      = ((assign k v s)\<lparr>Expirations := herase k (Expirations s)\<rparr>, ok_reply)"
    by (simp add: handle_set_def assign_def)
  have "dead env' ?s k' \<longleftrightarrow> k' \<noteq> k \<and> dead env' s k'" for k' by (auto simp: eq dead_def assign_def)
  then have "view env' ?s k' = ((view env' s)(k \<mapsto> VString v)) k'" for k'
    by (simp add: view_def eq assign_def split: option.split)
  then have "view env' ?s = (view env' s)(k \<mapsto> VString v)" by blast
  moreover have "snd (handle_set env s [cmd, k, v]) = ok_reply" by (simp add: eq)
  ultimately show ?thesis by blast
qed

text \<open>Nanoseconds in the unit of an expiry option.\<close>

definition expiry_unit :: "string \<Rightarrow> int" where
  "expiry_unit u = (if u = ''EX'' then 1000000000 else 1000000)"

lemma handle_set_expiry:
  assumes "u = ''EX'' \<or> u = ''PX''" "0 < d" "d < 2 ^ 63"
  shows "handle_set env s [cmd, k, v, u, to_string_int d]
     = (assign k v (s\<lparr>Expirations :=
          hput k (wrap_s64 (steady_now env + d * expiry_unit u)) (Expirations s)\<rparr>), ok_reply)"
  using assms by (auto simp: handle_set_def stoll_to_string expiry_unit_def)

text \<open>C17: After \<open>SET key value EX|PX d\<close> a \<open>GET\<close> answers the value strictly before the deadline
  (the instant of the \<open>SET\<close> plus \<open>d\<close> seconds or milliseconds) and null from the deadline
  on, provided the deadline fits the 64-bit nanosecond clock.\<close>

theorem set_with_expiry_then_get:
  assumes "u = ''EX'' \<or> u = ''PX''" "0 < d" "d < 2 ^ 63"
    and "0 \<le> steady_now env" "steady_now env + d * expiry_unit u < 2 ^ 63"
  shows "snd (handle_get env' (fst (handle_set env s [cmd, k, v, u, to_string_int d])) [cmd', k])
     = (if steady_now env' < steady_now env + d * expiry_unit u
        then to_bytes (BulkString v) else to_bytes NullBulkString)"
proof -
  let ?t = "steady_now env + d * expiry_unit u" and ?s = "fst (handle_set env s [cmd, k, v, u, to_string_int d])"
  have "0 \<le> ?t" using assms by (simp add: expiry_unit_def)
  then have "wrap_s64 ?t = ?t" using assms(5) by (intro wrap_s64_id) auto
  then have "dead env' ?s k \<longleftrightarrow> ?t \<le> steady_now env'" "hget (Storage ?s) k = Some v"
    by (simp_all add: handle_set_expiry [OF assms(1-3)] dead_def assign_def)
  then show ?thesis by (auto simp: handle_get_eq)
qed

theorem set_with_expiry_then_get_witness:
  "snd (handle_get (sample_env\<lparr>steady_now := 2000000005\<rparr>)
          (fst (handle_set sample_env new_store [''SET'', ''k'', ''v'', ''EX'', to_string_int 2])) [''GET'', ''k''])
     = to_bytes NullBulkString"
  using set_with_expiry_then_get [of "''EX''" 2 sample_env "sample_env\<lparr>steady_now := 2000000005\<rparr>"
      new_store "''SET''" "''k''" "''v''" "''GET''"]
  by (simp add: sample_env_def expiry_unit_def)

text \<open>The deadline is computed in 64-bit nanoseconds and wraps: for a duration whose
  nanoseconds pass \<open>2 ^ 63\<close> but stay below \<open>2 ^ 64\<close> the deadline lies in the past, so \<open>SET\<close>
  answers OK and the key is gone at once.\<close>

lemma set_expiry_overflow_loses_value:
  assumes "u = ''EX'' \<or> u = ''PX''" "0 < d" "d < 2 ^ 63"
    and "0 \<le> steady_now env" "2 ^ 63 \<le> steady_now env + d * expiry_unit u"
    and "steady_now env + d * expiry_unit u < 2 ^ 64"
  shows "snd (handle_set env s [cmd, k, v, u, to_string_int d]) = ok_reply
    \<and> snd (handle_get env (fst (handle_set env s [cmd, k, v, u, to_string_int d])) [cmd', k])
       = to_bytes NullBulkString"
proof -
  let ?t = "steady_now env + d * expiry_unit u" and ?s = "fst (handle_set env s [cmd, k, v, u, to_string_int d])"
  have "wrap_s64 ?t = ?t - 2 ^ 64" using assms(5,6) by (simp add: wrap_s64_def mod_pos_geq)
  then have "wrap_s64 ?t \<le> steady_now env" using assms(4,6) by simp
  then have "dead env ?s k" by (simp add: handle_set_expiry [OF assms(1-3)] dead_def assign_def)
  then have "snd (handle_get env ?s [cmd', k]) = to_bytes NullBulkString" by (simp add: handle_get_eq)
  moreover have "snd (handle_set env s [cmd, k, v, u, to_string_int d]) = ok_reply"
    by (simp add: handle_set_expiry [OF assms(1-3)])
  ultimately show ?thesis by blast
qed

text \<open>Counting with \<open>INCR\<close>: \<open>n\<close> commands in a row and their replies.\<close>

fun incr_times :: "nat \<Rightarrow> string \<Rightarrow> store \<Rightarrow> store \<times> string list" where
  "incr_times 0 k s = (s, [])"
| "incr_times (Suc n) k s =
     (case handle_incr s [''INCR'', k] of
        (s, reply) \<Rightarrow> (case incr_times n k s of (s, replies) \<Rightarrow> (s, reply # replies)))"

lemma handle_incr_printed:
  assumes "hget (Storage s) k = Some (to_string_int i)" "- (2 ^ 31) \<le> i" "i < 2 ^ 31"
  shows "handle_incr s [cmd, k]
     = (s\<lparr>Storage := hput k (to_string_int (wrap_s32 (i + 1))) (Storage s)\<rparr>,
        to_bytes (Integer (wrap_s32 (i + 1))))"
  using assms by (simp add: handle_incr_def stoi_to_string Let_def)

lemma wrap_s32_add: "wrap_s32 (wrap_s32 i + j) = wrap_s32 (i + j)"
proof -
  have "((i + 2 ^ 31) mod 2 ^ 32 + j) mod 2 ^ 32 = (i + 2 ^ 31 + j) mod (2 ^ 32 :: int)"
    by (rule mod_add_left_eq)
  then show ?thesis by (simp add: wrap_s32_def algebra_simps)
qed

text \<open>C40: \<open>n\<close> consecutive \<open>INCR\<close> commands on a string that prints the integer \<open>i\<close> answer
  \<open>i + 1, ..., i + n\<close>, each reduced to the range of a 32-bit \<open>int\<close>, and leave the key
  printing \<open>i + n\<close> so reduced. In particular the counter wraps from 2147483647 to
  -2147483648 instead of reporting an overflow.\<close>

theorem incr_counts_modulo_int:
  assumes "hget (Storage s) k = Some (to_string_int i)" "- (2 ^ 31) \<le> i" "i < 2 ^ 31"
  shows "snd (incr_times n k s) = map (\<lambda>j. to_bytes (Integer (wrap_s32 (i + int j)))) [1..<Suc n]
     \<and> hget (Storage (fst (incr_times n k s))) k = Some (to_string_int (wrap_s32 (i + int n)))"
  using assms
proof (induction n arbitrary: i s)
  case 0
  then show ?case by (simp add: wrap_s32_id)
next
  case (Suc n)
  let ?i = "wrap_s32 (i + 1)"
  let ?s = "s\<lparr>Storage := hput k (to_string_int ?i) (Storage s)\<rparr>"
  have range: "- (2 ^ 31) \<le> ?i" "?i < 2 ^ 31" using wrap_s32_range by blast+
  have step: "handle_incr s [''INCR'', k] = (?s, to_bytes (Integer ?i))"
    using Suc.prems by (rule handle_incr_printed)
  have "map (\<lambda>j. to_bytes (Integer (wrap_s32 (?i + int j)))) [1..<Suc n]
      = map (\<lambda>j. to_bytes (Integer (wrap_s32 (i + int j)))) [2..<Suc (Suc n)]"
  proof -
    have "wrap_s32 (?i + int j) = wrap_s32 (i + int (Suc j))" for j
      using wrap_s32_add [of "i + 1" "int j"] by (simp add: add_ac)
    moreover have "[2..<Suc (Suc n)] = map Suc [1..<Suc n]" by (simp add: map_Suc_upt numeral_2_eq_2 del: upt_Suc)
    ultimately show ?thesis by (simp only: map_map o_def)
  qed
  moreover have "[1..<Suc (Suc n)] = 1 # [2..<Suc (Suc n)]"
    by (simp add: upt_conv_Cons numeral_2_eq_2 del: upt_Suc)
  ultimately show ?case
    using Suc.IH [of ?s ?i] range wrap_s32_add [of "i + 1" "int n"]
    by (simp add: step case_prod_beta add_ac del: upt_Suc)
qed

theorem incr_counts_modulo_int_witness:
  "snd (incr_times 2 ''n'' (new_store\<lparr>Storage := [(''n'', to_string_int 2147483646)]\<rparr>))
     = [to_bytes (Integer 2147483647), to_bytes (Integer (-2147483648))]"
  using incr_counts_modulo_int [of "new_store\<lparr>Storage := [(''n'', to_string_int 2147483646)]\<rparr>" "''n''" 2147483646 2]
  by (simp add: hget_def wrap_s32_def numeral_2_eq_2)

end
