(* ===== verification/Lists_Cmd.thy ===== *)
theory Lists_Cmd
  imports Keyspace
begin

text \<open>
  The list commands of \<open>src/src/store/lists.cpp\<close>: \<open>RPUSH\<close>, \<open>LPUSH\<close>, \<open>LLEN\<close>, \<open>LPOP\<close>,
  \<open>LRANGE\<close>, \<open>BLPOP\<close> and the retry \<open>try_blpop\<close> the event loop makes for blocked clients.
\<close>

section \<open>Handlers\<close>

definition list_at :: "store \<Rightarrow> string \<Rightarrow> string list" where
  "list_at s key = (case hget (DynamicVector s) key of None \<Rightarrow> [] | Some xs \<Rightarrow> xs)"

definition handle_rpush :: "store \<Rightarrow> args \<Rightarrow> store \<times> string" where
  "handle_rpush s args =
     (if length args < 3 then (s, arity_error ''rpush'')
      else let vec_name = args ! 1;
               new = fold (\<lambda>x xs. xs @ [x]) (drop 2 args) (list_at s vec_name)
           in (s\<lparr>DynamicVector := hput vec_name new (DynamicVector s)\<rparr>,
               to_bytes (Integer (int (length new)))))"

definition handle_lpush :: "store \<Rightarrow> args \<Rightarrow> store \<times> string" where
  "handle_lpush s args =
     (if length args < 3 then (s, arity_error ''lpush'')
      else let vec_name = args ! 1;
               new = fold (\<lambda>x xs. x # xs) (drop 2 args) (list_at s vec_name)
           in (s\<lparr>DynamicVector := hput vec_name new (DynamicVector s)\<rparr>,
               to_bytes (Integer (int (length new)))))"

definition handle_llen :: "store \<Rightarrow> args \<Rightarrow> store \<times> string" where
  "handle_llen s args =
     (if length args \<noteq> 2 then (s, arity_error ''llen'')
      else (s, case hget (DynamicVector s) (args ! 1) of
                 None \<Rightarrow> to_bytes (Integer 0)
               | Some xs \<Rightarrow> to_bytes (Integer (int (length xs)))))"

text \<open>Writing back a shortened list erases the key when nothing is left.\<close>

definition put_list :: "string \<Rightarrow> string list \<Rightarrow> store \<Rightarrow> store" where
  "put_list key xs s =
     (if xs = [] then s\<lparr>DynamicVector := herase key (DynamicVector s)\<rparr>
      else s\<lparr>DynamicVector := hput key xs (DynamicVector s)\<rparr>)"

definition handle_lpop :: "store \<Rightarrow> args \<Rightarrow> store \<times> string" where
  "handle_lpop s args =
     (if length args \<noteq> 2 \<and> length args \<noteq> 3 then (s, arity_error ''lpop'')
      else let key = args ! 1; xs = list_at s key
       in if length args = 2 then
            (case xs of
               [] \<Rightarrow> (s, to_bytes NullBulkString)
             | first # rest \<Rightarrow> (put_list key rest s, to_bytes (BulkString first)))
          else case stoll (args ! 2) of
            Inl _ \<Rightarrow> (s, not_integer_error)
          | Inr count \<Rightarrow>
              if count < 0 then (s, simple_error ''ERR value is out of range, must be positive'')
              else if xs = [] then (s, to_bytes NullArray)
              else if count = 0 then (s, to_bytes (Array []))
              else let taken = min (nat count) (length xs)
                   in (put_list key (drop taken xs) s, to_bytes (Array (take taken xs))))"

fun try_blpop :: "string list \<Rightarrow> store \<Rightarrow> store \<times> (string \<times> string) option" where
  "try_blpop [] s = (s, None)"
| "try_blpop (key # keys) s =
     (case list_at s key of
        [] \<Rightarrow> try_blpop keys s
      | value # rest \<Rightarrow>
          (queue_propagation [''LPOP'', key] (put_list key rest s), Some (key, value)))"

definition handle_blpop :: "env \<Rightarrow> store \<Rightarrow> args \<Rightarrow> store \<times> string" where
  "handle_blpop env s args =
     (let s = s\<lparr>pending_block := None\<rparr>
      in if length args < 3 then (s, arity_error ''blpop'')
         else case stod env (last args) of
           None \<Rightarrow> (s, simple_error ''ERR timeout is not a float or out of range'')
         | Some (timeout, consumed) \<Rightarrow>
             if consumed \<noteq> length (last args)
             then (s, simple_error ''ERR timeout is not a float or out of range'')
             else if isnan timeout \<or> dbl_less timeout (Fin 0)
             then (s, simple_error ''ERR timeout is negative'')
             else let keys = butlast (drop 1 args)
              in if list_ex (hcontains (sorted_sets s)) keys then (s, wrong_type)
                 else case try_blpop keys s of
                   (s, Some (key, value)) \<Rightarrow> (s, to_bytes (Array [key, value]))
                 | (s, None) \<Rightarrow>
                     (s\<lparr>pending_block := Some \<lparr>br_kind = BlockList, br_keys = keys, br_ids = [],
                          br_count = 0, br_timeout = timeout\<rparr>\<rparr>, []))"

text \<open>The index arithmetic of \<open>LRANGE\<close> on an existing list.\<close>

definition lrange_slice :: "string list \<Rightarrow> int \<Rightarrow> int \<Rightarrow> string list" where
  "lrange_slice xs start stop =
     (let size = int (length xs);
          start = (if start < 0 then start + size else start);
          start = (if start < 0 then 0 else start);
          stop = (if stop < 0 then stop + size else stop);
          stop = (if stop < 0 then 0 else stop)
      in if size \<le> start \<or> stop < start then []
         else let stop = (if size \<le> stop then size - 1 else stop)
              in take (nat (stop + 1 - start)) (drop (nat start) xs))"

definition handle_lrange :: "store \<Rightarrow> args \<Rightarrow> store \<times> string" where
  "handle_lrange s args =
     (if length args \<noteq> 4 then (s, arity_error ''lrange'')
      else case (stoll (args ! 2), stoll (args ! 3)) of
        (Inr start, Inr stop) \<Rightarrow>
          (case hget (DynamicVector s) (args ! 1) of
             None \<Rightarrow> (s, to_bytes (Array []))
           | Some xs \<Rightarrow> (s, to_bytes (Array (lrange_slice xs start stop))))
      | _ \<Rightarrow> (s, not_integer_error))"

section \<open>Well-formedness\<close>

lemma list_at_wf: "store_wf s \<Longrightarrow> list_at s k = [] \<longleftrightarrow> hget (DynamicVector s) k = None"
  by (auto simp: list_at_def store_wf_def lists_ok_def split: option.splits)

lemma put_nonempty_list_wf:
  "store_wf s \<Longrightarrow> xs \<noteq> [] \<Longrightarrow> store_wf (s\<lparr>DynamicVector := hput k xs (DynamicVector s)\<rparr>)"
  by (auto simp: store_wf_defs)

lemma put_list_wf [inv_intros]: "store_wf s \<Longrightarrow> store_wf (put_list k xs s)"
  by (auto simp: store_wf_defs put_list_def)

lemma fold_snoc: "fold (\<lambda>x xs. xs @ [x]) ys xs = xs @ ys"
  by (induction ys arbitrary: xs) auto

lemma fold_Cons_rev: "fold (\<lambda>x xs. x # xs) ys xs = rev ys @ xs"
  by (induction ys arbitrary: xs) auto

lemma handle_rpush_wf: "store_wf s \<Longrightarrow> store_wf (fst (handle_rpush s args))"
  by (auto simp: handle_rpush_def Let_def fold_snoc intro!: put_nonempty_list_wf)

lemma handle_lpush_wf: "store_wf s \<Longrightarrow> store_wf (fst (handle_lpush s args))"
  by (auto simp: handle_lpush_def Let_def fold_Cons_rev intro!: put_nonempty_list_wf)

lemma handle_lpop_wf: "store_wf s \<Longrightarrow> store_wf (fst (handle_lpop s args))"
  by (auto simp: handle_lpop_def Let_def put_list_wf split: list.splits sum.splits)

lemma queue_propagation_wf [inv_intros]: "store_wf s \<Longrightarrow> store_wf (queue_propagation args s)"
  by (simp add: queue_propagation_def)

lemma try_blpop_wf [inv_intros]: "store_wf s \<Longrightarrow> store_wf (fst (try_blpop keys s))"
  by (induction keys s rule: try_blpop.induct)
    (auto simp: queue_propagation_wf put_list_wf split: list.splits)

lemma handle_blpop_wf: "store_wf s \<Longrightarrow> store_wf (fst (handle_blpop env s args))"
  using try_blpop_wf [of "s\<lparr>pending_block := None\<rparr>" "butlast (drop 1 args)"]
  by (simp add: handle_blpop_def Let_def split: option.split prod.split) auto

interpretation rpush_h: wf_handler "\<lambda>_. handle_rpush"
  by unfold_locales (rule handle_rpush_wf)

interpretation lpush_h: wf_handler "\<lambda>_. handle_lpush"
  by unfold_locales (rule handle_lpush_wf)

interpretation lpop_h: wf_handler "\<lambda>_. handle_lpop"
  by unfold_locales (rule handle_lpop_wf)

interpretation blpop_h: wf_handler handle_blpop
  by unfold_locales (rule handle_blpop_wf)

lemma handle_llen_store [simp]: "fst (handle_llen s args) = s"
  by (simp add: handle_llen_def)

lemma handle_lrange_store [simp]: "fst (handle_lrange s args) = s"
  by (simp add: handle_lrange_def Let_def split: sum.split option.split)

interpretation llen_h: reading_handler "\<lambda>_. handle_llen"
  by unfold_locales (metis handle_llen_store reap_all_simps(1))

interpretation lrange_h: reading_handler "\<lambda>_. handle_lrange"
  by unfold_locales (metis handle_lrange_store reap_all_simps(1))

section \<open>Queues\<close>

text \<open>
  The contract of a first-in first-out queue whose removal answers through \<open>reply\<close>. Clients
  that only remove then receive the elements in the order they were put in.
\<close>

locale fifo =
  fixes enq :: "'a \<Rightarrow> 'q \<Rightarrow> 'q"
    and deq :: "'q \<Rightarrow> 'q \<times> 'r"
    and contents :: "'q \<Rightarrow> 'a list"
    and reply :: "'a option \<Rightarrow> 'r"
  assumes contents_enq: "contents (enq x q) = contents q @ [x]"
    and deq_empty: "contents q = [] \<Longrightarrow> contents (fst (deq q)) = [] \<and> snd (deq q) = reply None"
    and deq_some: "contents q = x # xs \<Longrightarrow> contents (fst (deq q)) = xs \<and> snd (deq q) = reply (Some x)"
begin

lemma contents_enqs: "contents (fold enq xs q) = contents q @ xs"
  by (induction xs arbitrary: q) (simp_all add: contents_enq)

fun deqs :: "nat \<Rightarrow> 'q \<Rightarrow> 'q \<times> 'r list" where
  "deqs 0 q = (q, [])"
| "deqs (Suc n) q = (case deq q of (q, r) \<Rightarrow> (case deqs n q of (q, rs) \<Rightarrow> (q, r # rs)))"

lemma deqs_order:
  "snd (deqs n q) = map (\<lambda>i. reply (if i < length (contents q) then Some (contents q ! i) else None)) [0..<n]
   \<and> contents (fst (deqs n q)) = drop n (contents q)"
proof (induction n arbitrary: q)
  case (Suc n)
  have upt: "[0..<Suc n] = 0 # map Suc [0..<n]" by (simp add: upt_conv_Cons map_Suc_upt del: upt_Suc)
  show ?case
  proof (cases "contents q")
    case Nil
    with deq_empty [OF Nil] Suc [of "fst (deq q)"] show ?thesis
      by (simp add: upt case_prod_beta o_def del: upt_Suc)
  next
    case (Cons x xs)
    with deq_some [OF Cons] Suc [of "fst (deq q)"] show ?thesis
      by (simp add: upt case_prod_beta o_def del: upt_Suc)
  qed
qed simp

lemma enqs_deqs:
  "contents q = [] \<Longrightarrow> snd (deqs (length xs) (fold enq xs q)) = map (\<lambda>x. reply (Some x)) xs"
  by (rule nth_equalityI) (simp_all add: deqs_order contents_enqs)

end

lemma hget_put_list:
  "hget (DynamicVector (put_list k xs s)) k'
     = (if k' = k then if xs = [] then None else Some xs else hget (DynamicVector s) k')"
  by (simp add: put_list_def)

lemma list_at_put_list [simp]: "list_at (put_list k xs s) k' = (if k' = k then xs else list_at s k')"
  by (simp add: list_at_def put_list_def)

lemma list_at_hput [simp]:
  "list_at (s\<lparr>DynamicVector := hput k xs (DynamicVector s)\<rparr>) k' = (if k' = k then xs else list_at s k')"
  by (simp add: list_at_def)

lemma list_at_queue_propagation [simp]: "list_at (queue_propagation p s) = list_at s"
  by (simp add: fun_eq_iff list_at_def queue_propagation_def)

definition pop_reply :: "string option \<Rightarrow> string" where
  "pop_reply r = (case r of None \<Rightarrow> to_bytes NullBulkString | Some x \<Rightarrow> to_bytes (BulkString x))"

interpretation lpop_q: fifo "\<lambda>x s. fst (handle_rpush s [''RPUSH'', k, x])" "\<lambda>s. handle_lpop s [''LPOP'', k]"
    "\<lambda>s. list_at s k" pop_reply for k
  by unfold_locales (auto simp: handle_rpush_def handle_lpop_def pop_reply_def Let_def split: list.splits)

interpretation blpop_q: fifo "\<lambda>x s. fst (handle_rpush s [''RPUSH'', k, x])" "\<lambda>s. try_blpop [k] s"
    "\<lambda>s. list_at s k" "map_option (Pair k)" for k
  by unfold_locales (auto simp: handle_rpush_def Let_def split: list.splits)

section \<open>Properties\<close>

text \<open>The replies of \<open>n\<close> consecutive \<open>LPOP\<close> commands on a key.\<close>

fun lpops :: "nat \<Rightarrow> string \<Rightarrow> store \<Rightarrow> string list" where
  "lpops 0 k s = []"
| "lpops (Suc n) k s = (case handle_lpop s [''LPOP'', k] of (s, r) \<Rightarrow> r # lpops n k s)"

lemma lpops_deqs: "lpops n k s = snd (lpop_q.deqs k n s)"
  by (induction n arbitrary: s) (simp_all add: case_prod_beta)

text \<open>C14: A list used as a queue is first-in first-out: after \<open>RPUSH\<close> commands for \<open>xs\<close> one by
  one on a key holding the list \<open>ys\<close>, \<open>n\<close> \<open>LPOP\<close> commands answer the first \<open>n\<close> elements of
  \<open>ys @ xs\<close> in order, and null from the point where the list is exhausted.\<close>

theorem rpush_lpop_fifo:
  "lpops n k (fold (\<lambda>x s. fst (handle_rpush s [''RPUSH'', k, x])) xs s)
     = map (\<lambda>i. pop_reply (let q = list_at s k @ xs in if i < length q then Some (q ! i) else None)) [0..<n]"
  using lpop_q.deqs_order [of k n] lpop_q.contents_enqs [of k xs s]
  by (simp add: lpops_deqs Let_def)

text \<open>Pushing several values at once: \<open>RPUSH\<close> appends them in order, \<open>LPUSH\<close> prepends them
  one after the other (so the last one comes first), other lists are untouched, and the
  reply is the new length.\<close>

lemma push_many:
  assumes "vs \<noteq> []"
  shows "(\<exists>s'. handle_rpush s (cmd # k # vs) = (s', to_bytes (Integer (int (length (list_at s k) + length vs))))
       \<and> list_at s' = (list_at s)(k := list_at s k @ vs))
     \<and> (\<exists>s'. handle_lpush s (cmd # k # vs) = (s', to_bytes (Integer (int (length (list_at s k) + length vs))))
       \<and> list_at s' = (list_at s)(k := rev vs @ list_at s k))"
  using assms
  by (cases vs) (simp_all add: handle_rpush_def handle_lpush_def Let_def fold_snoc fold_Cons_rev fun_eq_iff
      numeral_2_eq_2 add_ac)

text \<open>\<open>LPOP key count\<close> with a count of at least one on a non-empty list answers the first
  \<open>count\<close> elements (all of them when the list is shorter), keeps exactly the rest, and
  removes the key when nothing is left, so no empty list ever stays in the store.\<close>

lemma lpop_count_splits:
  assumes "store_wf s" "hget (DynamicVector s) k = Some xs" "0 < n" "n < 2 ^ 63"
  shows "\<exists>s'. handle_lpop s [cmd, k, to_string_int (int n)] = (s', to_bytes (Array (take n xs)))
     \<and> hget (DynamicVector s') k = (if n < length xs then Some (drop n xs) else None)
     \<and> (\<forall>k'. k' \<noteq> k \<longrightarrow> hget (DynamicVector s') k' = hget (DynamicVector s) k') \<and> store_wf s'"
proof -
  have l: "list_at s k = xs" "xs \<noteq> []" using assms by (auto simp: list_at_def store_wf_def lists_ok_def)
  have "stoll (to_string_int (int n)) = Inr (int n)" using assms(4) by (intro stoll_to_string) auto
  then have "handle_lpop s [cmd, k, to_string_int (int n)]
      = (put_list k (drop (min n (length xs)) xs) s, to_bytes (Array (take (min n (length xs)) xs)))"
    using l assms(3) by (simp add: handle_lpop_def Let_def)
  moreover have "take (min n (length xs)) xs = take n xs" "drop (min n (length xs)) xs = drop n xs"
    by (auto simp: min_def)
  ultimately show ?thesis
    using put_list_wf [OF assms(1)] by (simp add: hget_put_list)
qed

definition sample_list_store :: store where
  "sample_list_store = new_store\<lparr>DynamicVector := [(''k'', [''a'', ''b'', ''c''])]\<rparr>"

lemma sample_list_store_wf: "store_wf sample_list_store"
  by (simp add: sample_list_store_def store_wf_defs new_store_def hcontains_def hget_def hmap_ok_def)

lemma sample_list_store_get: "hget (DynamicVector sample_list_store) k = (if k = ''k'' then Some [''a'', ''b'', ''c''] else None)"
  by (simp add: sample_list_store_def hget_def new_store_def)

text \<open>The index a bound of \<open>LRANGE\<close> denotes in a list of \<open>len\<close> elements.\<close>

definition list_index :: "int \<Rightarrow> int \<Rightarrow> int" where
  "list_index len i = max 0 (if i < 0 then i + len else i)"

lemma lrange_slice_window:
  "lrange_slice xs a b
     = nths xs {i. list_index (int (length xs)) a \<le> int i \<and> int i \<le> list_index (int (length xs)) b}"
proof -
  let ?a = "list_index (int (length xs)) a" and ?b = "list_index (int (length xs)) b"
  have pos: "0 \<le> ?a" "0 \<le> ?b" by (auto simp: list_index_def)
  then have "{i. ?a \<le> int i \<and> int i \<le> ?b} = {i. nat ?a \<le> i \<and> i < nat (?b + 1)}" by auto
  then have "nths xs {i. ?a \<le> int i \<and> int i \<le> ?b} = take (nat (?b + 1) - nat ?a) (drop (nat ?a) xs)"
    by (simp add: nths_interval)
  moreover have "lrange_slice xs a b = (if int (length xs) \<le> ?a \<or> ?b < ?a then []
      else take (nat (min ?b (int (length xs) - 1) + 1 - ?a)) (drop (nat ?a) xs))"
  proof -
    have clamp: "(if x < 0 then 0 else x) = max 0 x" "(if y \<le> x then y - 1 else x) = min x (y - 1)"
      for x y :: int by auto
    show ?thesis unfolding lrange_slice_def Let_def list_index_def clamp ..
  qed
  ultimately show ?thesis using pos by (auto simp: min_def nat_diff_distrib take_all_iff)
qed

text \<open>C34: \<open>LRANGE key start stop\<close> answers the elements whose index lies between the two bounds,
  both included, in list order, where a negative bound counts from the end and is cut off
  at 0, and a bound past the end is cut off there; a missing key is an empty list.\<close>

theorem lrange_answers_window:
  fixes s :: store and k :: string
  assumes "- (2 ^ 63) \<le> a" "a < 2 ^ 63" "- (2 ^ 63) \<le> b" "b < 2 ^ 63"
  defines "len \<equiv> int (length (list_at s k))"
  shows "handle_lrange s [cmd, k, to_string_int a, to_string_int b]
     = (s, to_bytes (Array (nths (list_at s k) {i. list_index len a \<le> int i \<and> int i \<le> list_index len b})))"
  using assms
  by (simp add: handle_lrange_def stoll_to_string list_at_def lrange_slice_window split: option.split)

theorem lrange_answers_window_witness:
  "handle_lrange sample_list_store [''LRANGE'', ''k'', to_string_int (-2), to_string_int 9]
     = (sample_list_store, to_bytes (Array [''b'', ''c'']))"
proof -
  have "nths [''a'', ''b'', ''c''] {i. 1 \<le> int i \<and> int i \<le> 9} = [''b'', ''c'']"
    by (simp add: nths_Cons)
  then show ?thesis
    using lrange_answers_window [of "-2" 9 sample_list_store "''LRANGE''" "''k''"]
    by (simp add: list_at_def sample_list_store_get list_index_def)
qed

text \<open>Cutting a negative stop off at 0 makes \<open>LRANGE\<close> answer the first element when the stop
  lies before the start of the list (\<open>LRANGE key 0 -100\<close>), where \<open>ZRANGE\<close> of the same
  program and the documented command answer an empty range.\<close>

lemma lrange_stop_before_start_answers_first:
  assumes "hget (DynamicVector s) k = Some (x # xs)" "b < - int (length (x # xs))" "- (2 ^ 63) \<le> b"
  shows "handle_lrange s [cmd, k, to_string_int 0, to_string_int b] = (s, to_bytes (Array [x]))"
  using assms by (simp add: handle_lrange_def stoll_to_string lrange_slice_def Let_def)

text \<open>C22: \<open>BLPOP\<close> over several keys serves the first key, in the order given, whose list is not
  empty: it answers that key with the list's head and queues for the replicas exactly the
  \<open>LPOP\<close> that has the same effect on the store. When every list is empty it changes
  nothing but the block request, which names the keys and the timeout, and answers nothing.\<close>

theorem blpop_serves_or_blocks:
  assumes "stod env timeout = Some (t, length timeout)" "t \<noteq> NaN" "\<not> t < Fin 0" "keys \<noteq> []"
    and "\<not> list_ex (hcontains (sorted_sets s)) keys"
  defines "s0 \<equiv> s\<lparr>pending_block := None\<rparr>"
  shows "handle_blpop env s (cmd # keys @ [timeout]) =
     (case find (\<lambda>k. list_at s k \<noteq> []) keys of
        None \<Rightarrow> (s0\<lparr>pending_block := Some \<lparr>br_kind = BlockList, br_keys = keys, br_ids = [],
                   br_count = 0, br_timeout = t\<rparr>\<rparr>, [])
      | Some k \<Rightarrow> (queue_propagation [''LPOP'', k] (fst (handle_lpop s0 [''LPOP'', k])),
                  to_bytes (Array [k, hd (list_at s k)])))"
proof -
  have l: "list_at s0 k = list_at s k" for k by (simp add: list_at_def s0_def)
  have served: "try_blpop ks s0 = (case find (\<lambda>k. list_at s k \<noteq> []) ks of
      None \<Rightarrow> (s0, None)
    | Some k \<Rightarrow> (queue_propagation [''LPOP'', k] (fst (handle_lpop s0 [''LPOP'', k])),
        Some (k, hd (list_at s k))))" for ks
    by (induction ks) (auto simp: l handle_lpop_def Let_def split: list.split)
  have "sorted_sets s0 = sorted_sets s" by (simp add: s0_def)
  moreover have "\<not> length (cmd # keys @ [timeout]) < 3" using assms(4) by (cases keys) auto
  ultimately show ?thesis
    using assms(1-3,5)
    by (simp only: handle_blpop_def s0_def [symmetric] Let_def if_False)
      (simp add: served isnan_def split: option.split)
qed

theorem blpop_serves_or_blocks_witness:
  "snd (handle_blpop sample_env sample_list_store ([''BLPOP''] @ [''q'', ''k''] @ [''7'']))
     = to_bytes (Array [''k'', ''a''])"
proof -
  have st: "stod sample_env ''7'' = Some (Fin 7, length ''7'')"
    by (simp add: sample_env_def sample_stod_def is_digit_def digits_val_def digit_val_def)
  have "\<not> list_ex (hcontains (sorted_sets sample_list_store)) [''q'', ''k'']"
    by (simp add: sample_list_store_def new_store_def hcontains_def)
  with blpop_serves_or_blocks [OF st, of "[''q'', ''k'']" sample_list_store "''BLPOP''"] show ?thesis
    by (simp add: list_at_def sample_list_store_get)
qed

end
