(* ===== verification/Bitmaps.thy ===== *)
theory Bitmaps
  imports Keyspace
begin

unbundle bit_operations_syntax

text \<open>
  The bitmap commands of \<open>src/src/store/bitmaps.cpp\<close> over the bytes of ordinary strings,
  most significant bit first: \<open>SETBIT\<close>, \<open>GETBIT\<close>, \<open>BITCOUNT\<close> and \<open>BITOP\<close>. Bytes are
  8-bit words and the masks of \<open>BITCOUNT\<close> 32-bit words, as in the code. The lemmas relate
  every handler to the bit sequence \<open>bit_at\<close> a string denotes.
\<close>

section \<open>Parsing\<close>

definition parse_offset :: "string \<Rightarrow> nat option" where
  "parse_offset text =
     (case whole_u64 text of
        None \<Rightarrow> None
      | Some offset \<Rightarrow>
          if text = to_string_nat offset \<and> offset < 2 ^ 32 then Some offset else None)"

definition parse_bit_index :: "string \<Rightarrow> int option" where
  "parse_bit_index text =
     (case whole_s64 text of
        None \<Rightarrow> None
      | Some index \<Rightarrow> if text = to_string_int index then Some index else None)"

definition offset_error :: string where
  "offset_error = simple_error ''ERR bit offset is not an integer or out of range''"

section \<open>Bits of a string\<close>

definition byte :: "char \<Rightarrow> 8 word" where
  "byte c = of_char c"

definition byte_char :: "8 word \<Rightarrow> char" where
  "byte_char w = char_of (unat w)"

definition resize :: "nat \<Rightarrow> string \<Rightarrow> string" where
  "resize n value = take n value @ replicate (n - length value) (CHR 0x00)"

text \<open>The update of \<open>handle_setbit\<close>: the new string and the previous bit.\<close>

definition write_bit :: "string \<Rightarrow> nat \<Rightarrow> bool \<Rightarrow> string \<times> bool" where
  "write_bit value offset on =
     (let index = offset div 8;
          value = (if length value \<le> index then resize (index + 1) value else value);
          mask = drop_bit (offset mod 8) (0x80 :: 8 word);
          b = byte (value ! index)
      in (value[index := byte_char (if on then b OR mask else b AND NOT mask)], b AND mask \<noteq> 0))"

definition read_bit :: "string \<Rightarrow> nat \<Rightarrow> bool" where
  "read_bit value offset =
     (let index = offset div 8
      in if length value \<le> index then False
         else drop_bit (7 - offset mod 8) (byte (value ! index)) AND 1 = 1)"

definition handle_setbit :: "env \<Rightarrow> store \<Rightarrow> args \<Rightarrow> store \<times> string" where
  "handle_setbit env s args =
     (if length args \<noteq> 4 then (s, arity_error ''setbit'')
      else case parse_offset (args ! 2) of
        None \<Rightarrow> (s, offset_error)
      | Some offset \<Rightarrow>
          if args ! 3 \<noteq> ''0'' \<and> args ! 3 \<noteq> ''1''
          then (s, simple_error ''ERR bit is not an integer or out of range'')
          else case wrong_string_type env s (args ! 1) of
            (s, True) \<Rightarrow> (s, wrong_type)
          | (s, False) \<Rightarrow>
              (case write_bit (case hget (Storage s) (args ! 1) of None \<Rightarrow> [] | Some v \<Rightarrow> v)
                      offset (args ! 3 = ''1'') of
                 (value, previous) \<Rightarrow>
                   (s\<lparr>Storage := hput (args ! 1) value (Storage s)\<rparr>, to_bytes (Integer (of_bool previous)))))"

definition handle_getbit :: "env \<Rightarrow> store \<Rightarrow> args \<Rightarrow> store \<times> string" where
  "handle_getbit env s args =
     (if length args \<noteq> 3 then (s, arity_error ''getbit'')
      else case parse_offset (args ! 2) of
        None \<Rightarrow> (s, offset_error)
      | Some offset \<Rightarrow>
          (case wrong_string_type env s (args ! 1) of
             (s, True) \<Rightarrow> (s, wrong_type)
           | (s, False) \<Rightarrow>
               (s, case hget (Storage s) (args ! 1) of
                     None \<Rightarrow> to_bytes (Integer 0)
                   | Some value \<Rightarrow> to_bytes (Integer (of_bool (read_bit value offset))))))"

section \<open>Counting\<close>

definition popcount :: "32 word \<Rightarrow> nat" where
  "popcount w = length (filter (bit w) [0..<32])"

definition masked_byte :: "string \<Rightarrow> nat \<Rightarrow> nat \<Rightarrow> nat \<Rightarrow> 32 word" where
  "masked_byte value first_bit last_bit i =
     (let b = of_char (value ! i);
          b = (if i = first_bit div 8 then b AND drop_bit (first_bit mod 8) 0xFF else b)
      in if i = last_bit div 8 then b AND push_bit (7 - last_bit mod 8) 0xFF else b)"

definition count_bits :: "string \<Rightarrow> nat \<Rightarrow> nat \<Rightarrow> nat" where
  "count_bits value first_bit last_bit =
     sum_list (map (\<lambda>i. popcount (masked_byte value first_bit last_bit i))
       [first_bit div 8..<Suc (last_bit div 8)])"

text \<open>The range arithmetic of \<open>handle_bitcount\<close> on an existing string.\<close>

definition bitcount_range :: "string \<Rightarrow> bool \<Rightarrow> int \<Rightarrow> int \<Rightarrow> nat" where
  "bitcount_range value bit_range start stop =
     (if start < 0 \<and> stop < 0 \<and> stop < start then 0
      else let len = int (length value) * (if bit_range then 8 else 1);
               start = (if start < 0 then start + len else start);
               stop = (if stop < 0 then stop + len else stop);
               start = max start 0;
               stop = min (max stop 0) (len - 1)
           in if stop < start then 0
              else count_bits value (nat (if bit_range then start else start * 8))
                     (nat (if bit_range then stop else stop * 8 + 7)))"

definition handle_bitcount :: "env \<Rightarrow> store \<Rightarrow> args \<Rightarrow> store \<times> string" where
  "handle_bitcount env s args =
     (if length args \<noteq> 2 \<and> length args \<noteq> 4 \<and> length args \<noteq> 5 then (s, arity_error ''bitcount'')
      else case (if length args = 2 then Some (0, 2 ^ 63 - 1)
                 else case (parse_bit_index (args ! 2), parse_bit_index (args ! 3)) of
                   (Some start, Some stop) \<Rightarrow> Some (start, stop)
                 | _ \<Rightarrow> None) of
        None \<Rightarrow> (s, not_integer_error)
      | Some (start, stop) \<Rightarrow>
          if length args = 5 \<and> to_upper (args ! 4) \<noteq> ''BYTE'' \<and> to_upper (args ! 4) \<noteq> ''BIT''
          then (s, simple_error ''ERR syntax error'')
          else case wrong_string_type env s (args ! 1) of
            (s, True) \<Rightarrow> (s, wrong_type)
          | (s, False) \<Rightarrow>
              (s, to_bytes (Integer (case hget (Storage s) (args ! 1) of
                     None \<Rightarrow> 0
                   | Some value \<Rightarrow>
                       int (bitcount_range value (length args = 5 \<and> to_upper (args ! 4) = ''BIT'') start stop)))))"

section \<open>Combining\<close>

text \<open>Reading the source keys stops at the first one of the wrong type.\<close>

fun bitop_sources :: "env \<Rightarrow> store \<Rightarrow> string list \<Rightarrow> store \<times> string list option" where
  "bitop_sources env s [] = (s, Some [])"
| "bitop_sources env s (key # keys) =
     (case wrong_string_type env s key of
        (s, True) \<Rightarrow> (s, None)
      | (s, False) \<Rightarrow>
          (case bitop_sources env s keys of
             (s', rest) \<Rightarrow>
               (s', map_option ((#) (case hget (Storage s) key of None \<Rightarrow> [] | Some v \<Rightarrow> v)) rest)))"

definition bitop_byte :: "string \<Rightarrow> string list \<Rightarrow> nat \<Rightarrow> 32 word" where
  "bitop_byte operation sources i =
     fold (\<lambda>source b.
         let input = (if i < length source then of_char (source ! i) else 0)
         in if operation = ''AND'' then b AND input
            else if operation = ''OR'' then b OR input
            else if operation = ''XOR'' then b XOR input
            else input XOR 0xFF)
       sources (if operation = ''AND'' then 0xFF else 0)"

definition bitop_result :: "string \<Rightarrow> string list \<Rightarrow> string" where
  "bitop_result operation sources =
     map (\<lambda>i. char_of (unat (bitop_byte operation sources i)))
       [0..<fold (\<lambda>source n. max n (length source)) sources 0]"

definition store_result :: "string \<Rightarrow> string \<Rightarrow> store \<Rightarrow> store" where
  "store_result dest result s = s\<lparr>
     Storage := (if result = [] then herase dest (Storage s) else hput dest result (Storage s)),
     Expirations := herase dest (Expirations s),
     DynamicVector := herase dest (DynamicVector s),
     Streams := herase dest (Streams s),
     sorted_sets := herase dest (sorted_sets s)\<rparr>"

definition handle_bitop :: "env \<Rightarrow> store \<Rightarrow> args \<Rightarrow> store \<times> string" where
  "handle_bitop env s args =
     (if length args < 4 then (s, arity_error ''bitop'')
      else let operation = to_upper (args ! 1); dest = args ! 2
       in if operation \<notin> {''AND'', ''OR'', ''XOR'', ''NOT''} then (s, simple_error ''ERR syntax error'')
          else if operation = ''NOT'' \<and> length args \<noteq> 4
          then (s, simple_error ''ERR BITOP NOT must be called with a single source key.'')
          else case bitop_sources env s (drop 3 args) of
            (s, None) \<Rightarrow> (s, wrong_type)
          | (s, Some sources) \<Rightarrow>
              let result = bitop_result operation sources
              in (store_result dest result s, to_bytes (Integer (int (length result)))))"

section \<open>The bit sequence of a string\<close>

definition bit_at :: "string \<Rightarrow> nat \<Rightarrow> bool" where
  "bit_at v n \<longleftrightarrow> n div 8 < length v \<and> bit (byte (v ! (n div 8))) (7 - n mod 8)"

lemma low_bit: "(w :: 'a::len word) AND 1 = 1 \<longleftrightarrow> odd w"
  by (simp add: and_one_eq odd_iff_mod_2_eq_one)

lemma read_bit_at: "read_bit v n = bit_at v n"
  by (auto simp: read_bit_def bit_at_def low_bit bit_iff_odd_drop_bit Let_def not_le)

lemma mask_bit: "k < 8 \<Longrightarrow> bit (drop_bit k (0x80 :: 8 word)) j \<longleftrightarrow> j = 7 - k"
proof -
  assume "k < 8"
  have "(0x80 :: 8 word) = 2 ^ 7" by simp
  then have "bit (0x80 :: 8 word) (k + j) \<longleftrightarrow> k + j = 7" by (simp only: bit_exp_iff) auto
  with \<open>k < 8\<close> show ?thesis by (auto simp: bit_drop_bit_eq)
qed

lemma and_mask_bit: "k < 8 \<Longrightarrow> b AND drop_bit k (0x80 :: 8 word) \<noteq> 0 \<longleftrightarrow> bit b (7 - k)"
proof -
  assume k: "k < 8"
  have bits: "bit (b AND drop_bit k 0x80) j \<longleftrightarrow> bit b j \<and> j = 7 - k" for j
    using k by (simp add: bit_and_iff mask_bit)
  show ?thesis
  proof
    assume "b AND drop_bit k 0x80 \<noteq> 0"
    then obtain j where "bit (b AND drop_bit k 0x80) j" using bit_word_eqI [of "b AND drop_bit k 0x80" 0] by auto
    with bits show "bit b (7 - k)" by auto
  next
    assume "bit b (7 - k)"
    then have "bit (b AND drop_bit k 0x80) (7 - k)" by (simp add: bits)
    then show "b AND drop_bit k 0x80 \<noteq> 0" by auto
  qed
qed

lemma byte_of_nat: "byte c = of_nat (of_char c)"
  by (simp only: byte_def of_nat_of_char)

lemma byte_byte_char [simp]: "byte (byte_char w) = w"
proof -
  have "unat w mod 256 = unat w" using unsigned_less [of w, where 'a = nat] by simp
  then have "of_char (byte_char w) = unat w" by (simp add: byte_char_def)
  then show ?thesis by (simp add: byte_of_nat)
qed

lemma byte_char_byte [simp]: "byte_char (byte c) = c"
proof -
  have "unat (byte c) = of_char c"
    using of_char_less [of c] by (simp add: byte_of_nat unsigned_of_nat take_bit_nat_eq_self)
  then show ?thesis by (simp add: byte_char_def)
qed

lemma byte_zero [simp]: "byte (CHR 0x00) = 0"
  by (simp add: byte_def)

lemma length_resize [simp]: "length (resize n v) = n"
  by (simp add: resize_def)

lemma bit_at_resize: "length v \<le> n \<Longrightarrow> bit_at (resize n v) i = bit_at v i"
  by (auto simp: bit_at_def resize_def nth_append)

lemma length_write_bit [simp]:
  "length (fst (write_bit v n on)) = max (length v) (n div 8 + 1)"
  by (auto simp: write_bit_def Let_def)

lemma div8_mod8_eq: "i div 8 = n div 8 \<Longrightarrow> 7 - i mod 8 = 7 - n mod 8 \<Longrightarrow> i = (n :: nat)"
proof -
  assume d: "i div 8 = n div 8" "7 - i mod 8 = 7 - n mod 8"
  have "i mod 8 < 8" "n mod 8 < 8" by simp_all
  with d(2) have "i mod 8 = n mod 8" by linarith
  with d(1) show ?thesis by (metis div_mult_mod_eq)
qed

lemma write_bit_inside:
  assumes "n div 8 < length v"
  shows "snd (write_bit v n on) = bit_at v n"
    and "bit_at (fst (write_bit v n on)) i = (if i = n then on else bit_at v i)"
proof -
  have k: "n mod 8 < 8" by simp
  have w: "write_bit v n on = (v[n div 8 := byte_char (if on then byte (v ! (n div 8)) OR drop_bit (n mod 8) 0x80
      else byte (v ! (n div 8)) AND NOT (drop_bit (n mod 8) 0x80))],
      byte (v ! (n div 8)) AND drop_bit (n mod 8) 0x80 \<noteq> 0)"
    using assms by (simp add: write_bit_def Let_def)
  show "snd (write_bit v n on) = bit_at v n"
    using assms by (simp add: w and_mask_bit [OF k] bit_at_def)
  show "bit_at (fst (write_bit v n on)) i = (if i = n then on else bit_at v i)"
  proof (cases "i div 8 = n div 8")
    case True
    have "7 - i mod 8 < 8" by linarith
    then have "bit_at (fst (write_bit v n on)) i \<longleftrightarrow>
       (if 7 - i mod 8 = 7 - n mod 8 then on else bit (byte (v ! (n div 8))) (7 - i mod 8))"
      using assms True by (simp add: bit_at_def w bit_or_iff bit_and_iff bit_not_iff mask_bit [OF k])
    moreover have "7 - i mod 8 = 7 - n mod 8 \<longleftrightarrow> i = n"
      using div8_mod8_eq [OF True] by auto
    ultimately show ?thesis
      using assms True by (simp add: bit_at_def)
  next
    case False
    then show ?thesis using assms by (auto simp: bit_at_def w)
  qed
qed

lemma write_bit_grow:
  assumes "length v \<le> n div 8"
  shows "write_bit v n on = write_bit (resize (n div 8 + 1) v) n on"
  using assms by (simp add: write_bit_def Let_def)

lemma write_bit_spec:
  "snd (write_bit v n on) = bit_at v n"
  "bit_at (fst (write_bit v n on)) i = (if i = n then on else bit_at v i)"
  using write_bit_inside(1) [of n v on] write_bit_inside(2) [of n v on i] write_bit_grow [of v n on]
    write_bit_inside(1) [of n "resize (n div 8 + 1) v" on]
    write_bit_inside(2) [of n "resize (n div 8 + 1) v" on i]
  by (cases "n div 8 < length v"; simp add: bit_at_resize)+

section \<open>Bit arrays\<close>

text \<open>
  The contract of a growing bit array: a write returns the previous bit and changes one
  position. Any sequence of writes then leaves the last bit written at each position.
\<close>

locale bit_array =
  fixes get :: "'b \<Rightarrow> nat \<Rightarrow> bool"
    and put :: "'b \<Rightarrow> nat \<Rightarrow> bool \<Rightarrow> 'b \<times> bool"
  assumes put_previous: "snd (put v n on) = get v n"
    and get_put: "get (fst (put v n on)) i = (if i = n then on else get v i)"
begin

lemma get_writes:
  "get (fold (\<lambda>(n, on) v. fst (put v n on)) ws v) i
     = (case map_of (rev ws) i of Some on \<Rightarrow> on | None \<Rightarrow> get v i)"
  by (induction ws arbitrary: v) (auto simp: get_put map_add_def split: option.splits)

lemma put_put_previous: "snd (put (fst (put v n a)) m b) = (if m = n then a else get v m)"
  by (simp add: put_previous get_put)

end

interpretation ba: bit_array read_bit write_bit
  by unfold_locales (simp_all add: read_bit_at write_bit_spec)

section \<open>Counting\<close>

lemma bit_of_char_32: "bit (of_char c :: 32 word) j \<longleftrightarrow> bit (byte c) j"
  unfolding byte_def of_char_def bit_horner_sum_bit_word_iff by simp

lemma ff_mask: "(0xFF :: 32 word) = mask 8"
  by (simp add: mask_eq_exp_minus_1)

lemma bit_masked_byte:
  assumes "i < length v" "f div 8 \<le> i" "i \<le> l div 8"
  shows "bit (masked_byte v f l i) j \<longleftrightarrow>
     j < 8 \<and> bit_at v (8 * i + (7 - j)) \<and> f \<le> 8 * i + (7 - j) \<and> 8 * i + (7 - j) \<le> l"
proof (cases "j < 8")
  case False
  then have "\<not> bit (byte (v ! i)) j" using bit_imp_le_length [of "byte (v ! i)" j] by auto
  with False show ?thesis
    by (auto simp: masked_byte_def Let_def bit_and_iff bit_of_char_32)
next
  case True
  have f: "f = 8 * (f div 8) + f mod 8" "f mod 8 < 8" by simp_all
  have l: "l = 8 * (l div 8) + l mod 8" "l mod 8 < 8" by simp_all
  have lo: "(i = f div 8 \<longrightarrow> f mod 8 + j < 8) \<longleftrightarrow> f \<le> 8 * i + (7 - j)"
    using f assms(2) True by (cases "i = f div 8") linarith+
  have hi: "(i = l div 8 \<longrightarrow> 7 - l mod 8 \<le> j) \<longleftrightarrow> 8 * i + (7 - j) \<le> l"
    using l assms(3) True by (cases "i = l div 8") linarith+
  have at: "bit_at v (8 * i + (7 - j)) \<longleftrightarrow> bit (byte (v ! i)) j"
  proof -
    obtain k where "k < 8" "7 - j = k" "j = 7 - k" using True that [of "7 - j"] by simp
    with assms(1) show ?thesis unfolding bit_at_def \<open>7 - j = k\<close> by simp
  qed
  show ?thesis
    unfolding lo [symmetric] hi [symmetric] at masked_byte_def Let_def ff_mask
    using True
    by (auto simp: bit_and_iff bit_of_char_32 bit_drop_bit_eq bit_push_bit_iff bit_mask_iff)
qed

lemma popcount_card: "popcount w = card {j. bit w j}"
proof -
  have "{j. bit w j} = set (filter (bit w) [0..<32])"
    using bit_imp_le_length [of w] by auto
  then show ?thesis
    using distinct_card [of "filter (bit w) [0..<32]"] by (simp only: popcount_def distinct_filter distinct_upt)
qed

lemma octet_div: "k < 8 \<Longrightarrow> (8 * i + k) div 8 = (i :: nat)"
  by simp

lemma popcount_masked_byte:
  assumes "i < length v" "f div 8 \<le> i" "i \<le> l div 8"
  shows "popcount (masked_byte v f l i) = card {n. n div 8 = i \<and> f \<le> n \<and> n \<le> l \<and> bit_at v n}"
proof -
  let ?A = "{j. bit (masked_byte v f l i) j}" and ?B = "{n. n div 8 = i \<and> f \<le> n \<and> n \<le> l \<and> bit_at v n}"
  have "inj_on (\<lambda>j. 8 * i + (7 - j)) ?A"
    by (rule inj_onI) (auto simp: bit_masked_byte [OF assms])
  moreover have "(\<lambda>j. 8 * i + (7 - j)) ` ?A = ?B"
  proof (intro equalityI subsetI)
    fix n assume n: "n \<in> ?B"
    have "n = 8 * i + (7 - (7 - n mod 8))" using n by auto
    with n have "7 - n mod 8 \<in> ?A" by (simp add: bit_masked_byte [OF assms])
    with \<open>n = 8 * i + (7 - (7 - n mod 8))\<close> show "n \<in> (\<lambda>j. 8 * i + (7 - j)) ` ?A" by blast
  next
    fix n assume "n \<in> (\<lambda>j. 8 * i + (7 - j)) ` ?A"
    then obtain j where j: "n = 8 * i + (7 - j)" "bit (masked_byte v f l i) j" by blast
    have "n div 8 = i" unfolding j by (rule octet_div) simp
    moreover have "bit_at v n \<and> f \<le> n \<and> n \<le> l"
      using j(2) unfolding bit_masked_byte [OF assms] j(1) by blast
    ultimately show "n \<in> ?B" by blast
  qed
  ultimately have "card ?A = card ?B" using card_image [of "\<lambda>j. 8 * i + (7 - j)" ?A] by argo
  then show ?thesis by (simp only: popcount_card)
qed

lemma count_bits_card:
  assumes "l div 8 < length v" "f \<le> l"
  shows "count_bits v f l = card {n. f \<le> n \<and> n \<le> l \<and> bit_at v n}"
proof -
  let ?B = "\<lambda>i. {n. n div 8 = i \<and> f \<le> n \<and> n \<le> l \<and> bit_at v n}"
  have "count_bits v f l = (\<Sum>i = f div 8..l div 8. popcount (masked_byte v f l i))"
    unfolding count_bits_def by (simp add: interv_sum_list_conv_sum_set_nat atLeastLessThanSuc_atLeastAtMost del: upt_Suc)
  also have "\<dots> = (\<Sum>i = f div 8..l div 8. card (?B i))"
    using assms by (intro sum.cong) (auto intro: popcount_masked_byte)
  also have "\<dots> = card (\<Union>i \<in> {f div 8..l div 8}. ?B i)"
    by (rule card_UN_disjoint [symmetric]) auto
  also have "(\<Union>i \<in> {f div 8..l div 8}. ?B i) = {n. f \<le> n \<and> n \<le> l \<and> bit_at v n}"
    by (auto intro: div_le_mono)
  finally show ?thesis .
qed

text \<open>The window \<open>BITCOUNT\<close> counts in, as clamped integer bounds over \<open>units\<close> positions.\<close>

definition clamp_start :: "int \<Rightarrow> int \<Rightarrow> int" where
  "clamp_start len start = max (if start < 0 then start + len else start) 0"

definition clamp_stop :: "int \<Rightarrow> int \<Rightarrow> int" where
  "clamp_stop len stop = min (max (if stop < 0 then stop + len else stop) 0) (len - 1)"

lemma bitcount_range_bits:
  fixes v :: string
  assumes "\<not> (start < 0 \<and> stop < 0 \<and> stop < start)"
  defines "len \<equiv> int (length v) * 8"
  shows "bitcount_range v True start stop
     = card {n. clamp_start len start \<le> int n \<and> int n \<le> clamp_stop len stop \<and> bit_at v n}"
proof -
  let ?a = "clamp_start len start" and ?b = "clamp_stop len stop"
  have eq: "bitcount_range v True start stop = (if ?b < ?a then 0 else count_bits v (nat ?a) (nat ?b))"
    by (simp only: bitcount_range_def Let_def clamp_start_def clamp_stop_def assms(1) len_def if_True if_False)
  show ?thesis
  proof (cases "?b < ?a")
    case True
    then have "{n. ?a \<le> int n \<and> int n \<le> ?b \<and> bit_at v n} = {}" by auto
    with True show ?thesis by (simp only: eq card.empty if_True)
  next
    case False
    have "0 \<le> ?a" "?b < len" by (auto simp: clamp_start_def clamp_stop_def)
    with False have "nat ?b div 8 < length v" "nat ?a \<le> nat ?b"
      by (auto simp: len_def)
    moreover have "{n. ?a \<le> int n \<and> int n \<le> ?b \<and> bit_at v n} = {n. nat ?a \<le> n \<and> n \<le> nat ?b \<and> bit_at v n}"
      using \<open>0 \<le> ?a\<close> False by auto
    ultimately show ?thesis using False eq count_bits_card by simp
  qed
qed

lemma bitcount_range_bytes:
  fixes v :: string
  assumes "\<not> (start < 0 \<and> stop < 0 \<and> stop < start)"
  defines "len \<equiv> int (length v)"
  shows "bitcount_range v False start stop
     = card {n. clamp_start len start \<le> int (n div 8) \<and> int (n div 8) \<le> clamp_stop len stop \<and> bit_at v n}"
proof -
  let ?a = "clamp_start len start" and ?b = "clamp_stop len stop"
  have eq: "bitcount_range v False start stop
      = (if ?b < ?a then 0 else count_bits v (nat (?a * 8)) (nat (?b * 8 + 7)))"
    by (simp only: bitcount_range_def Let_def clamp_start_def clamp_stop_def assms(1) len_def mult_1_right
        simp_thms if_True if_False)
  show ?thesis
  proof (cases "?b < ?a")
    case True
    then have "{n. ?a \<le> int (n div 8) \<and> int (n div 8) \<le> ?b \<and> bit_at v n} = {}" by auto
    with True show ?thesis by (simp only: eq card.empty if_True)
  next
    case False
    have a: "0 \<le> ?a" "?b < len" by (auto simp: clamp_start_def clamp_stop_def)
    with False have "nat (?b * 8 + 7) div 8 < length v" "nat (?a * 8) \<le> nat (?b * 8 + 7)"
      by (auto simp: len_def)
    moreover have "?a \<le> int (n div 8) \<longleftrightarrow> nat (?a * 8) \<le> n" for n using a by linarith
    moreover have "int (n div 8) \<le> ?b \<longleftrightarrow> n \<le> nat (?b * 8 + 7)" for n using a False by linarith
    ultimately show ?thesis using False eq count_bits_card by simp
  qed
qed

section \<open>Combining\<close>

definition bitop_bit :: "string \<Rightarrow> bool list \<Rightarrow> bool" where
  "bitop_bit operation bs =
     (if operation = ''AND'' then list_all id bs
      else if operation = ''OR'' then list_ex id bs
      else if operation = ''XOR'' then odd (length (filter id bs))
      else \<not> last bs)"

definition source_byte :: "nat \<Rightarrow> string \<Rightarrow> 32 word" where
  "source_byte i source = (if i < length source then of_char (source ! i) else 0)"

lemma bit_source_byte: "j < 8 \<Longrightarrow> bit (source_byte i v) j \<longleftrightarrow> bit_at v (8 * i + (7 - j))"
proof -
  assume "j < 8"
  then obtain k where "k < 8" "7 - j = k" "j = 7 - k" using that [of "7 - j"] by simp
  then show ?thesis by (simp add: source_byte_def bit_at_def bit_of_char_32)
qed

lemma bitop_byte_bit:
  assumes "j < 8" "sources \<noteq> []"
  shows "bit (bitop_byte operation sources i) j
     \<longleftrightarrow> bitop_bit operation (map (\<lambda>v. bit_at v (8 * i + (7 - j))) sources)"
proof -
  have ff: "bit (0xFF :: 32 word) j" using assms(1) by (simp add: ff_mask bit_mask_iff)
  have A: "bit (fold (\<lambda>v b. b AND source_byte i v) vs b) j
      \<longleftrightarrow> bit b j \<and> (\<forall>v\<in>set vs. bit (source_byte i v) j)" for vs b
    by (induction vs arbitrary: b) (auto simp: bit_and_iff)
  have O: "bit (fold (\<lambda>v b. b OR source_byte i v) vs b) j
      \<longleftrightarrow> bit b j \<or> (\<exists>v\<in>set vs. bit (source_byte i v) j)" for vs b
    by (induction vs arbitrary: b) (auto simp: bit_or_iff)
  have X: "bit (fold (\<lambda>v b. b XOR source_byte i v) vs b) j
      \<longleftrightarrow> odd (of_bool (bit b j) + length (filter (\<lambda>v. bit (source_byte i v) j) vs))" for vs b
    by (induction vs arbitrary: b) (auto simp: bit_xor_iff)
  have N: "fold (\<lambda>v b. source_byte i v XOR 0xFF) vs b = source_byte i (last vs) XOR 0xFF"
    if "vs \<noteq> []" for vs b
    using that by (induction vs arbitrary: b) auto
  show ?thesis
    using assms ff
    by (auto simp: bitop_bit_def bitop_byte_def A O X N source_byte_def [symmetric] Let_def bit_xor_iff bit_source_byte
        list_all_iff list_ex_iff filter_map o_def last_map)
qed

lemma bitop_byte_char:
  assumes "j < 8" "sources \<noteq> []"
  shows "bit (byte (char_of (unat (bitop_byte operation sources i)))) j
     \<longleftrightarrow> bitop_bit operation (map (\<lambda>v. bit_at v (8 * i + (7 - j))) sources)"
proof -
  let ?w = "bitop_byte operation sources i"
  have "of_char (char_of (unat ?w) :: char) = (take_bit 8 (unat ?w) :: nat)"
    by (simp add: take_bit_eq_mod)
  then have "byte (char_of (unat ?w)) = of_nat (take_bit 8 (unat ?w))"
    by (simp only: byte_of_nat)
  then have "bit (byte (char_of (unat ?w))) j \<longleftrightarrow> bit ?w j"
    using assms(1) by (simp add: bit_of_nat_iff Bit_Operations.bit_take_bit_iff bit_unsigned_iff possible_bit_word)
  then show ?thesis using bitop_byte_bit [OF assms] by simp
qed

lemma length_bitop_result: "length (bitop_result operation sources) = foldr max (map length sources) 0"
proof -
  have "fold (\<lambda>source n. max n (length source)) vs n = max n (foldr max (map length vs) 0)" for vs :: "string list" and n
    by (induction vs arbitrary: n) auto
  then show ?thesis by (simp add: bitop_result_def)
qed

lemma bit_at_bitop_result:
  assumes "sources \<noteq> []" "n div 8 < length (bitop_result operation sources)"
  shows "bit_at (bitop_result operation sources) n = bitop_bit operation (map (\<lambda>v. bit_at v n) sources)"
proof -
  have "n = 8 * (n div 8) + (7 - (7 - n mod 8))" by simp
  moreover have "7 - n mod 8 < 8" by linarith
  ultimately show ?thesis
    using bitop_byte_char [of "7 - n mod 8" sources operation "n div 8"] assms
    by (simp add: bit_at_def [of "bitop_result operation sources"]) (simp add: bitop_result_def)
qed

section \<open>The handlers keep the store well-formed\<close>

lemma bitop_sources_eq:
  "\<exists>ks. fst (bitop_sources env s keys) = reap_all env ks s"
proof (induction keys arbitrary: s)
  case Nil
  then show ?case by (metis bitop_sources.simps(1) fst_conv reap_all_simps(1))
next
  case (Cons k keys)
  obtain ks where "fst (bitop_sources env (reap env s k) keys) = reap_all env ks (reap env s k)"
    using Cons by blast
  then have "fst (bitop_sources env s (k # keys)) = reap_all env [k] s
      \<or> fst (bitop_sources env s (k # keys)) = reap_all env (k # ks) s"
    by (auto simp: wrong_string_type_eq split: prod.split bool.split)
  then show ?case by blast
qed

lemma put_string_wf: "store_wf s \<Longrightarrow> store_wf (s\<lparr>Storage := hput k v (Storage s)\<rparr>)"
  by (auto simp: store_wf_defs)

lemma handle_setbit_wf: "store_wf s \<Longrightarrow> store_wf (fst (handle_setbit env s args))"
  by (simp add: handle_setbit_def wrong_string_type_eq put_string_wf reap_wf
      split: option.split bool.split prod.split)

lemma handle_bitop_wf: "store_wf s \<Longrightarrow> store_wf (fst (handle_bitop env s args))"
proof -
  assume wf: "store_wf s"
  obtain s' r where sr: "bitop_sources env s (drop 3 args) = (s', r)" by fastforce
  then have "store_wf s'" using bitop_sources_eq [of env s "drop 3 args"] reap_all_wf [OF wf] by auto
  then show ?thesis
    using wf sr by (auto simp: handle_bitop_def Let_def store_result_def store_wf_defs split: option.split)
qed

interpretation setbit_h: wf_handler handle_setbit
  by unfold_locales (rule handle_setbit_wf)

interpretation bitop_h: wf_handler handle_bitop
  by unfold_locales (rule handle_bitop_wf)

interpretation getbit_h: reading_handler handle_getbit
proof unfold_locales
  fix env s args
  have "fst (handle_getbit env s args) = s \<or> fst (handle_getbit env s args) = reap_all env [args ! 1] s"
    by (simp add: handle_getbit_def wrong_string_type_eq split: bool.split option.split)
  then show "\<exists>ks. fst (handle_getbit env s args) = reap_all env ks s"
    by (metis reap_all_simps(1))
qed

interpretation bitcount_h: reading_handler handle_bitcount
proof unfold_locales
  fix env s args
  have "fst (handle_bitcount env s args) = s \<or> fst (handle_bitcount env s args) = reap_all env [args ! 1] s"
    by (simp add: handle_bitcount_def wrong_string_type_eq split: bool.split option.split prod.split)
  then show "\<exists>ks. fst (handle_bitcount env s args) = reap_all env ks s"
    by (metis reap_all_simps(1))
qed

section \<open>Properties\<close>

lemma parse_offset_to_string: "n < 2 ^ 32 \<Longrightarrow> parse_offset (to_string_nat n) = Some n"
  by (simp add: parse_offset_def whole_u64_to_string u64_modulus_def)

lemma parse_bit_index_to_string:
  "- (2 ^ 63) \<le> i \<Longrightarrow> i < 2 ^ 63 \<Longrightarrow> parse_bit_index (to_string_int i) = Some i"
  by (simp add: parse_bit_index_def whole_s64_to_string)

definition setbit_args :: "string \<Rightarrow> nat \<times> bool \<Rightarrow> args" where
  "setbit_args k w = [''SETBIT'', k, to_string_nat (fst w), if snd w then ''1'' else ''0'']"

lemma handle_setbit_valid:
  assumes "n < 2 ^ 32" "holds_string env s k"
  shows "handle_setbit env s (setbit_args k (n, on))
     = ((reap env s k)\<lparr>Storage := hput k (fst (write_bit (string_at env s k) n on)) (Storage (reap env s k))\<rparr>,
        to_bytes (Integer (of_bool (bit_at (string_at env s k) n))))"
  using assms
  by (cases on) (simp_all add: handle_setbit_def setbit_args_def parse_offset_to_string
      wrong_string_type_holds string_at_storage write_bit_spec(1) case_prod_beta
      del: hget_Storage_reap)

lemma handle_getbit_valid:
  assumes "n < 2 ^ 32" "holds_string env s k"
  shows "handle_getbit env s [cmd, k, to_string_nat n]
     = (reap env s k, to_bytes (Integer (of_bool (bit_at (string_at env s k) n))))"
proof -
  have "(case hget (Storage (reap env s k)) k of None \<Rightarrow> to_bytes (Integer 0)
      | Some v \<Rightarrow> to_bytes (Integer (of_bool (read_bit v n))))
      = to_bytes (Integer (of_bool (bit_at (string_at env s k) n)))"
    unfolding string_at_storage [symmetric] by (simp add: read_bit_at bit_at_def split: option.split)
  then show ?thesis
    using assms by (simp add: handle_getbit_def parse_offset_to_string wrong_string_type_holds)
qed

lemma setbit_step:
  fixes on :: bool
  assumes "n < 2 ^ 32" "holds_string env s k" "typed_ok s" "store_wf s"
  defines "s' \<equiv> fst (handle_setbit env s (setbit_args k (n, on)))"
  shows "view env s' = (view env s)(k \<mapsto> VString (fst (write_bit (string_at env s k) n on)))"
    and "typed_ok s'" and "store_wf s'"
  using assms handle_setbit_valid [OF assms(1,2), of on] view_put_string_reap [OF assms(3,4)]
    typed_put_string [OF assms(3,4,2)] put_string_wf [OF reap_wf [OF assms(4)]]
  by simp_all

text \<open>The clock moves from command to command. What a \<open>SETBIT\<close> at one time means at another.\<close>

lemma setbit_later:
  fixes on :: bool
  assumes "n < 2 ^ 32" "holds_string env s k"
  defines "s' \<equiv> fst (handle_setbit env s (setbit_args k (n, on)))"
  shows "dead env' s' k \<longleftrightarrow> \<not> dead env s k \<and> dead env' s k"
    and "k' \<noteq> k \<Longrightarrow> view env' s' k' = view env' s k'"
    and "\<not> dead env' s' k \<Longrightarrow> view env' s' k = Some (VString (fst (write_bit (string_at env s k) n on)))"
proof -
  let ?v = "fst (write_bit (string_at env s k) n on)"
  have s': "s' = (reap env s k)\<lparr>Storage := hput k ?v (Storage (reap env s k))\<rparr>"
    using handle_setbit_valid [OF assms(1,2), of on] by (simp add: s'_def)
  show "dead env' s' k \<longleftrightarrow> \<not> dead env s k \<and> dead env' s k"
    by (auto simp: s' dead_def reap_def)
  have "DynamicVector s' = DynamicVector s" "Streams s' = Streams s" "sorted_sets s' = sorted_sets s"
    by (simp_all add: s' reap_def)
  moreover have "dead env' s' k' = dead env' s k'" "hget (Storage s') k' = hget (Storage s) k'" if "k' \<noteq> k"
    using that by (simp_all add: s' dead_def reap_def)
  ultimately show "k' \<noteq> k \<Longrightarrow> view env' s' k' = view env' s k'"
    by (simp add: view_def cong: option.case_cong)
  show "\<not> dead env' s' k \<Longrightarrow> view env' s' k = Some (VString ?v)"
    by (simp add: s' view_def)
qed

definition setbits :: "string \<Rightarrow> (env \<times> nat \<times> bool) list \<Rightarrow> store \<Rightarrow> store" where
  "setbits k ws s = fold (\<lambda>(env, w) s. fst (handle_setbit env s (setbit_args k w))) ws s"

lemma setbits_simps [simp]:
  "setbits k [] s = s" "setbits k ((env, w) # ws) s = setbits k ws (fst (handle_setbit env s (setbit_args k w)))"
  by (simp_all add: setbits_def)

lemma same_view_at:
  assumes "dead env' s k = dead env s k"
  shows "string_at env' s k = string_at env s k" "holds_string env' s k = holds_string env s k"
  using assms by (simp_all add: string_at_def holds_string_def view_def)

lemma setbits_steps:
  assumes "typed_ok s" "store_wf s" "holds_string env s k"
    and "list_all (\<lambda>(env', n, on). n < 2 ^ 32 \<and> dead env' s k = dead env s k) ws"
  shows "string_at env (setbits k ws s) k = fold (\<lambda>(n, on) v. fst (write_bit v n on)) (map snd ws) (string_at env s k)
     \<and> holds_string env (setbits k ws s) k \<and> typed_ok (setbits k ws s) \<and> store_wf (setbits k ws s)
     \<and> (\<forall>k'. k' \<noteq> k \<longrightarrow> view env (setbits k ws s) k' = view env s k')"
  using assms
proof (induction ws arbitrary: s)
  case (Cons w ws)
  obtain e n on where w: "w = (e, n, on)" by (metis prod_cases3)
  have n: "n < 2 ^ 32" and d: "dead e s k = dead env s k" using Cons.prems(4) w by auto
  have h: "holds_string e s k" using Cons.prems(3) same_view_at(2) [OF d] by simp
  let ?t = "fst (handle_setbit e s (setbit_args k (n, on)))"
  note later = setbit_later [OF n h, where on = on]
  have ok: "typed_ok ?t" "store_wf ?t" using setbit_step(2,3) [OF n h Cons.prems(1,2)] by simp_all
  have alive: "\<not> dead e' ?t k" if "dead e' s k = dead env s k" for e' using later(1) that d by simp
  then have "view env ?t k = Some (VString (fst (write_bit (string_at env s k) n on)))"
    using later(3) [of env] same_view_at(1) [OF d] by simp
  then have at: "string_at env ?t k = fst (write_bit (string_at env s k) n on)" "holds_string env ?t k"
    by (simp_all add: string_at_def [of _ ?t] holds_string_def)
  have "list_all (\<lambda>(env', n, on). n < 2 ^ 32 \<and> dead env' ?t k = dead env ?t k) ws"
    using Cons.prems(4) alive by (auto simp: list_all_iff)
  from Cons.IH [OF ok at(2) this] at later(2) [of _ env] show ?case by (simp add: w)
qed simp

lemma length_write_bits:
  "length (fold (\<lambda>(n, on) v. fst (write_bit v n on)) ws v) = fold (\<lambda>(n, on) l. max l (n div 8 + 1)) ws (length v)"
  by (induction ws arbitrary: v) (auto simp: length_write_bit)

text \<open>C9: After any sequence of \<open>SETBIT\<close> commands on a key that holds a string or nothing, each at its
  own time, where no deadline of the key passes meanwhile, \<open>GETBIT\<close> at any offset below
  \<open>2 ^ 32\<close> answers the bit written last there, and the bit the string had before when none was
  written. The string has grown to the last byte written and no further, the other keys are as
  they were, and the store is well-formed and typed.\<close>

theorem getbit_after_setbits:
  assumes "typed_ok s" "store_wf s" "holds_string env s k"
    and "list_all (\<lambda>(env', n, on). n < 2 ^ 32 \<and> dead env' s k = dead env s k) ws" "i < 2 ^ 32"
  shows "snd (handle_getbit env (setbits k ws s) [''GETBIT'', k, to_string_nat i])
       = to_bytes (Integer (of_bool
           (case map_of (rev (map snd ws)) i of Some on \<Rightarrow> on | None \<Rightarrow> bit_at (string_at env s k) i)))
     \<and> length (string_at env (setbits k ws s) k) = fold (\<lambda>(_, n, _) l. max l (n div 8 + 1)) ws (length (string_at env s k))
     \<and> (\<forall>k'. k' \<noteq> k \<longrightarrow> view env (setbits k ws s) k' = view env s k')
     \<and> typed_ok (setbits k ws s) \<and> store_wf (setbits k ws s)"
proof -
  note steps = setbits_steps [OF assms(1-4)]
  have "fold (\<lambda>(n, on) l. max l (n div 8 + 1)) (map snd ws) l = fold (\<lambda>(_, n, _) l. max l (n div 8 + 1)) ws l" for l
    by (induction ws arbitrary: l) auto
  then have "length (string_at env (setbits k ws s) k) = fold (\<lambda>(_, n, _) l. max l (n div 8 + 1)) ws (length (string_at env s k))"
    using steps length_write_bits [of "map snd ws" "string_at env s k"] by simp
  moreover have "snd (handle_getbit env (setbits k ws s) [''GETBIT'', k, to_string_nat i])
       = to_bytes (Integer (of_bool
           (case map_of (rev (map snd ws)) i of Some on \<Rightarrow> on | None \<Rightarrow> bit_at (string_at env s k) i)))"
    using handle_getbit_valid [OF assms(5), of env "setbits k ws s" k "''GETBIT''"] steps
      ba.get_writes [of "map snd ws" "string_at env s k" i, unfolded read_bit_at] by simp
  ultimately show ?thesis using steps by blast
qed

text \<open>A store with one string key, for concrete instances.\<close>

definition sample_string_store :: store where
  "sample_string_store = new_store\<lparr>Storage := [(''k'', ''a'')]\<rparr>"

lemma sample_string_store_ok:
  "typed_ok sample_string_store" "store_wf sample_string_store"
  "holds_string sample_env sample_string_store ''k''"
  by (simp_all add: sample_string_store_def typed_ok_def store_wf_defs new_store_def hcontains_def
      hget_def hmap_ok_def holds_string_def view_def dead_def)

lemma sample_string_at: "string_at sample_env sample_string_store ''k'' = ''a''"
  by (simp add: string_at_def view_def dead_def sample_string_store_def new_store_def hget_def)

theorem getbit_after_setbits_witness:
  "snd (handle_getbit sample_env
          (setbits ''k'' [(sample_env, 7, False), (sample_env\<lparr>steady_now := 9\<rparr>, 20, True)] sample_string_store)
          [''GETBIT'', ''k'', to_string_nat 20]) = to_bytes (Integer 1)
   \<and> length (string_at sample_env
          (setbits ''k'' [(sample_env, 7, False), (sample_env\<lparr>steady_now := 9\<rparr>, 20, True)] sample_string_store) ''k'') = 3"
proof -
  have "dead env sample_string_store ''k'' = False" for env
    by (simp add: dead_def sample_string_store_def new_store_def hget_def)
  then show ?thesis
    using getbit_after_setbits [OF sample_string_store_ok, of "[(sample_env, 7, False), (sample_env\<lparr>steady_now := 9\<rparr>, 20, True)]" 20]
    by (simp add: sample_string_at)
qed

text \<open>C24: \<open>BITCOUNT key start end BYTE|BIT\<close> answers the number of set bits of the string
  whose position (byte index, or bit index) lies between the two bounds, negative bounds
  counting from the end and bounds beyond the string being cut off; two negative bounds in
  the wrong order count nothing.\<close>

theorem bitcount_counts_window:
  assumes "holds_string env s k" "to_upper unit \<in> {''BYTE'', ''BIT''}"
    and "- (2 ^ 63) \<le> a" "a < 2 ^ 63" "- (2 ^ 63) \<le> b" "b < 2 ^ 63"
  defines "v \<equiv> string_at env s k"
    and "len \<equiv> int (length (string_at env s k)) * (if to_upper unit = ''BIT'' then 8 else 1)"
    and "pos \<equiv> \<lambda>n :: nat. if to_upper unit = ''BIT'' then int n else int (n div 8)"
  shows "handle_bitcount env s [cmd, k, to_string_int a, to_string_int b, unit]
     = (reap env s k, to_bytes (Integer
         (if a < 0 \<and> b < 0 \<and> b < a then 0
          else int (card {n. clamp_start len a \<le> pos n \<and> pos n \<le> clamp_stop len b \<and> bit_at v n}))))"
proof -
  let ?u = "to_upper unit = ''BIT''"
  have empty: "bitcount_range [] u a b = 0" for u
    by (auto simp: bitcount_range_def Let_def)
  have "(case hget (Storage (reap env s k)) k of None \<Rightarrow> 0 | Some v \<Rightarrow> int (bitcount_range v ?u a b))
      = int (bitcount_range v ?u a b)"
    unfolding v_def string_at_storage [symmetric] by (simp add: empty split: option.split)
  then have "handle_bitcount env s [cmd, k, to_string_int a, to_string_int b, unit]
      = (reap env s k, to_bytes (Integer (int (bitcount_range v ?u a b))))"
    using assms(1-6) by (auto simp: handle_bitcount_def parse_bit_index_to_string wrong_string_type_holds
        simp del: hget_Storage_reap cong: option.case_cong)
  moreover have "bitcount_range v ?u a b = (if a < 0 \<and> b < 0 \<and> b < a then 0
      else card {n. clamp_start len a \<le> pos n \<and> pos n \<le> clamp_stop len b \<and> bit_at v n})"
  proof (cases "a < 0 \<and> b < 0 \<and> b < a")
    case True
    then show ?thesis by (simp add: bitcount_range_def)
  next
    case False
    show ?thesis
      unfolding if_not_P [OF False]
      using bitcount_range_bits [OF False, of v] bitcount_range_bytes [OF False, of v]
      by (cases ?u) (simp_all add: len_def pos_def v_def)
  qed
  ultimately show ?thesis by simp
qed

theorem bitcount_counts_window_witness:
  "handle_bitcount sample_env sample_string_store [''BITCOUNT'', ''k'', to_string_int (-3), to_string_int (-1), ''bit'']
     = (sample_string_store, to_bytes (Integer 1))"
proof -
  have "n = 5 \<or> n = 6 \<or> n = 7" if "5 \<le> int n" "int n \<le> 7" for n using that by auto
  moreover have "\<not> bit_at ''a'' 5" "\<not> bit_at ''a'' 6" "bit_at ''a'' 7"
    by (simp_all add: bit_at_def byte_def)
  ultimately have "{n :: nat. 5 \<le> int n \<and> int n \<le> 7 \<and> bit_at ''a'' n} = {7}" by fastforce
  moreover have "reap sample_env sample_string_store ''k'' = sample_string_store"
    by (simp add: reap_def dead_def sample_string_store_def new_store_def)
  moreover have "to_upper ''bit'' = ''BIT''" by code_simp
  ultimately show ?thesis
    using bitcount_counts_window [OF sample_string_store_ok(3), of "''bit''" "-3" "-1" "''BITCOUNT''"]
    by (simp add: sample_string_at clamp_start_def clamp_stop_def)
qed

lemma bitop_sources_strings:
  assumes "typed_ok s" "store_wf s" "\<forall>k \<in> set keys. holds_string env s k"
  shows "snd (bitop_sources env s keys) = Some (map (string_at env s) keys)"
  using assms
proof (induction keys arbitrary: s)
  case (Cons k keys)
  have v: "view env (reap env s k) = view env s"
    using Cons.prems view_reap store_wf_expiry by blast
  then have "holds_string env (reap env s k) = holds_string env s"
      "string_at env (reap env s k) = string_at env s"
    by (simp_all add: fun_eq_iff holds_string_def string_at_def)
  with Cons.prems show ?case
    using Cons.IH [of "reap env s k"] reap_typed [OF Cons.prems(1)] reap_wf [OF Cons.prems(2)]
    by (simp add: wrong_string_type_holds case_prod_beta string_at_storage del: hget_Storage_reap)
qed simp

lemma view_store_result:
  "view env (store_result k r s) = (view env s)(k := (if r = [] then None else Some (VString r)))"
proof
  fix k'
  have "dead env (store_result k r s) k' \<longleftrightarrow> k' \<noteq> k \<and> dead env s k'"
    by (auto simp: dead_def store_result_def)
  then show "view env (store_result k r s) k'
      = ((view env s)(k := (if r = [] then None else Some (VString r)))) k'"
    by (simp add: view_def store_result_def split: option.split)
qed

lemma handle_bitop_valid:
  assumes "to_upper op \<in> {''AND'', ''OR'', ''XOR''} \<or> (to_upper op = ''NOT'' \<and> ks = [])"
    and "bitop_sources env s (k # ks) = (t, Some sources)"
  shows "handle_bitop env s ([cmd, op, dest] @ k # ks)
     = (store_result dest (bitop_result (to_upper op) sources) t,
        to_bytes (Integer (int (length (bitop_result (to_upper op) sources)))))"
  using assms by (auto simp: handle_bitop_def Let_def numeral_3_eq_3 simp del: bitop_sources.simps)

text \<open>C23: \<open>BITOP op dest src ...\<close> on keys that hold strings (or nothing) leaves at \<open>dest\<close> the
  string, as long as the longest source, each bit of which is the operation applied to the
  sources' bits at that position (a source that has ended contributes zeros); an empty
  result removes \<open>dest\<close>. No other key changes, and the reply is the length.\<close>

theorem bitop_computes_bitwise:
  assumes "typed_ok s" "store_wf s" "\<forall>k \<in> set (k # ks). holds_string env s k"
    and "to_upper op \<in> {''AND'', ''OR'', ''XOR''} \<or> (to_upper op = ''NOT'' \<and> ks = [])"
  defines "sources \<equiv> map (string_at env s) (k # ks)"
  shows "\<exists>s' r. handle_bitop env s ([cmd, op, dest] @ k # ks) = (s', to_bytes (Integer (int (length r))))
     \<and> length r = foldr max (map length sources) 0
     \<and> (\<forall>n < 8 * length r. bit_at r n = bitop_bit (to_upper op) (map (\<lambda>v. bit_at v n) sources))
     \<and> view env s' = (view env s)(dest := if r = [] then None else Some (VString r))"
proof -
  let ?r = "bitop_result (to_upper op) sources"
  obtain t where t: "bitop_sources env s (k # ks) = (t, Some sources)"
    using bitop_sources_strings [OF assms(1-3)] by (metis prod.collapse sources_def)
  then obtain rs where "t = reap_all env rs s" using bitop_sources_eq [of env s "k # ks"] by auto
  then have vt: "view env t = view env s" using view_reap_all assms(1,2) by simp
  have "bit_at ?r n = bitop_bit (to_upper op) (map (\<lambda>v. bit_at v n) sources)" if "n < 8 * length ?r" for n
    using bit_at_bitop_result [of sources n] that by (simp add: sources_def less_mult_imp_div_less mult.commute)
  then show ?thesis
    using handle_bitop_valid [OF assms(4) t, of cmd dest] view_store_result [of env dest ?r t]
      length_bitop_result [of "to_upper op" sources] unfolding vt by metis
qed

theorem bitop_computes_bitwise_witness:
  "\<exists>s' r. handle_bitop sample_env sample_string_store [''BITOP'', ''xor'', ''d'', ''k'', ''q'']
       = (s', to_bytes (Integer (int (length r)))) \<and> length r = 1
     \<and> view sample_env s' = (view sample_env sample_string_store)(''d'' := if r = [] then None else Some (VString r))"
proof -
  have "holds_string sample_env sample_string_store ''q''" "string_at sample_env sample_string_store ''q'' = []"
    by (simp_all add: holds_string_def string_at_def view_def dead_def sample_string_store_def new_store_def hget_def)
  moreover have "to_upper ''xor'' = ''XOR''" by code_simp
  ultimately show ?thesis
    using sample_string_store_ok sample_string_at
      bitop_computes_bitwise [of sample_string_store "''k''" "[''q'']" sample_env "''xor''" "''BITOP''" "''d''"]
    by (simp del: fun_upd_apply split del: if_split) metis
qed

end
