(* ===== verification/Sorted_Sets.thy ===== *)
theory Sorted_Sets
  imports Keyspace
begin

text \<open>
  The sorted-set commands of \<open>src/src/store/sorted_sets.cpp\<close>: the two indexes of
  \<open>Store::SortedSet\<close> (score by member, and the set of score-member pairs in order),
  \<open>ZADD\<close>, \<open>ZRANK\<close>, \<open>ZRANGE\<close>, \<open>ZCARD\<close>, \<open>ZSCORE\<close> and \<open>ZREM\<close>. The contract
  \<open>score_index\<close> says what clients rely on: the ordered index is determined by the scores.
\<close>

section \<open>Parsing and printing scores\<close>

definition parse_score :: "env \<Rightarrow> string \<Rightarrow> double option" where
  "parse_score env text =
     (if text = [] \<or> is_space (hd text) then None
      else case stod env text of
        None \<Rightarrow> None
      | Some (score, consumed) \<Rightarrow>
          if consumed = length text \<and> \<not> isnan score then Some score else None)"

definition format_score :: "env \<Rightarrow> double \<Rightarrow> string res" where
  "format_score env score =
     (if dbl_eq score (Fin 0) then Inr ''0''
      else if isinf score then Inr (if dbl_less score (Fin 0) then ''-inf'' else ''inf'')
      else case to_chars env score of
        None \<Rightarrow> Inl (RuntimeError ''Failed to format sorted set score'')
      | Some text \<Rightarrow> Inr text)"

section \<open>The set\<close>

definition zset_empty :: SortedSet where
  "zset_empty = \<lparr>scores = [], ordered = []\<rparr>"

definition zset_add :: "double \<Rightarrow> string \<Rightarrow> SortedSet \<Rightarrow> SortedSet \<times> bool" where
  "zset_add score member z =
     (case hget (scores z) member of
        None \<Rightarrow>
          (z\<lparr>scores := hput member score (scores z), ordered := oset_insert (score, member) (ordered z)\<rparr>, True)
      | Some old \<Rightarrow>
          (z\<lparr>scores := hput member score (scores z),
             ordered := oset_insert (score, member) (oset_erase (old, member) (ordered z))\<rparr>, False))"

text \<open>One step of the loop of \<open>handle_zrem\<close>.\<close>

definition zset_remove :: "string \<Rightarrow> SortedSet \<Rightarrow> SortedSet \<times> bool" where
  "zset_remove member z =
     (case hget (scores z) member of
        None \<Rightarrow> (z, False)
      | Some old \<Rightarrow>
          (z\<lparr>ordered := oset_erase (old, member) (ordered z), scores := herase member (scores z)\<rparr>, True))"

section \<open>Handlers\<close>

definition float_error :: string where
  "float_error = simple_error ''ERR value is not a valid float''"

definition syntax_error :: string where
  "syntax_error = simple_error ''ERR syntax error''"

fun parse_entries :: "env \<Rightarrow> string list \<Rightarrow> (double \<times> string) list option" where
  "parse_entries env (text # member # rest) =
     (case parse_score env text of
        None \<Rightarrow> None
      | Some score \<Rightarrow> map_option ((#) (score, member)) (parse_entries env rest))"
| "parse_entries env _ = Some []"

fun add_entries :: "(double \<times> string) list \<Rightarrow> SortedSet \<Rightarrow> SortedSet \<times> int" where
  "add_entries [] z = (z, 0)"
| "add_entries ((score, member) # es) z =
     (case zset_add score member z of
        (z, inserted) \<Rightarrow> (case add_entries es z of (z, added) \<Rightarrow> (z, of_bool inserted + added)))"

definition zset_at :: "store \<Rightarrow> string \<Rightarrow> SortedSet" where
  "zset_at s key = (case hget (sorted_sets s) key of None \<Rightarrow> zset_empty | Some z \<Rightarrow> z)"

definition handle_zadd :: "env \<Rightarrow> store \<Rightarrow> args \<Rightarrow> store \<times> string" where
  "handle_zadd env s args =
     (if length args < 4 \<or> length args mod 2 \<noteq> 0 then (s, arity_error ''zadd'')
      else case parse_entries env (drop 2 args) of
        None \<Rightarrow> (s, float_error)
      | Some pairs \<Rightarrow>
          (case wrong_sorted_set_type env s (args ! 1) of
             (s, True) \<Rightarrow> (s, wrong_type)
           | (s, False) \<Rightarrow>
               (case add_entries pairs (zset_at s (args ! 1)) of
                  (z, added) \<Rightarrow>
                    (s\<lparr>sorted_sets := hput (args ! 1) z (sorted_sets s)\<rparr>, to_bytes (Integer added)))))"

text \<open>\<open>std::distance(begin, find(p))\<close>.\<close>

definition zset_position :: "double \<times> string \<Rightarrow> SortedSet \<Rightarrow> nat" where
  "zset_position p z = length (takeWhile (\<lambda>q. q \<noteq> p) (ordered z))"

definition handle_zrank :: "env \<Rightarrow> store \<Rightarrow> args \<Rightarrow> store \<times> string" where
  "handle_zrank env s args =
     (if length args \<noteq> 3 then (s, arity_error ''zrank'')
      else case wrong_sorted_set_type env s (args ! 1) of
        (s, True) \<Rightarrow> (s, wrong_type)
      | (s, False) \<Rightarrow>
          (s, case hget (sorted_sets s) (args ! 1) of
                None \<Rightarrow> to_bytes NullBulkString
              | Some z \<Rightarrow>
                  (case hget (scores z) (args ! 2) of
                     None \<Rightarrow> to_bytes NullBulkString
                   | Some score \<Rightarrow> to_bytes (Integer (int (zset_position (score, args ! 2) z))))))"

text \<open>The index arithmetic of \<open>ZRANGE\<close> on the ordered pairs.\<close>

definition zrange_slice :: "'a list \<Rightarrow> int \<Rightarrow> int \<Rightarrow> 'a list" where
  "zrange_slice xs start stop =
     (let size = int (length xs);
          start = (if start < 0 then start + size else start);
          stop = (if stop < 0 then stop + size else stop);
          start = max start 0;
          stop = min stop (size - 1)
      in if stop < start \<or> size \<le> start then []
         else take (nat (stop + 1 - start)) (drop (nat start) xs))"

fun zrange_members :: "env \<Rightarrow> bool \<Rightarrow> (double \<times> string) list \<Rightarrow> string list res" where
  "zrange_members env with_scores [] = Inr []"
| "zrange_members env with_scores ((score, member) # ps) =
     (if with_scores
      then (case format_score env score of
              Inl e \<Rightarrow> Inl e
            | Inr text \<Rightarrow> (case zrange_members env with_scores ps of
                Inl e \<Rightarrow> Inl e | Inr ms \<Rightarrow> Inr (member # text # ms)))
      else (case zrange_members env with_scores ps of Inl e \<Rightarrow> Inl e | Inr ms \<Rightarrow> Inr (member # ms)))"

definition handle_zrange :: "env \<Rightarrow> store \<Rightarrow> args \<Rightarrow> store \<times> string res" where
  "handle_zrange env s args =
     (if length args \<noteq> 4 \<and> length args \<noteq> 5 then (s, Inr (arity_error ''zrange''))
      else if length args = 5 \<and> to_upper (args ! 4) \<noteq> ''WITHSCORES'' then (s, Inr syntax_error)
      else case (whole_s64 (args ! 2), whole_s64 (args ! 3)) of
        (Some start, Some stop) \<Rightarrow>
          (case wrong_sorted_set_type env s (args ! 1) of
             (s, True) \<Rightarrow> (s, Inr wrong_type)
           | (s, False) \<Rightarrow>
               (s, case hget (sorted_sets s) (args ! 1) of
                     None \<Rightarrow> Inr (to_bytes (Array []))
                   | Some z \<Rightarrow>
                       (case zrange_members env (length args = 5) (zrange_slice (ordered z) start stop) of
                          Inl e \<Rightarrow> Inl e
                        | Inr members \<Rightarrow> Inr (to_bytes (Array members)))))
      | _ \<Rightarrow> (s, Inr not_integer_error))"

definition handle_zcard :: "env \<Rightarrow> store \<Rightarrow> args \<Rightarrow> store \<times> string" where
  "handle_zcard env s args =
     (if length args \<noteq> 2 then (s, arity_error ''zcard'')
      else case wrong_sorted_set_type env s (args ! 1) of
        (s, True) \<Rightarrow> (s, wrong_type)
      | (s, False) \<Rightarrow>
          (s, to_bytes (Integer (case hget (sorted_sets s) (args ! 1) of
                None \<Rightarrow> 0 | Some z \<Rightarrow> int (length (scores z))))))"

definition handle_zscore :: "env \<Rightarrow> store \<Rightarrow> args \<Rightarrow> store \<times> string res" where
  "handle_zscore env s args =
     (if length args \<noteq> 3 then (s, Inr (arity_error ''zscore''))
      else case wrong_sorted_set_type env s (args ! 1) of
        (s, True) \<Rightarrow> (s, Inr wrong_type)
      | (s, False) \<Rightarrow>
          (s, case hget (sorted_sets s) (args ! 1) of
                None \<Rightarrow> Inr (to_bytes NullBulkString)
              | Some z \<Rightarrow>
                  (case hget (scores z) (args ! 2) of
                     None \<Rightarrow> Inr (to_bytes NullBulkString)
                   | Some score \<Rightarrow>
                       (case format_score env score of
                          Inl e \<Rightarrow> Inl e | Inr text \<Rightarrow> Inr (to_bytes (BulkString text))))))"

fun remove_members :: "string list \<Rightarrow> SortedSet \<Rightarrow> SortedSet \<times> int" where
  "remove_members [] z = (z, 0)"
| "remove_members (member # ms) z =
     (case zset_remove member z of
        (z, found) \<Rightarrow> (case remove_members ms z of (z, removed) \<Rightarrow> (z, of_bool found + removed)))"

text \<open>Writing back a shortened set erases the key when nothing is left.\<close>

definition put_zset :: "string \<Rightarrow> SortedSet \<Rightarrow> store \<Rightarrow> store" where
  "put_zset key z s =
     (if scores z = [] then s\<lparr>sorted_sets := herase key (sorted_sets s)\<rparr>
      else s\<lparr>sorted_sets := hput key z (sorted_sets s)\<rparr>)"

definition handle_zrem :: "env \<Rightarrow> store \<Rightarrow> args \<Rightarrow> store \<times> string" where
  "handle_zrem env s args =
     (if length args < 3 then (s, arity_error ''zrem'')
      else case wrong_sorted_set_type env s (args ! 1) of
        (s, True) \<Rightarrow> (s, wrong_type)
      | (s, False) \<Rightarrow>
          (case hget (sorted_sets s) (args ! 1) of
             None \<Rightarrow> (s, to_bytes (Integer 0))
           | Some z \<Rightarrow>
               (case remove_members (drop 2 args) z of
                  (z, removed) \<Rightarrow>
                    (put_zset (args ! 1) z s, to_bytes (Integer removed)))))"

section \<open>The two indexes agree\<close>

lemma zset_ok_empty [simp]: "zset_ok zset_empty"
  by (simp add: zset_ok_def zset_empty_def)

lemma zset_ok_ranked:
  "zset_ok z \<Longrightarrow> sorted_wrt (<) (ordered z)"
  "zset_ok z \<Longrightarrow> set (ordered z) = {(d, m). hget (scores z) m = Some d}"
  by (auto simp: zset_ok_def oset_ok_def)

lemma zset_add_ok [inv_intros]:
  assumes "zset_ok z" "d \<noteq> NaN"
  shows "zset_ok (fst (zset_add d m z))"
  using assms by (auto simp: zset_ok_def zset_add_def split: option.split)

lemma zset_remove_ok [inv_intros]: "zset_ok z \<Longrightarrow> zset_ok (fst (zset_remove m z))"
  by (auto simp: zset_ok_def zset_remove_def split: option.split)

lemma hget_zset_add [simp]:
  "hget (scores (fst (zset_add d m z))) m' = (if m' = m then Some d else hget (scores z) m')"
  by (simp add: zset_add_def split: option.split)

lemma snd_zset_add [simp]: "snd (zset_add d m z) \<longleftrightarrow> hget (scores z) m = None"
  by (simp add: zset_add_def split: option.split)

lemma hget_zset_remove [simp]:
  "hget (scores (fst (zset_remove m z))) m' = (if m' = m then None else hget (scores z) m')"
  by (simp add: zset_remove_def split: option.split)

lemma snd_zset_remove [simp]: "snd (zset_remove m z) \<longleftrightarrow> hget (scores z) m \<noteq> None"
  by (simp add: zset_remove_def split: option.split)

text \<open>
  The contract of a set of scored members: \<open>add\<close> and \<open>remove\<close> act on the score function
  like map updates, and the ranking lists the pairs of that function in increasing order.
\<close>

locale score_index =
  fixes score_of :: "'z \<Rightarrow> 'm::linorder \<Rightarrow> 'd::linorder option"
    and ranked :: "'z \<Rightarrow> ('d \<times> 'm) list"
    and add :: "'d \<Rightarrow> 'm \<Rightarrow> 'z \<Rightarrow> 'z"
    and remove :: "'m \<Rightarrow> 'z \<Rightarrow> 'z"
    and valid :: "'z \<Rightarrow> bool"
    and legal :: "'d \<Rightarrow> bool"
  assumes score_add: "score_of (add d m z) = (score_of z)(m \<mapsto> d)"
    and score_remove: "score_of (remove m z) = (score_of z)(m := None)"
    and valid_add: "valid z \<Longrightarrow> legal d \<Longrightarrow> valid (add d m z)"
    and valid_remove: "valid z \<Longrightarrow> valid (remove m z)"
    and ranked_sorted: "valid z \<Longrightarrow> sorted_wrt (<) (ranked z)"
    and ranked_pairs: "valid z \<Longrightarrow> set (ranked z) = {(d, m). score_of z m = Some d}"
begin

lemma ranked_unique:
  "valid y \<Longrightarrow> valid z \<Longrightarrow> score_of y = score_of z \<Longrightarrow> ranked y = ranked z"
  using ranked_sorted ranked_pairs strict_sorted_equal by metis

lemma add_add: "valid z \<Longrightarrow> legal c \<Longrightarrow> legal d \<Longrightarrow> ranked (add d m (add c m z)) = ranked (add d m z)"
  by (rule ranked_unique) (simp_all add: valid_add score_add)

lemma remove_add:
  "valid z \<Longrightarrow> legal d \<Longrightarrow> score_of z m = None \<Longrightarrow> ranked (remove m (add d m z)) = ranked z"
  by (rule ranked_unique) (auto simp: valid_add valid_remove score_add score_remove)

lemma position_counts_below:
  assumes "valid z" "score_of z m = Some d"
  shows "length (takeWhile (\<lambda>q. q \<noteq> (d, m)) (ranked z)) = card {(d', m'). score_of z m' = Some d' \<and> (d', m') < (d, m)}"
proof -
  let ?p = "(d, m)"
  have p: "?p \<in> set (ranked z)" using assms ranked_pairs by auto
  obtain xs ys where split: "ranked z = xs @ ?p # ys" "?p \<notin> set xs" using split_list_first [OF p] by blast
  have sorted: "sorted_wrt (<) (ranked z)" using assms ranked_sorted by blast
  have take: "takeWhile (\<lambda>q. q \<noteq> ?p) (ranked z) = xs" unfolding split(1) using split(2) by (simp add: takeWhile_append)
  have "set xs = {q \<in> set (ranked z). q < ?p}"
    using sorted unfolding split(1) by (auto simp: sorted_wrt_append simp del: less_prod_simp dest: less_asym)
  also have "\<dots> = {(d', m'). score_of z m' = Some d' \<and> (d', m') < (d, m)}"
    using ranked_pairs [OF assms(1)] by auto
  finally have "set xs = {(d', m'). score_of z m' = Some d' \<and> (d', m') < (d, m)}" .
  moreover have "distinct xs" using sorted unfolding split(1) strict_sorted_iff by simp
  ultimately show ?thesis unfolding take using distinct_card by metis
qed

end

interpretation zs: score_index "\<lambda>z. hget (scores z)" ordered "\<lambda>d m z. fst (zset_add d m z)"
    "\<lambda>m z. fst (zset_remove m z)" zset_ok "\<lambda>d. d \<noteq> NaN"
  by unfold_locales (auto simp: fun_eq_iff zset_add_ok zset_remove_ok zset_ok_ranked)

section \<open>Loops\<close>

lemma parse_score_legal: "parse_score env t = Some d \<Longrightarrow> d \<noteq> NaN"
  by (auto simp: parse_score_def isnan_def split: option.splits if_splits prod.splits)

lemma parse_entries_legal: "parse_entries env ts = Some es \<Longrightarrow> \<forall>(d, m) \<in> set es. d \<noteq> NaN"
proof (induction env ts arbitrary: es rule: parse_entries.induct)
  case (1 env t m ts)
  then obtain d fs where "parse_score env t = Some d" "parse_entries env ts = Some fs" "es = (d, m) # fs"
    by (auto split: option.splits)
  with 1 parse_score_legal show ?case by auto
qed auto

lemma parse_entries_nonempty: "parse_entries env (t # m # ts) = Some es \<Longrightarrow> es \<noteq> []"
  by (auto split: option.splits)

lemma add_entries_ok:
  "zset_ok z \<Longrightarrow> \<forall>(d, m) \<in> set es. d \<noteq> NaN \<Longrightarrow> zset_ok (fst (add_entries es z))"
  by (induction es arbitrary: z) (auto simp: case_prod_beta zset_add_ok)

lemma add_entries_scores:
  "hget (scores (fst (add_entries es z))) = hget (scores z) ++ map_of (rev (map prod.swap es))"
  by (induction es arbitrary: z) (auto simp: case_prod_beta fun_eq_iff map_add_def split: option.split)

lemma add_entries_count:
  "snd (add_entries es z) = int (card (snd ` set es - {m. hget (scores z) m \<noteq> None}))"
proof (induction es arbitrary: z)
  case (Cons e es)
  obtain d m where e: "e = (d, m)" by fastforce
  let ?z = "fst (zset_add d m z)" and ?old = "{m. hget (scores z) m \<noteq> None}"
  have "{m'. hget (scores ?z) m' \<noteq> None} = insert m ?old" by auto
  then have IH: "snd (add_entries es ?z) = int (card (snd ` set es - insert m ?old))"
    using Cons by simp
  have "snd ` set ((d, m) # es) - ?old
      = (if m \<in> ?old then snd ` set es - insert m ?old else insert m (snd ` set es - insert m ?old))" by auto
  then show ?case using IH unfolding e by (auto simp: case_prod_beta)
qed simp

lemma remove_members_ok: "zset_ok z \<Longrightarrow> zset_ok (fst (remove_members ms z))"
  by (induction ms arbitrary: z) (auto simp: case_prod_beta zset_remove_ok)

lemma remove_members_scores:
  "hget (scores (fst (remove_members ms z))) m = (if m \<in> set ms then None else hget (scores z) m)"
  by (induction ms arbitrary: z) (auto simp: case_prod_beta)

lemma remove_members_count:
  "snd (remove_members ms z) = int (card (set ms \<inter> {m. hget (scores z) m \<noteq> None}))"
proof (induction ms arbitrary: z)
  case (Cons m ms)
  let ?z = "fst (zset_remove m z)" and ?old = "{m. hget (scores z) m \<noteq> None}"
  have "{m'. hget (scores ?z) m' \<noteq> None} = ?old - {m}" by auto
  then have IH: "snd (remove_members ms ?z) = int (card (set ms \<inter> (?old - {m})))"
    using Cons by simp
  have "set (m # ms) \<inter> ?old
      = (if m \<in> ?old then insert m (set ms \<inter> (?old - {m})) else set ms \<inter> (?old - {m}))" by auto
  then show ?case using IH by (auto simp: case_prod_beta)
qed simp

section \<open>The handlers keep the store well-formed\<close>

lemma zset_at_ok: "store_wf s \<Longrightarrow> zset_ok (zset_at s k)"
  by (simp add: zset_at_def store_wf_def zsets_ok_def split: option.split)

lemma put_zset_wf:
  "store_wf s \<Longrightarrow> zset_ok z \<Longrightarrow> scores z \<noteq> [] \<Longrightarrow> store_wf (s\<lparr>sorted_sets := hput k z (sorted_sets s)\<rparr>)"
  by (auto simp: store_wf_defs)

lemma scores_nonempty: "hget (scores z) m = Some d \<Longrightarrow> scores z \<noteq> []"
  by auto

lemma add_entries_nonempty: "es \<noteq> [] \<Longrightarrow> scores (fst (add_entries es z)) \<noteq> []"
proof -
  assume "es \<noteq> []"
  then have "map_of (rev (map prod.swap es)) (snd (hd es)) \<noteq> None"
    by (cases es) (auto simp: map_of_eq_None_iff)
  then have "hget (scores (fst (add_entries es z))) (snd (hd es)) \<noteq> None"
    by (auto simp: add_entries_scores map_add_def split: option.split)
  then show ?thesis by auto
qed

lemma handle_zadd_wf: "store_wf s \<Longrightarrow> store_wf (fst (handle_zadd env s args))"
proof -
  assume wf: "store_wf s"
  let ?s = "reap env s (args ! 1)"
  have "store_wf (?s\<lparr>sorted_sets := hput (args ! 1) (fst (add_entries es (zset_at ?s (args ! 1)))) (sorted_sets ?s)\<rparr>)"
    if "\<not> length args < 4" "parse_entries env (drop 2 args) = Some es" for es
  proof (rule put_zset_wf)
    show "store_wf ?s" by (rule reap_wf [OF wf])
    then show "zset_ok (fst (add_entries es (zset_at ?s (args ! 1))))"
      using parse_entries_legal [OF that(2)] by (intro add_entries_ok zset_at_ok)
    have "\<exists>t m ts. drop 2 args = t # m # ts"
      using that(1) by (cases args; cases "tl args"; cases "tl (tl args)"; cases "tl (tl (tl args))") auto
    with that(2) have "es \<noteq> []" using parse_entries_nonempty by metis
    then show "scores (fst (add_entries es (zset_at ?s (args ! 1)))) \<noteq> []" by (rule add_entries_nonempty)
  qed
  with wf reap_wf [OF wf] show ?thesis
    by (auto simp: handle_zadd_def wrong_sorted_set_type_eq case_prod_beta split: option.split bool.split)
qed

lemma put_zset_keeps_wf: "store_wf s \<Longrightarrow> zset_ok z \<Longrightarrow> store_wf (put_zset k z s)"
  by (auto simp: store_wf_defs put_zset_def)

lemma handle_zrem_wf: "store_wf s \<Longrightarrow> store_wf (fst (handle_zrem env s args))"
proof -
  assume wf: "store_wf s"
  have "zset_ok z" if "hget (sorted_sets s) k = Some z" for k z
    using wf that by (simp add: store_wf_def zsets_ok_def)
  with wf show ?thesis
    by (auto simp: handle_zrem_def wrong_sorted_set_type_eq case_prod_beta put_zset_keeps_wf reap_wf
        remove_members_ok split: option.split bool.split)
qed

interpretation zadd_h: wf_handler handle_zadd
  by unfold_locales (rule handle_zadd_wf)

interpretation zrem_h: wf_handler handle_zrem
  by unfold_locales (rule handle_zrem_wf)

lemma reads_one_key:
  assumes "s' = s \<or> s' = reap env s k"
  shows "\<exists>ks. s' = reap_all env ks s"
  using assms reap_all_simps by metis

interpretation zrank_h: reading_handler handle_zrank
  by unfold_locales
    (rule reads_one_key [where k = "args ! 1" for args :: args],
      auto simp: handle_zrank_def wrong_sorted_set_type_eq split: bool.split)

interpretation zcard_h: reading_handler handle_zcard
  by unfold_locales
    (rule reads_one_key [where k = "args ! 1" for args :: args],
      auto simp: handle_zcard_def wrong_sorted_set_type_eq split: bool.split)

interpretation zscore_h: reading_handler handle_zscore
  by unfold_locales
    (rule reads_one_key [where k = "args ! 1" for args :: args],
      auto simp: handle_zscore_def wrong_sorted_set_type_eq split: bool.split)

interpretation zrange_h: reading_handler handle_zrange
  by unfold_locales
    (rule reads_one_key [where k = "args ! 1" for args :: args],
      auto simp: handle_zrange_def wrong_sorted_set_type_eq split: bool.split option.split)

section \<open>Properties\<close>

text \<open>What a key holds for the sorted-set commands: its score function.\<close>

definition holds_zset :: "env \<Rightarrow> store \<Rightarrow> string \<Rightarrow> bool" where
  "holds_zset env s k = (case view env s k of None \<Rightarrow> True | Some (VZset _) \<Rightarrow> True | _ \<Rightarrow> False)"

definition scores_at :: "store \<Rightarrow> string \<Rightarrow> string \<Rightarrow> double option" where
  "scores_at s k = hget (scores (zset_at s k))"

lemma wrong_sorted_set_type_holds:
  "wrong_sorted_set_type env s k = (reap env s k, \<not> holds_zset env s k)"
  by (simp add: wrong_sorted_set_type_eq holds_zset_def split: option.split val.split)

lemma zset_at_reap [simp]: "zset_at (reap env s k) = zset_at s"
  by (simp add: zset_at_def fun_eq_iff)

lemma zset_at_hput [simp]:
  "zset_at (s\<lparr>sorted_sets := hput k z (sorted_sets s)\<rparr>) k' = (if k' = k then z else zset_at s k')"
  by (simp add: zset_at_def)

lemma scores_at_None: "hget (sorted_sets s) k = None \<Longrightarrow> scores_at s k = Map.empty"
  by (simp add: scores_at_def zset_at_def zset_empty_def fun_eq_iff)

lemma finite_scores: "finite {(d, m). scores_at s k m = Some d}"
proof -
  have "{(d, m). scores_at s k m = Some d} \<subseteq> prod.swap ` set (scores (zset_at s k))"
    by (force simp: scores_at_def hget_def dest: map_of_SomeD)
  then show ?thesis using finite_subset by blast
qed

lemma ordered_zset_at:
  "store_wf s \<Longrightarrow> ordered (zset_at s k) = sorted_list_of_set {(d, m). scores_at s k m = Some d}"
  using zs.ranked_sorted [OF zset_at_ok] zs.ranked_pairs [OF zset_at_ok] finite_scores [of s k]
  by (intro strict_sorted_equal) (simp_all add: scores_at_def)

text \<open>A store with one sorted set, for concrete instances.\<close>

definition sample_zset_store :: store where
  "sample_zset_store = new_store\<lparr>sorted_sets :=
     [(''z'', \<lparr>scores = [(''a'', Fin 2), (''b'', Fin 1)], ordered = [(Fin 1, ''b''), (Fin 2, ''a'')]\<rparr>)]\<rparr>"

lemma sample_zset_at:
  "zset_at sample_zset_store ''z''
     = \<lparr>scores = [(''a'', Fin 2), (''b'', Fin 1)], ordered = [(Fin 1, ''b''), (Fin 2, ''a'')]\<rparr>"
  by (simp add: zset_at_def sample_zset_store_def hget_def)

lemma sample_scores_at:
  "scores_at sample_zset_store ''z'' = [''a'' \<mapsto> Fin 2, ''b'' \<mapsto> Fin 1]"
  by (auto simp: scores_at_def sample_zset_at hget_def fun_eq_iff)

lemma sample_zset_store_ok:
  "store_wf sample_zset_store" "holds_zset sample_env sample_zset_store ''z''"
  "reap sample_env sample_zset_store ''z'' = sample_zset_store"
  by (auto simp: sample_zset_store_def store_wf_defs new_store_def hcontains_def hget_def hmap_ok_def
      holds_zset_def view_def dead_def zset_ok_def oset_ok_def reap_def split: if_splits)

text \<open>C6: \<open>ZADD key score member ...\<close> on a key that holds a sorted set or nothing: the score
  of each member named becomes the last score given for it, other members and other keys
  keep theirs, and the reply is the number of distinct members that were not in the set
  before.\<close>

theorem zadd_updates_scores:
  assumes "holds_zset env s k" "parse_entries env texts = Some es" "es \<noteq> []" "even (length texts)"
  shows "\<exists>s'. handle_zadd env s (cmd # k # texts)
       = (s', to_bytes (Integer (int (card (snd ` set es - dom (scores_at s k))))))
     \<and> scores_at s' k = scores_at s k ++ map_of (rev (map prod.swap es))
     \<and> (\<forall>k'. k' \<noteq> k \<longrightarrow> scores_at s' k' = scores_at s k')"
proof -
  have "2 \<le> length texts" using assms(2,3) by (cases texts; cases "tl texts") auto
  then have "\<not> (length (cmd # k # texts) < 4 \<or> length (cmd # k # texts) mod 2 \<noteq> 0)"
    using assms(4) by auto
  then have "handle_zadd env s (cmd # k # texts)
      = ((reap env s k)\<lparr>sorted_sets := hput k (fst (add_entries es (zset_at s k))) (sorted_sets s)\<rparr>,
         to_bytes (Integer (snd (add_entries es (zset_at s k)))))"
    using assms(1,2) by (simp add: handle_zadd_def wrong_sorted_set_type_holds case_prod_beta numeral_2_eq_2)
  moreover have "dom (scores_at s k) = {m. hget (scores (zset_at s k)) m \<noteq> None}"
    by (simp add: scores_at_def dom_def)
  ultimately show ?thesis
    by (simp add: add_entries_count add_entries_scores scores_at_def zset_at_def)
qed

theorem zadd_updates_scores_witness:
  "\<exists>s'. handle_zadd sample_env sample_zset_store [''ZADD'', ''z'', ''7'', ''a'', ''5'', ''c'']
       = (s', to_bytes (Integer 1)) \<and> scores_at s' ''z'' = [''a'' \<mapsto> Fin 7, ''b'' \<mapsto> Fin 1, ''c'' \<mapsto> Fin 5]"
proof -
  have "parse_entries sample_env [''7'', ''a'', ''5'', ''c''] = Some [(Fin 7, ''a''), (Fin 5, ''c'')]"
    by (simp add: sample_env_def sample_stod_def parse_score_def is_digit_def digits_val_def digit_val_def
        is_space_def isnan_def)
  moreover have "snd ` set [(Fin 7, ''a''), (Fin 5, ''c'')] - dom (scores_at sample_zset_store ''z'') = {''c''}"
    by (auto simp: sample_scores_at)
  ultimately show ?thesis
    using zadd_updates_scores [OF sample_zset_store_ok(2), of "[''7'', ''a'', ''5'', ''c'']"
        "[(Fin 7, ''a''), (Fin 5, ''c'')]" "''ZADD''"]
    by (auto simp: sample_scores_at map_add_def fun_eq_iff split: option.splits)
qed

text \<open>\<open>ZRANK\<close> of a member answers how many pairs of the set come before it, by score and
  then by name.\<close>

lemma zrank_counts_lower_pairs:
  assumes "store_wf s" "holds_zset env s k" "scores_at s k m = Some d"
  shows "handle_zrank env s [cmd, k, m]
     = (reap env s k, to_bytes (Integer (int
         (card {(d', m'). scores_at s k m' = Some d' \<and> (d', m') < (d, m)}))))"
proof -
  obtain z where z: "hget (sorted_sets s) k = Some z"
    using assms(3) scores_at_None by fastforce
  then have "zset_ok z" "scores_at s k = hget (scores z)"
    using assms(1) by (auto simp: store_wf_def zsets_ok_def scores_at_def zset_at_def)
  with z assms(2,3) zs.position_counts_below [of z m d] show ?thesis
    by (simp add: handle_zrank_def wrong_sorted_set_type_holds zset_position_def)
qed

text \<open>The rank a bound of \<open>ZRANGE\<close> denotes in a set of \<open>len\<close> members.\<close>

definition rank_index :: "int \<Rightarrow> int \<Rightarrow> int" where
  "rank_index len i = (if i < 0 then i + len else i)"

lemma zrange_slice_window:
  "zrange_slice xs a b
     = nths xs {i. rank_index (int (length xs)) a \<le> int i \<and> int i \<le> rank_index (int (length xs)) b}"
proof -
  let ?a = "max (rank_index (int (length xs)) a) 0" and ?b = "rank_index (int (length xs)) b"
  have "{i. rank_index (int (length xs)) a \<le> int i \<and> int i \<le> ?b} = {i. nat ?a \<le> i \<and> i < nat (?b + 1)}"
    by auto
  then have "nths xs {i. rank_index (int (length xs)) a \<le> int i \<and> int i \<le> ?b}
      = take (nat (?b + 1) - nat ?a) (drop (nat ?a) xs)"
    by (simp add: nths_interval)
  moreover have "zrange_slice xs a b = (if min ?b (int (length xs) - 1) < ?a \<or> int (length xs) \<le> ?a then []
      else take (nat (min ?b (int (length xs) - 1) + 1 - ?a)) (drop (nat ?a) xs))"
    by (simp add: zrange_slice_def Let_def rank_index_def)
  ultimately show ?thesis by (auto simp: min_def nat_diff_distrib take_all_iff)
qed

lemma zrange_members_plain: "zrange_members env False ps = Inr (map snd ps)"
  by (induction ps) auto

text \<open>C25: \<open>ZRANGE key start stop\<close> answers the members of the set in order of score and then
  name, restricted to the ranks between the two bounds, both included; negative bounds
  count from the end, and a range that lies outside the set is empty.\<close>

theorem zrange_answers_ranks:
  assumes "store_wf s" "holds_zset env s k"
    and "- (2 ^ 63) \<le> a" "a < 2 ^ 63" "- (2 ^ 63) \<le> b" "b < 2 ^ 63"
  defines "ranking \<equiv> sorted_list_of_set {(d, m). scores_at s k m = Some d}"
  defines "len \<equiv> int (length ranking)"
  shows "handle_zrange env s [cmd, k, to_string_int a, to_string_int b]
     = (reap env s k, Inr (to_bytes (Array (map snd
         (nths ranking {i. rank_index len a \<le> int i \<and> int i \<le> rank_index len b})))))"
proof -
  have "zset_at s k = zset_empty" if "hget (sorted_sets s) k = None" using that by (simp add: zset_at_def)
  then have "(case hget (sorted_sets s) k of None \<Rightarrow> Inr (to_bytes (Array [])) | Some z \<Rightarrow>
      (case zrange_members env False (zrange_slice (ordered z) a b) of
         Inl e \<Rightarrow> Inl e | Inr ms \<Rightarrow> Inr (to_bytes (Array ms))))
    = Inr (to_bytes (Array (map snd (zrange_slice (ordered (zset_at s k)) a b))))"
    by (auto simp: zset_at_def zset_empty_def zrange_members_plain zrange_slice_window split: option.split)
  then show ?thesis
    using assms(2-6)
    by (simp add: handle_zrange_def whole_s64_to_string wrong_sorted_set_type_holds zrange_slice_window
        ordered_zset_at [OF assms(1)] ranking_def len_def cong: option.case_cong)
qed

theorem zrange_answers_ranks_witness:
  "handle_zrange sample_env sample_zset_store [''ZRANGE'', ''z'', to_string_int 0, to_string_int (-1)]
     = (sample_zset_store, Inr (to_bytes (Array [''b'', ''a''])))"
proof -
  let ?R = "{(d, m). scores_at sample_zset_store ''z'' m = Some d}"
  have ranking: "sorted_list_of_set ?R = [(Fin 1, ''b''), (Fin 2, ''a'')]"
    using ordered_zset_at [OF sample_zset_store_ok(1), of "''z''"] by (simp add: sample_zset_at)
  have "nths [(Fin 1, ''b''), (Fin 2, ''a'')] {i. 0 \<le> int i \<and> int i \<le> 1} = [(Fin 1, ''b''), (Fin 2, ''a'')]"
    by (simp add: nths_Cons)
  then show ?thesis
    using zrange_answers_ranks [OF sample_zset_store_ok(1,2), of 0 "-1" "''ZRANGE''"]
    by (simp add: ranking rank_index_def sample_zset_store_ok(3) del: length_sorted_list_of_set)
qed

text \<open>C26: \<open>ZREM key member ...\<close> removes exactly the members named, answers how many of them
  were in the set, and removes the key when the set becomes empty.\<close>

theorem zrem_removes_members:
  assumes "store_wf s" "holds_zset env s k" "ms \<noteq> []"
  shows "\<exists>s'. handle_zrem env s (cmd # k # ms)
       = (s', to_bytes (Integer (int (card (set ms \<inter> dom (scores_at s k))))))
     \<and> scores_at s' k = scores_at s k |` (- set ms)
     \<and> (dom (scores_at s k) \<subseteq> set ms \<longrightarrow> hget (sorted_sets s') k = None) \<and> store_wf s'"
proof (cases "hget (sorted_sets s) k")
  case None
  then have "handle_zrem env s (cmd # k # ms) = (reap env s k, to_bytes (Integer 0))"
    using assms by (cases ms) (simp_all add: handle_zrem_def wrong_sorted_set_type_holds)
  with None show ?thesis
    using scores_at_None [OF None] scores_at_None [of "reap env s k" k] reap_wf [OF assms(1)] by simp
next
  case (Some z)
  let ?z = "fst (remove_members ms z)" and ?s = "put_zset k (fst (remove_members ms z)) (reap env s k)"
  have at: "scores_at s k = hget (scores z)" using Some by (simp add: scores_at_def zset_at_def)
  have eq: "handle_zrem env s (cmd # k # ms)
      = (?s, to_bytes (Integer (int (card (set ms \<inter> dom (scores_at s k))))))"
    using assms Some by (cases ms) (simp_all add: handle_zrem_def wrong_sorted_set_type_holds case_prod_beta
        remove_members_count at dom_def numeral_2_eq_2 del: remove_members.simps)
  have "hget (scores ?z) = hget (scores z) |` (- set ms)"
    by (auto simp: fun_eq_iff remove_members_scores restrict_map_def)
  moreover have "hget (scores ?z) = scores_at ?s k"
    by (auto simp: put_zset_def scores_at_def zset_at_def zset_empty_def)
  moreover have "scores ?z = []" if "dom (scores_at s k) \<subseteq> set ms"
  proof -
    have "hget (scores ?z) m = None" for m using that by (auto simp: remove_members_scores at)
    then show ?thesis by (metis hm.keys_iff hkeys_def list.set_intros(1) map_is_Nil_conv neq_Nil_conv)
  qed
  moreover have "store_wf ?s" using handle_zrem_wf [OF assms(1), of env "cmd # k # ms"] eq by simp
  ultimately show ?thesis using eq at by (auto simp: put_zset_def)
qed

theorem zrem_removes_members_witness:
  "\<exists>s'. handle_zrem sample_env sample_zset_store [''ZREM'', ''z'', ''a'', ''x'']
       = (s', to_bytes (Integer 1)) \<and> scores_at s' ''z'' = [''b'' \<mapsto> Fin 1]"
proof -
  have "set [''a'', ''x''] \<inter> dom (scores_at sample_zset_store ''z'') = {''a''}"
      "scores_at sample_zset_store ''z'' |` (- set [''a'', ''x'']) = [''b'' \<mapsto> Fin 1]"
    by (auto simp: sample_scores_at restrict_map_def fun_eq_iff)
  then show ?thesis
    using zrem_removes_members [OF sample_zset_store_ok(1,2), of "[''a'', ''x'']" "''ZREM''"] by auto
qed

end
