(* ===== verification/Geo.thy ===== *)
theory Geo
  imports Sorted_Sets "HOL-Library.Multiset"
begin

unbundle bit_operations_syntax

text \<open>
  The geospatial commands of \<open>src/src/store/geospatial.cpp\<close>, which keep positions as the
  scores of a sorted set: the interleaved code of longitude and latitude, its decoding to
  the centre of the cell, the great-circle distance, and \<open>GEOADD\<close>, \<open>GEOPOS\<close>, \<open>GEODIST\<close>
  and \<open>GEOSEARCH\<close>. Arithmetic is that of \<open>double\<close> with the environment's rounding.
\<close>

section \<open>Constants and numbers\<close>

record Coordinates =
  longitude :: double
  latitude :: double

definition kMaxLatitude :: "env \<Rightarrow> double" where
  "kMaxLatitude env = round_double env (8505112878 / 100000000)"

definition kCoordinateScale :: double where
  "kCoordinateScale = Fin 67108864"

definition kEarthRadius :: "env \<Rightarrow> double" where
  "kEarthRadius env = round_double env (6372797560856 / 1000000)"

text \<open>\<open>std::numbers::pi\<close>, the \<open>double\<close> nearest to pi.\<close>

definition pi_double :: double where
  "pi_double = Fin (884279719003555 / 281474976710656)"

definition geo_error :: "string \<Rightarrow> string" where
  "geo_error message = simple_error (''ERR '' @ message)"

definition coordinates_error :: "env \<Rightarrow> Coordinates \<Rightarrow> string" where
  "coordinates_error env point =
     geo_error (''invalid longitude,latitude pair '' @ to_string_double env (longitude point) @ '',''
       @ to_string_double env (latitude point))"

text \<open>\<open>parse_number\<close> is the same code as \<open>parse_score\<close> of the sorted sets.\<close>

definition parse_number :: "env \<Rightarrow> string \<Rightarrow> double option" where
  "parse_number env text = parse_score env text"

definition parse_coordinates :: "env \<Rightarrow> string \<Rightarrow> string \<Rightarrow> string + Coordinates" where
  "parse_coordinates env lon lat =
     (case (parse_number env lon, parse_number env lat) of
        (Some x, Some y) \<Rightarrow>
          (let point = \<lparr>longitude = x, latitude = y\<rparr>
           in if dbl_less x (Fin (- 180)) \<or> dbl_less (Fin 180) x
                 \<or> dbl_less y (dbl_neg (kMaxLatitude env)) \<or> dbl_less (kMaxLatitude env) y
              then Inl (coordinates_error env point) else Inr point)
      | _ \<Rightarrow> Inl (geo_error ''value is not a valid float''))"

section \<open>The interleaved code\<close>

text \<open>\<open>((w >> b) & 1) << n\<close>.\<close>

definition move_bit :: "nat \<Rightarrow> nat \<Rightarrow> 64 word \<Rightarrow> 64 word" where
  "move_bit b n w = push_bit n (drop_bit b w AND 1)"

definition interleave :: "64 word \<Rightarrow> 64 word \<Rightarrow> 64 word" where
  "interleave lon lat =
     fold (\<lambda>b score. score OR move_bit b (2 * b + 1) lon OR move_bit b (2 * b) lat)
       [0..<27] 0"

definition encode_coordinates :: "env \<Rightarrow> Coordinates \<Rightarrow> 64 word" where
  "encode_coordinates env point =
     (let r = round_double env;
          lon = dbl_mul r (dbl_div r (dbl_add r (longitude point) (Fin 180)) (Fin 360)) kCoordinateScale;
          lat = dbl_mul r (dbl_div r (dbl_add r (latitude point) (kMaxLatitude env))
                  (dbl_mul r (Fin 2) (kMaxLatitude env))) kCoordinateScale
      in interleave (of_nat (dbl_trunc lon)) (of_nat (dbl_trunc lat)))"

definition deinterleave :: "64 word \<Rightarrow> 64 word \<times> 64 word" where
  "deinterleave h =
     fold (\<lambda>b (lon, lat). (lon OR move_bit (2 * b + 1) b h, lat OR move_bit (2 * b) b h))
       [0..<32] (0, 0)"

text \<open>The lower edge of cell \<open>n\<close>: \<open>minimum + n / kCoordinateScale * width\<close>.\<close>

definition cell_edge :: "env \<Rightarrow> double \<Rightarrow> double \<Rightarrow> 64 word \<Rightarrow> double" where
  "cell_edge env minimum width n =
     (let r = round_double env
      in dbl_add r minimum (dbl_mul r (dbl_div r (r (of_nat (unat n))) kCoordinateScale) width))"

definition decode_coordinates :: "env \<Rightarrow> double \<Rightarrow> Coordinates option" where
  "decode_coordinates env score =
     (if \<not> isfinite score \<or> dbl_less score (Fin 0) \<or> \<not> dbl_less score (Fin (2 ^ 63)) then None
      else case deinterleave (of_nat (dbl_trunc score)) of
        (lon, lat) \<Rightarrow>
          (let r = round_double env;
               mid = (\<lambda>lo hi. dbl_div r (dbl_add r lo hi) (Fin 2));
               height = dbl_mul r (Fin 2) (kMaxLatitude env);
               south = dbl_neg (kMaxLatitude env)
           in Some \<lparr>longitude = dbl_clamp (mid (cell_edge env (Fin (- 180)) (Fin 360) lon)
                        (cell_edge env (Fin (- 180)) (Fin 360) (lon + 1))) (Fin (- 180)) (Fin 180),
                    latitude = dbl_clamp (mid (cell_edge env south height lat)
                        (cell_edge env south height (lat + 1))) south (kMaxLatitude env)\<rparr>))"

section \<open>Distances and printing\<close>

definition distance_in_meters :: "env \<Rightarrow> Coordinates \<Rightarrow> Coordinates \<Rightarrow> double" where
  "distance_in_meters env first second =
     (let r = round_double env;
          radians = dbl_div r pi_double (Fin 180);
          lat1 = dbl_mul r (latitude first) radians;
          lat2 = dbl_mul r (latitude second) radians;
          sin_lat = math_sin env (dbl_div r (dbl_mul r (dbl_sub r (latitude second) (latitude first)) radians) (Fin 2));
          sin_lon = math_sin env (dbl_div r (dbl_mul r (dbl_sub r (longitude second) (longitude first)) radians) (Fin 2));
          haversine = dbl_add r (dbl_mul r sin_lat sin_lat)
            (dbl_mul r (dbl_mul r (dbl_mul r (math_cos env lat1) (math_cos env lat2)) sin_lon) sin_lon)
      in dbl_mul r (dbl_mul r (Fin 2) (kEarthRadius env))
           (math_asin env (math_sqrt env (dbl_clamp haversine (Fin 0) (Fin 1)))))"

definition unit_in_meters :: "env \<Rightarrow> string \<Rightarrow> double" where
  "unit_in_meters env unit =
     (let name = to_upper unit
      in if name = ''M'' then Fin 1
         else if name = ''KM'' then Fin 1000
         else if name = ''MI'' then round_double env (160934 / 100)
         else if name = ''FT'' then round_double env (3048 / 10000)
         else Fin 0)"

definition unit_error :: string where
  "unit_error = geo_error ''unsupported unit provided. please use M, KM, FT, MI''"

definition format_number :: "env \<Rightarrow> bool \<Rightarrow> double \<Rightarrow> string res" where
  "format_number env distance v =
     (case (if distance then to_chars_fixed4 env v else to_chars env v) of
        None \<Rightarrow> Inl (RuntimeError ''Failed to format geospatial number'')
      | Some text \<Rightarrow> Inr text)"

definition coordinates_reply :: "env \<Rightarrow> Coordinates \<Rightarrow> RespType res" where
  "coordinates_reply env point =
     (case (format_number env False (longitude point), format_number env False (latitude point)) of
        (Inr lon, Inr lat) \<Rightarrow> Inr (Array [lon, lat])
      | (Inl e, _) \<Rightarrow> Inl e
      | (_, Inl e) \<Rightarrow> Inl e)"

section \<open>GEOADD\<close>

record geoadd_flags =
  ga_nx :: bool
  ga_xx :: bool
  ga_ch :: bool

fun geoadd_options :: "geoadd_flags \<Rightarrow> string list \<Rightarrow> geoadd_flags \<times> string list" where
  "geoadd_options f (word # rest) =
     (if to_upper word = ''NX'' then geoadd_options (f\<lparr>ga_nx := True\<rparr>) rest
      else if to_upper word = ''XX'' then geoadd_options (f\<lparr>ga_xx := True\<rparr>) rest
      else if to_upper word = ''CH'' then geoadd_options (f\<lparr>ga_ch := True\<rparr>) rest
      else (f, word # rest))"
| "geoadd_options f [] = (f, [])"

fun geoadd_entries :: "env \<Rightarrow> string list \<Rightarrow> string + (double \<times> string) list" where
  "geoadd_entries env (lon # lat # member # rest) =
     (case parse_coordinates env lon lat of
        Inl failure \<Rightarrow> Inl failure
      | Inr point \<Rightarrow>
          (case geoadd_entries env rest of
             Inl failure \<Rightarrow> Inl failure
           | Inr es \<Rightarrow> Inr ((round_double env (of_nat (unat (encode_coordinates env point))), member) # es)))"
| "geoadd_entries env _ = Inr []"

fun geoadd_loop :: "geoadd_flags \<Rightarrow> (double \<times> string) list \<Rightarrow> SortedSet \<Rightarrow> SortedSet \<times> int \<times> int" where
  "geoadd_loop f [] z = (z, 0, 0)"
| "geoadd_loop f ((score, member) # es) z =
     (let existing = hget (scores z) member
      in if (ga_nx f \<and> existing \<noteq> None) \<or> (ga_xx f \<and> existing = None)
            \<or> (case existing of None \<Rightarrow> False | Some old \<Rightarrow> dbl_eq old score)
         then geoadd_loop f es z
         else case zset_add score member z of
           (z, inserted) \<Rightarrow>
             (case geoadd_loop f es z of
                (z, added, changed) \<Rightarrow> (z, of_bool inserted + added, 1 + changed)))"

definition handle_geoadd :: "env \<Rightarrow> store \<Rightarrow> args \<Rightarrow> store \<times> string" where
  "handle_geoadd env s args =
     (if length args < 5 then (s, arity_error ''geoadd'')
      else case geoadd_options \<lparr>ga_nx = False, ga_xx = False, ga_ch = False\<rparr> (drop 2 args) of
        (f, rest) \<Rightarrow>
          if (ga_nx f \<and> ga_xx f) \<or> rest = [] \<or> length rest mod 3 \<noteq> 0 then (s, geo_error ''syntax error'')
          else case geoadd_entries env rest of
            Inl failure \<Rightarrow> (s, failure)
          | Inr es \<Rightarrow>
              (case wrong_sorted_set_type env s (args ! 1) of
                 (s, True) \<Rightarrow> (s, wrong_type)
               | (s, False) \<Rightarrow>
                   if ga_xx f \<and> \<not> hcontains (sorted_sets s) (args ! 1) then (s, to_bytes (Integer 0))
                   else case geoadd_loop f es (zset_at s (args ! 1)) of
                     (z, added, changed) \<Rightarrow>
                       (s\<lparr>sorted_sets := hput (args ! 1) z (sorted_sets s)\<rparr>,
                        to_bytes (Integer (if ga_ch f then changed else added)))))"

section \<open>GEOPOS and GEODIST\<close>

definition member_point :: "env \<Rightarrow> SortedSet option \<Rightarrow> string \<Rightarrow> Coordinates option" where
  "member_point env z member =
     (case z of
        None \<Rightarrow> None
      | Some z \<Rightarrow> (case hget (scores z) member of None \<Rightarrow> None | Some score \<Rightarrow> decode_coordinates env score))"

fun geopos_loop :: "env \<Rightarrow> SortedSet option \<Rightarrow> string list \<Rightarrow> RespType list res" where
  "geopos_loop env z [] = Inr []"
| "geopos_loop env z (member # rest) =
     (case (case member_point env z member of
              Some point \<Rightarrow> coordinates_reply env point | None \<Rightarrow> Inr NullArray) of
        Inl e \<Rightarrow> Inl e
      | Inr reply \<Rightarrow> (case geopos_loop env z rest of Inl e \<Rightarrow> Inl e | Inr rs \<Rightarrow> Inr (reply # rs)))"

definition handle_geopos :: "env \<Rightarrow> store \<Rightarrow> args \<Rightarrow> store \<times> string res" where
  "handle_geopos env s args =
     (if length args < 2 then (s, Inr (arity_error ''geopos''))
      else case wrong_sorted_set_type env s (args ! 1) of
        (s, True) \<Rightarrow> (s, Inr wrong_type)
      | (s, False) \<Rightarrow>
          (s, case geopos_loop env (hget (sorted_sets s) (args ! 1)) (drop 2 args) of
                Inl e \<Rightarrow> Inl e
              | Inr positions \<Rightarrow> Inr (to_bytes (NestedArray positions))))"

definition handle_geodist :: "env \<Rightarrow> store \<Rightarrow> args \<Rightarrow> store \<times> string res" where
  "handle_geodist env s args =
     (if length args \<noteq> 4 \<and> length args \<noteq> 5 then (s, Inr (arity_error ''geodist''))
      else let unit = (if length args = 5 then unit_in_meters env (args ! 4) else Fin 1)
       in if dbl_eq unit (Fin 0) then (s, Inr unit_error)
          else case wrong_sorted_set_type env s (args ! 1) of
            (s, True) \<Rightarrow> (s, Inr wrong_type)
          | (s, False) \<Rightarrow>
              (let z = hget (sorted_sets s) (args ! 1)
               in (s, case (member_point env z (args ! 2), member_point env z (args ! 3)) of
                        (Some from, Some to) \<Rightarrow>
                          (case format_number env True
                                  (dbl_div (round_double env) (distance_in_meters env from to) unit) of
                             Inl e \<Rightarrow> Inl e
                           | Inr text \<Rightarrow> Inr (to_bytes (BulkString text)))
                      | _ \<Rightarrow> Inr (to_bytes NullBulkString))))"

section \<open>GEOSEARCH\<close>

record geosearch =
  gs_center :: "Coordinates option"
  gs_from_member :: "string option"
  gs_radius :: "double option"
  gs_unit :: double
  gs_sort :: int
  gs_count :: int
  gs_any :: bool
  gs_with_dist :: bool
  gs_with_hash :: bool
  gs_with_coord :: bool

definition new_geosearch :: geosearch where
  "new_geosearch = \<lparr>gs_center = None, gs_from_member = None, gs_radius = None, gs_unit = Fin 1,
     gs_sort = 0, gs_count = 0, gs_any = False, gs_with_dist = False, gs_with_hash = False,
     gs_with_coord = False\<rparr>"

definition parse_radius :: "env \<Rightarrow> string \<Rightarrow> string \<Rightarrow> string + (double \<times> double)" where
  "parse_radius env text unit_text =
     (case parse_number env text of
        None \<Rightarrow> Inl (geo_error ''need numeric radius'')
      | Some v \<Rightarrow>
          if \<not> isfinite v then Inl (geo_error ''need numeric radius'')
          else if dbl_less v (Fin 0) then Inl (geo_error ''radius cannot be negative'')
          else if dbl_eq (unit_in_meters env unit_text) (Fin 0) then Inl unit_error
          else Inr (v, unit_in_meters env unit_text))"

definition parse_count :: "string \<Rightarrow> string + int" where
  "parse_count text =
     (case whole_s64 text of
        None \<Rightarrow> Inl (geo_error ''value is not an integer or out of range'')
      | Some n \<Rightarrow> if n \<le> 0 then Inl (geo_error ''COUNT must be > 0'') else Inr n)"

fun geosearch_options :: "env \<Rightarrow> geosearch \<Rightarrow> string list \<Rightarrow> string + geosearch" where
  "geosearch_options env g [] = Inr g"
| "geosearch_options env g (word # rest) =
     (let option = to_upper word
      in if option = ''FROMLONLAT'' \<and> 2 \<le> length rest \<and> gs_from_member g = None then
           (case parse_coordinates env (rest ! 0) (rest ! 1) of
              Inl failure \<Rightarrow> Inl failure
            | Inr point \<Rightarrow> geosearch_options env (g\<lparr>gs_center := Some point\<rparr>) (drop 2 rest))
         else if option = ''FROMMEMBER'' \<and> 1 \<le> length rest \<and> gs_center g = None then
           geosearch_options env (g\<lparr>gs_from_member := Some (rest ! 0)\<rparr>) (drop 1 rest)
         else if option = ''BYRADIUS'' \<and> 2 \<le> length rest then
           (case parse_radius env (rest ! 0) (rest ! 1) of
              Inl failure \<Rightarrow> Inl failure
            | Inr (radius, unit) \<Rightarrow>
                geosearch_options env (g\<lparr>gs_unit := unit, gs_radius := Some radius\<rparr>) (drop 2 rest))
         else if option = ''ASC'' then geosearch_options env (g\<lparr>gs_sort := 1\<rparr>) rest
         else if option = ''DESC'' then geosearch_options env (g\<lparr>gs_sort := - 1\<rparr>) rest
         else if option = ''COUNT'' \<and> 1 \<le> length rest then
           (case parse_count (rest ! 0) of
              Inl failure \<Rightarrow> Inl failure
            | Inr n \<Rightarrow> geosearch_options env (g\<lparr>gs_count := n\<rparr>) (drop 1 rest))
         else if option = ''ANY'' then geosearch_options env (g\<lparr>gs_any := True\<rparr>) rest
         else if option = ''WITHDIST'' then geosearch_options env (g\<lparr>gs_with_dist := True\<rparr>) rest
         else if option = ''WITHHASH'' then geosearch_options env (g\<lparr>gs_with_hash := True\<rparr>) rest
         else if option = ''WITHCOORD'' then geosearch_options env (g\<lparr>gs_with_coord := True\<rparr>) rest
         else Inl (geo_error ''syntax error''))"

record Match =
  m_member :: string
  m_score :: double
  m_point :: Coordinates
  m_distance :: double

text \<open>The scan in score order; with \<open>ANY\<close> it stops at the \<open>count\<close>-th match.\<close>

fun geosearch_scan :: "env \<Rightarrow> geosearch \<Rightarrow> Coordinates \<Rightarrow> double \<Rightarrow> (double \<times> string) list \<Rightarrow> Match list \<Rightarrow> Match list" where
  "geosearch_scan env g center radius [] matches = matches"
| "geosearch_scan env g center radius ((score, member) # rest) matches =
     (case decode_coordinates env score of
        None \<Rightarrow> geosearch_scan env g center radius rest matches
      | Some point \<Rightarrow>
          (let distance = dbl_div (round_double env) (distance_in_meters env center point) (gs_unit g)
           in if dbl_less radius distance then geosearch_scan env g center radius rest matches
              else let matches = matches @ [\<lparr>m_member = member, m_score = score, m_point = point, m_distance = distance\<rparr>]
                   in if gs_any g \<and> length matches = nat (gs_count g) then matches
                      else geosearch_scan env g center radius rest matches))"

text \<open>
  \<open>std::stable_sort\<close> by distance. Descending order keeps the order of equal elements, too;
  the distances compared are numbers.
\<close>

definition geosearch_order :: "geosearch \<Rightarrow> Match list \<Rightarrow> Match list" where
  "geosearch_order g matches =
     (let sort = (if gs_count g \<noteq> 0 \<and> \<not> gs_any g \<and> gs_sort g = 0 then 1 else gs_sort g);
          matches = (if sort > 0 then sort_key m_distance matches
                     else if sort < 0 then rev (sort_key m_distance (rev matches)) else matches)
      in if gs_count g \<noteq> 0 \<and> nat (gs_count g) < length matches then take (nat (gs_count g)) matches else matches)"

definition match_details :: "env \<Rightarrow> geosearch \<Rightarrow> Match \<Rightarrow> RespType list res" where
  "match_details env g match =
     (case (if gs_with_dist g then map_sum id (\<lambda>t. [BulkString t]) (format_number env True (m_distance match)) else Inr []) of
        Inl e \<Rightarrow> Inl e
      | Inr away \<Rightarrow>
          (case (if gs_with_coord g then map_sum id (\<lambda>r. [r]) (coordinates_reply env (m_point match)) else Inr []) of
             Inl e \<Rightarrow> Inl e
           | Inr coord \<Rightarrow>
               Inr (BulkString (m_member match) # away
                    @ (if gs_with_hash g then [Integer (int (dbl_trunc (m_score match)))] else []) @ coord)))"

fun geosearch_results :: "env \<Rightarrow> geosearch \<Rightarrow> Match list \<Rightarrow> RespType list res" where
  "geosearch_results env g [] = Inr []"
| "geosearch_results env g (match # rest) =
     (case (if \<not> gs_with_dist g \<and> \<not> gs_with_hash g \<and> \<not> gs_with_coord g then Inr (BulkString (m_member match))
            else map_sum id NestedArray (match_details env g match)) of
        Inl e \<Rightarrow> Inl e
      | Inr reply \<Rightarrow>
          (case geosearch_results env g rest of Inl e \<Rightarrow> Inl e | Inr rs \<Rightarrow> Inr (reply # rs)))"

text \<open>The part after the options have been read, on the set found.\<close>

definition geosearch_run :: "env \<Rightarrow> geosearch \<Rightarrow> double \<Rightarrow> SortedSet \<Rightarrow> string res" where
  "geosearch_run env g radius z =
     (case (case gs_from_member g of
              None \<Rightarrow> gs_center g
            | Some member \<Rightarrow>
                (case hget (scores z) member of
                   None \<Rightarrow> gs_center g
                 | Some score \<Rightarrow> decode_coordinates env score)) of
        None \<Rightarrow> Inr (geo_error ''could not decode requested zset member'')
      | Some center \<Rightarrow>
          map_sum id (\<lambda>rs. to_bytes (NestedArray rs))
            (geosearch_results env g (geosearch_order g (geosearch_scan env g center radius (ordered z) []))))"

definition handle_geosearch :: "env \<Rightarrow> store \<Rightarrow> args \<Rightarrow> store \<times> string res" where
  "handle_geosearch env s args =
     (if length args < 7 then (s, Inr (arity_error ''geosearch''))
      else case wrong_sorted_set_type env s (args ! 1) of
        (s, True) \<Rightarrow> (s, Inr wrong_type)
      | (s, False) \<Rightarrow>
          (s, case geosearch_options env new_geosearch (drop 2 args) of
                Inl failure \<Rightarrow> Inr failure
              | Inr g \<Rightarrow>
                  if gs_center g = None \<and> gs_from_member g = None
                  then Inr (geo_error ''exactly one of FROMMEMBER or FROMLONLAT can be specified for GEOSEARCH'')
                  else case gs_radius g of
                    None \<Rightarrow> Inr (geo_error ''BYRADIUS is required for GEOSEARCH'')
                  | Some radius \<Rightarrow>
                      if gs_any g \<and> gs_count g = 0
                      then Inr (geo_error ''the ANY argument requires COUNT argument'')
                      else case hget (sorted_sets s) (args ! 1) of
                        None \<Rightarrow> Inr (to_bytes (Array []))
                      | Some z \<Rightarrow> geosearch_run env g radius z))"

section \<open>The code of a position\<close>

lemma bit_move_bit: "bit (move_bit b n w) j \<longleftrightarrow> j = n \<and> n < 64 \<and> bit w b"
  by (auto simp: move_bit_def bit_and_iff bit_exp_iff bit_push_bit_iff bit_drop_bit_eq dest: bit_imp_le_length)

text \<open>The loop puts bit \<open>b\<close> of the longitude at \<open>2 b + 1\<close> and of the latitude at \<open>2 b\<close>.\<close>

lemma bit_interleave:
  "bit (interleave lon lat) j \<longleftrightarrow> j < 54 \<and> (if odd j then bit lon (j div 2) else bit lat (j div 2))"
proof -
  have "bit (fold (\<lambda>b score. score OR move_bit b (2 * b + 1) lon OR move_bit b (2 * b) lat) [0..<n] 0) j
      \<longleftrightarrow> j < 2 * n \<and> (if odd j then bit lon (j div 2) else bit lat (j div 2))" if "n \<le> 32" for n
    using that
  proof (induction n)
    case (Suc n)
    consider "j = 2 * n" | "j = Suc (2 * n)" | "j \<noteq> 2 * n" "j \<noteq> Suc (2 * n)" by blast
    then show ?case
      using Suc by cases (auto simp: bit_or_iff bit_move_bit less_Suc_eq)
  qed simp
  from this [of 27] show ?thesis by (simp add: interleave_def)
qed

lemma bit_deinterleave:
  "bit (fst (deinterleave h)) j \<longleftrightarrow> j < 32 \<and> bit h (2 * j + 1)"
  "bit (snd (deinterleave h)) j \<longleftrightarrow> j < 32 \<and> bit h (2 * j)"
proof -
  let ?step = "\<lambda>b (lon, lat). (lon OR move_bit (2 * b + 1) b h, lat OR move_bit (2 * b) b h)"
  have "(bit (fst (fold ?step [0..<n] (0, 0))) j \<longleftrightarrow> j < n \<and> bit h (2 * j + 1))
      \<and> (bit (snd (fold ?step [0..<n] (0, 0))) j \<longleftrightarrow> j < n \<and> bit h (2 * j))" if "n \<le> 32" for n
    using that
  proof (induction n)
    case (Suc n)
    then show ?case
      by (auto simp: case_prod_beta bit_or_iff bit_move_bit less_Suc_eq)
  qed simp
  from this [of 32] show "bit (fst (deinterleave h)) j \<longleftrightarrow> j < 32 \<and> bit h (2 * j + 1)"
    "bit (snd (deinterleave h)) j \<longleftrightarrow> j < 32 \<and> bit h (2 * j)"
    unfolding deinterleave_def by simp_all
qed

lemma small_word_bits: "unat (w :: 64 word) < 2 ^ n \<Longrightarrow> n \<le> j \<Longrightarrow> \<not> bit w j"
proof -
  assume "unat w < 2 ^ n" "n \<le> j"
  then have "unat w < 2 ^ j" using power_increasing [of n j "2 :: nat"] by linarith
  then have "\<not> bit (unat w) j" by (simp add: bit_iff_odd)
  then show ?thesis by (simp add: bit_unsigned_iff)
qed

lemma deinterleave_interleave:
  assumes "unat lon < 2 ^ 27" "unat lat < 2 ^ 27"
  shows "deinterleave (interleave lon lat) = (lon, lat)"
proof -
  have "bit (fst (deinterleave (interleave lon lat))) j \<longleftrightarrow> bit lon j" for j
    using small_word_bits [OF assms(1), of j] by (cases "27 \<le> j") (auto simp: bit_deinterleave bit_interleave)
  moreover have "bit (snd (deinterleave (interleave lon lat))) j \<longleftrightarrow> bit lat j" for j
    using small_word_bits [OF assms(2), of j] by (cases "27 \<le> j") (auto simp: bit_deinterleave bit_interleave)
  ultimately show ?thesis by (metis bit_word_eqI prod.collapse)
qed

section \<open>The handlers keep the store well-formed\<close>

lemma geoadd_loop_ok:
  "zset_ok z \<Longrightarrow> \<forall>(d, m) \<in> set es. d \<noteq> NaN \<Longrightarrow> zset_ok (fst (geoadd_loop f es z))"
  by (induction es arbitrary: z) (auto simp: Let_def case_prod_beta zset_add_ok)

text \<open>On an empty set without \<open>XX\<close> the first entry is always added.\<close>

lemma geoadd_loop_keeps: "scores z \<noteq> [] \<Longrightarrow> scores (fst (geoadd_loop f es z)) \<noteq> []"
proof (induction es arbitrary: z)
  case (Cons e es)
  obtain d m where e: "e = (d, m)" by fastforce
  have "hget (scores (fst (zset_add d m z))) m \<noteq> None" by simp
  then have "scores (fst (zset_add d m z)) \<noteq> []" by (metis hget_Nil)
  with Cons e show ?case by (auto simp: Let_def case_prod_beta)
qed simp

lemma geoadd_loop_nonempty:
  assumes "scores z \<noteq> [] \<or> (\<not> ga_xx f \<and> es \<noteq> [])"
  shows "scores (fst (geoadd_loop f es z)) \<noteq> []"
proof (cases "scores z")
  case Nil
  with assms obtain d m rest where es: "es = (d, m) # rest" and xx: "\<not> ga_xx f" by (cases es) auto
  have "hget (scores (fst (zset_add d m z))) m \<noteq> None" by simp
  then have "scores (fst (zset_add d m z)) \<noteq> []" by (metis hget_Nil)
  with Nil es xx geoadd_loop_keeps show ?thesis by (simp add: Let_def case_prod_beta)
qed (simp add: geoadd_loop_keeps)

lemma geoadd_entries_legal:
  assumes "env_ok env"
  shows "geoadd_entries env ts = Inr es \<Longrightarrow> \<forall>(d, m) \<in> set es. d \<noteq> NaN"
  using assms
proof (induction env ts arbitrary: es rule: geoadd_entries.induct)
  case (1 env lon lat m ts)
  then obtain p where p: "parse_coordinates env lon lat = Inr p" by (auto split: sum.splits)
  with 1(2) obtain q fs where "geoadd_entries env ts = Inr fs" "es = (round_double env q, m) # fs"
    by (auto split: sum.splits)
  with 1(1) [OF p _ 1(3)] 1(3) show ?case by (auto simp: env_ok_def)
qed auto

lemma geoadd_entries_nonempty:
  "geoadd_entries env ts = Inr es \<Longrightarrow> ts \<noteq> [] \<Longrightarrow> length ts mod 3 = 0 \<Longrightarrow> es \<noteq> []"
  by (cases "(env, ts)" rule: geoadd_entries.cases) (auto split: sum.splits)

lemma handle_geoadd_wf:
  assumes "env_ok env" "store_wf s"
  shows "store_wf (fst (handle_geoadd env s args))"
proof -
  let ?s = "reap env s (args ! 1)" and ?z = "zset_at (reap env s (args ! 1)) (args ! 1)"
  obtain f rest where opts: "geoadd_options \<lparr>ga_nx = False, ga_xx = False, ga_ch = False\<rparr> (drop 2 args) = (f, rest)"
    by fastforce
  have wf: "store_wf ?s" by (rule reap_wf [OF assms(2)])
  have "store_wf (?s\<lparr>sorted_sets := hput (args ! 1) (fst (geoadd_loop f es ?z)) (sorted_sets ?s)\<rparr>)"
    if "geoadd_entries env rest = Inr es" "rest \<noteq> []" "length rest mod 3 = 0"
      "\<not> (ga_xx f \<and> \<not> hcontains (sorted_sets ?s) (args ! 1))" for es
  proof (rule put_zset_wf [OF wf])
    show "zset_ok (fst (geoadd_loop f es ?z))"
      using geoadd_entries_legal [OF assms(1) that(1)] zset_at_ok [OF wf] by (rule geoadd_loop_ok [rotated])
    have "hcontains (sorted_sets ?s) (args ! 1) \<Longrightarrow> scores ?z \<noteq> []"
      using wf by (auto simp: store_wf_def zsets_ok_def hcontains_def zset_at_def)
    then show "scores (fst (geoadd_loop f es ?z)) \<noteq> []"
      using that(4) geoadd_entries_nonempty [OF that(1-3)] by (intro geoadd_loop_nonempty) blast
  qed
  with opts wf assms(2) show ?thesis
    by (auto simp: handle_geoadd_def wrong_sorted_set_type_eq case_prod_beta split: sum.split bool.split)
qed

interpretation geoadd_h: wf_handler handle_geoadd
  by unfold_locales (rule handle_geoadd_wf)

interpretation geopos_h: reading_handler handle_geopos
  by unfold_locales
    (rule reads_one_key [where k = "args ! 1" for args :: args],
      auto simp: handle_geopos_def wrong_sorted_set_type_eq split: bool.split)

interpretation geodist_h: reading_handler handle_geodist
  by unfold_locales
    (rule reads_one_key [where k = "args ! 1" for args :: args],
      auto simp: handle_geodist_def wrong_sorted_set_type_eq Let_def split: bool.split)

interpretation geosearch_h: reading_handler handle_geosearch
  by unfold_locales
    (rule reads_one_key [where k = "args ! 1" for args :: args],
      auto simp: handle_geosearch_def wrong_sorted_set_type_eq split: bool.split)

section \<open>Properties of positions\<close>

text \<open>The numbers of the cells a position lies in, and the point at the centre of a cell.\<close>

definition lon_cell :: "env \<Rightarrow> Coordinates \<Rightarrow> nat" where
  "lon_cell env point = (let r = round_double env in
     dbl_trunc (dbl_mul r (dbl_div r (dbl_add r (longitude point) (Fin 180)) (Fin 360)) (Fin (2 ^ 26))))"

definition lat_cell :: "env \<Rightarrow> Coordinates \<Rightarrow> nat" where
  "lat_cell env point = (let r = round_double env; top = r (8505112878 / 100000000) in
     dbl_trunc (dbl_mul r (dbl_div r (dbl_add r (latitude point) top) (dbl_mul r (Fin 2) top)) (Fin (2 ^ 26))))"

definition cell_middle :: "env \<Rightarrow> double \<Rightarrow> double \<Rightarrow> nat \<Rightarrow> double" where
  "cell_middle env lo width n = (let r = round_double env;
     edge = (\<lambda>i. dbl_add r lo (dbl_mul r (dbl_div r (r (of_nat i)) (Fin (2 ^ 26))) width))
     in dbl_div r (dbl_add r (edge n) (edge (n + 1))) (Fin 2))"

definition cell_centre :: "env \<Rightarrow> nat \<Rightarrow> nat \<Rightarrow> Coordinates" where
  "cell_centre env lon lat = (let r = round_double env; top = r (8505112878 / 100000000) in
     \<lparr>longitude = dbl_clamp (cell_middle env (Fin (- 180)) (Fin 360) lon) (Fin (- 180)) (Fin 180),
      latitude = dbl_clamp (cell_middle env (dbl_neg top) (dbl_mul r (Fin 2) top) lat) (dbl_neg top) top\<rparr>)"

text \<open>In exact arithmetic the middle of cell \<open>n\<close> is \<open>n + 1/2\<close> cell widths from the lower bound.\<close>

lemma cell_middle_exact:
  assumes "round_double env = Fin"
  shows "cell_middle env (Fin lo) (Fin width) n = Fin (lo + (of_nat n + 1 / 2) / 2 ^ 26 * width)"
  using assms by (simp add: cell_middle_def dbl_mul_def dbl_div_def isnan_def isinf_def field_simps)

lemma interleave_below:
  assumes "unat lon < 2 ^ 26" "unat lat \<le> 2 ^ 26"
  shows "unat (interleave lon lat) < 2 ^ 53"
proof -
  have "bit (interleave lon lat) j \<Longrightarrow> j < 53" for j
    using small_word_bits [OF assms(1), of 26] by (cases "j = 53") (auto simp: bit_interleave)
  then have "take_bit 53 (interleave lon lat) = interleave lon lat"
    by (intro bit_word_eqI) (auto simp: bit_take_bit_iff)
  then have "unat (interleave lon lat) = take_bit 53 (unat (interleave lon lat))"
    by (metis unsigned_take_bit_eq)
  then show ?thesis by (metis take_bit_nat_less_exp)
qed

lemma encode_cells:
  "encode_coordinates env point = interleave (of_nat (lon_cell env point)) (of_nat (lat_cell env point))"
  by (simp add: encode_coordinates_def lon_cell_def lat_cell_def kCoordinateScale_def kMaxLatitude_def Let_def)

lemma decode_cells:
  assumes "unat h < 2 ^ 63" "deinterleave h = (of_nat lon, of_nat lat)" "lon < 2 ^ 32" "lat < 2 ^ 32"
  shows "decode_coordinates env (Fin (of_nat (unat h))) = Some (cell_centre env lon lat)"
proof -
  have "(of_nat (unat h) :: rat) < of_nat (2 ^ 63)" using assms(1) by (subst of_nat_less_iff)
  then have less: "(of_nat (unat h) :: rat) < 2 ^ 63" by simp
  have cell: "unat (of_nat n :: 64 word) = n" if "n \<le> 2 ^ 32" for n
    using that by (simp add: unat_of_nat take_bit_nat_eq_self_iff)
  have cells: "unat (of_nat n :: 64 word) = n" "unat (of_nat n + 1 :: 64 word) = Suc n" if "n < 2 ^ 32" for n
    using that cell [of n] cell [of "Suc n"] by (simp_all add: add.commute)
  have hash: "of_nat (dbl_trunc (Fin (of_nat (unat h)))) = h" by (simp add: dbl_trunc_def del: of_nat_unat) simp
  have legal: "isfinite (Fin q)" for q by (simp add: isfinite_def isinf_def isnan_def)
  show ?thesis
    using less unfolding decode_coordinates_def hash assms(2)
    by (simp add: legal cells [OF assms(3)] cells [OF assms(4)] cell_centre_def cell_middle_def cell_edge_def kCoordinateScale_def kMaxLatitude_def
        Let_def del: of_nat_unat)
qed

text \<open>A sorted set stored under a key of a typed store that may hold one.\<close>

lemma free_for_zset:
  assumes "typed_ok s" "store_wf s" "holds_zset env s k"
  shows "hget (Storage (reap env s k)) k = None \<and> hget (DynamicVector s) k = None \<and> hget (Streams s) k = None
     \<and> hget (Expirations (reap env s k)) k = None"
proof (cases "dead env s k")
  case True
  with dead_string [OF store_wf_expiry [OF assms(2)]] obtain v where "hget (Storage s) k = Some v" by blast
  with True typed_ok_string [OF assms(1)] show ?thesis by simp
next
  case False
  with assms(3) have "hget (Storage s) k = None \<and> hget (DynamicVector s) k = None \<and> hget (Streams s) k = None"
    by (auto simp: holds_zset_def view_def split: option.splits)
  with False store_wf_expiry [OF assms(2)] show ?thesis
    by (auto simp: expiry_ok_def hcontains_def)
qed

lemma zset_held:
  fixes z :: SortedSet
  assumes "typed_ok s" "store_wf s" "holds_zset env s k"
  defines "s' \<equiv> (reap env s k)\<lparr>sorted_sets := hput k z (sorted_sets s)\<rparr>"
  shows "holds_zset env' s' k" "reap env' s' k = s'"
  using free_for_zset [OF assms(1-3)] by (simp_all add: s'_def holds_zset_def view_def reap_def dead_def split: option.split)

text \<open>Decoding and printing do not read the clock.\<close>

lemma positions_any_time:
  "decode_coordinates (env\<lparr>steady_now := t\<rparr>) = decode_coordinates env"
  "coordinates_reply (env\<lparr>steady_now := t\<rparr>) = coordinates_reply env"
  by (simp_all add: fun_eq_iff decode_coordinates_def coordinates_reply_def cell_edge_def kMaxLatitude_def format_number_def)

lemma geoadd_entries_position:
  assumes "parse_coordinates env x y = Inr point" "lon_cell env point < 2 ^ 26" "lat_cell env point \<le> 2 ^ 26"
    and "\<And>n. n < 2 ^ 53 \<Longrightarrow> round_double env (of_nat n) = Fin (of_nat n)"
  shows "\<exists>score. geoadd_entries env [x, y, m] = Inr [(score, m)] \<and> score \<noteq> NaN
    \<and> decode_coordinates env score = Some (cell_centre env (lon_cell env point) (lat_cell env point))"
proof -
  let ?lon = "of_nat (lon_cell env point) :: 64 word" and ?lat = "of_nat (lat_cell env point) :: 64 word"
  have cells: "unat ?lon = lon_cell env point" "unat ?lat = lat_cell env point"
    using assms(2,3) by (simp_all add: unat_of_nat take_bit_nat_eq_self_iff)
  then have below: "unat (interleave ?lon ?lat) < 2 ^ 53" using assms(2,3) by (intro interleave_below) simp_all
  have "deinterleave (interleave ?lon ?lat) = (?lon, ?lat)"
    using cells assms(2,3) by (intro deinterleave_interleave) simp_all
  then have "decode_coordinates env (Fin (of_nat (unat (interleave ?lon ?lat))))
      = Some (cell_centre env (lon_cell env point) (lat_cell env point))"
    using below assms(2,3) by (intro decode_cells) simp_all
  with assms(1) assms(4) [OF below] show ?thesis by (simp add: encode_cells del: of_nat_unat)
qed

text \<open>C33: A position survives its way through the score of a sorted set. \<open>GEOADD key lon lat member\<close>
  on a key that holds a sorted set or nothing gives the member one score (other members and other
  keys keep theirs, and the reply says whether the member is new), and the score, although it is
  the interleaved code converted to \<open>double\<close>, decodes to the centre of exactly the cell the
  position lies in: \<open>GEOPOS key member\<close>, at any later time, answers that centre. The store is
  well-formed and typed; the position is any that the command accepts whose longitude cell is below
  \<open>2 ^ 26\<close> (it is \<open>2 ^ 26\<close> at longitude 180) and whose latitude cell is at most \<open>2 ^ 26\<close>, with a
  longitude that is not written as an option word; the conversion is assumed exact for integers
  below \<open>2 ^ 53\<close>, as IEEE 754 has it.\<close>

theorem geopos_after_geoadd:
  assumes "store_wf s" "typed_ok s" "holds_zset env s k"
    and "parse_coordinates env x y = Inr point" "to_upper x \<notin> {''NX'', ''XX'', ''CH''}"
    and "lon_cell env point < 2 ^ 26" "lat_cell env point \<le> 2 ^ 26"
    and "\<And>n. n < 2 ^ 53 \<Longrightarrow> round_double env (of_nat n) = Fin (of_nat n)"
  defines "centre \<equiv> cell_centre env (lon_cell env point) (lat_cell env point)"
  shows "\<exists>s' score. handle_geoadd env s [cmd, k, x, y, m] = (s', to_bytes (Integer (if scores_at s k m = None then 1 else 0)))
     \<and> scores_at s' k = (scores_at s k)(m \<mapsto> score) \<and> (\<forall>k'. k' \<noteq> k \<longrightarrow> scores_at s' k' = scores_at s k')
     \<and> decode_coordinates env score = Some centre
     \<and> handle_geopos (env\<lparr>steady_now := later\<rparr>) s' [cmd', k, m]
       = (s', map_sum id (\<lambda>pair. to_bytes (NestedArray [pair])) (coordinates_reply env centre))"
proof -
  let ?f = "\<lparr>ga_nx = False, ga_xx = False, ga_ch = False\<rparr>" and ?z = "zset_at s k" and ?later = "env\<lparr>steady_now := later\<rparr>"
  obtain score where e: "geoadd_entries env [x, y, m] = Inr [(score, m)]" "decode_coordinates env score = Some centre"
    using geoadd_entries_position [OF assms(4,6,7,8)] by (auto simp: centre_def)
  let ?g = "geoadd_loop ?f [(score, m)] ?z"
  let ?s = "(reap env s k)\<lparr>sorted_sets := hput k (fst ?g) (sorted_sets s)\<rparr>"
  have loop: "hget (scores (fst ?g)) = (hget (scores ?z))(m \<mapsto> score)" "fst (snd ?g) = (if scores_at s k m = None then 1 else 0)"
    by (auto simp: scores_at_def Let_def case_prod_beta fun_eq_iff dbl_eq_def split: option.splits)
  have add: "handle_geoadd env s [cmd, k, x, y, m] = (?s, to_bytes (Integer (fst (snd ?g))))"
    using assms(3,5) e(1)
    by (simp add: handle_geoadd_def wrong_sorted_set_type_holds case_prod_beta del: geoadd_entries.simps geoadd_loop.simps)
  have pos: "handle_geopos ?later ?s [cmd', k, m]
      = (?s, map_sum id (\<lambda>pair. to_bytes (NestedArray [pair])) (coordinates_reply env centre))"
    using zset_held [OF assms(2,1,3), where z = "fst ?g" and env' = ?later] loop(1) e(2)
    by (simp add: handle_geopos_def wrong_sorted_set_type_holds member_point_def positions_any_time
        del: geoadd_loop.simps split: sum.split)
  have at: "scores_at ?s k = (scores_at s k)(m \<mapsto> score)" "\<forall>k'. k' \<noteq> k \<longrightarrow> scores_at ?s k' = scores_at s k'"
    using loop(1) by (simp_all add: scores_at_def zset_at_def del: geoadd_loop.simps)
  show ?thesis
    by (rule exI [of _ ?s], rule exI [of _ score], intro conjI add [unfolded loop(2)] at e(2) pos)
qed

lemma exact_rounding: "round_double sample_env = Fin"
  by (simp add: sample_env_def)

theorem geopos_after_geoadd_witness:
  "\<exists>s' score. handle_geoadd sample_env sample_zset_store [''GEOADD'', ''z'', ''90'', ''0'', ''c''] = (s', to_bytes (Integer 1))
     \<and> scores_at s' ''z'' = [''a'' \<mapsto> Fin 2, ''b'' \<mapsto> Fin 1, ''c'' \<mapsto> score]
     \<and> decode_coordinates sample_env score = Some \<lparr>longitude = Fin (90 + 360 / 2 ^ 27), latitude = Fin (4252556439 / 3355443200000000)\<rparr>"
proof -
  let ?p = "\<lparr>longitude = Fin 90, latitude = Fin 0\<rparr>"
  have given: "parse_coordinates sample_env ''90'' ''0'' = Inr ?p" "to_upper ''90'' \<notin> {''NX'', ''XX'', ''CH''}"
    by code_simp+
  note exact = exact_rounding
  have trunc: "dbl_trunc (Fin (numeral n)) = numeral n" for n by (simp add: dbl_trunc_def)
  have cells: "lon_cell sample_env ?p = 50331648" "lat_cell sample_env ?p = 33554432"
    unfolding lon_cell_def lat_cell_def exact
    by (simp_all add: trunc dbl_mul_def dbl_div_def isnan_def isinf_def)
  have centre: "cell_centre sample_env 50331648 33554432
     = \<lparr>longitude = Fin (90 + 360 / 2 ^ 27), latitude = Fin (4252556439 / 3355443200000000)\<rparr>"
    by (simp add: cell_centre_def exact cell_middle_exact dbl_mul_def dbl_clamp_def isnan_def isinf_def)
  have below: "lon_cell sample_env ?p < 2 ^ 26" "lat_cell sample_env ?p \<le> 2 ^ 26" by (simp_all add: cells)
  have typed: "typed_ok sample_zset_store"
    by (simp add: typed_ok_def sample_zset_store_def new_store_def hcontains_def)
  have "([''a'' \<mapsto> Fin 2, ''b'' \<mapsto> Fin 1])(''c'' \<mapsto> d) = [''a'' \<mapsto> Fin 2, ''b'' \<mapsto> Fin 1, ''c'' \<mapsto> d]" for d by simp
  then show ?thesis
    using geopos_after_geoadd [OF sample_zset_store_ok(1) typed sample_zset_store_ok(2) given below, of "''GEOADD''" "''c''" 9 "''GEOPOS''"]
    unfolding cells centre sample_scores_at exact by auto
qed

text \<open>At longitude 180 the cell is \<open>2 ^ 26\<close> and the code of an odd latitude cell is an odd number
  above \<open>2 ^ 53\<close>, which no \<open>double\<close> holds; rounded down to the even number before it, the code is
  that of the latitude cell to the south.\<close>

lemma odd_word_pred: "odd w \<Longrightarrow> w - 1 = unset_bit 0 w" for w :: "64 word"
  using mult_div_mod_eq [of 2 w] by (simp add: unset_bit_0 odd_iff_mod_2_eq_one algebra_simps)

lemma odd_unset_pred: "odd w \<Longrightarrow> bit (w - 1) j \<longleftrightarrow> bit w j \<and> j \<noteq> 0" for w :: "64 word"
  by (auto simp: odd_word_pred bit_unset_bit_iff)

lemma eastern_edge_loses_latitude:
  assumes "odd lat" "unat lat \<le> 2 ^ 26"
  defines "code \<equiv> interleave 67108864 lat"
  shows "2 ^ 53 \<le> unat code \<and> odd (unat code) \<and> deinterleave (code - 1) = (67108864, lat - 1)"
proof -
  have edge: "(67108864 :: 64 word) = 2 ^ 26" by simp
  have east: "bit (67108864 :: 64 word) j \<longleftrightarrow> j = 26" for j by (simp only: edge bit_exp_iff) auto
  have odd: "odd code" using assms(1) bit_interleave [of 67108864 lat 0] by (simp add: code_def bit_0)
  have "bit code 53" using east [of 26] by (simp add: code_def bit_interleave)
  then have "2 ^ 53 \<le> unat code" using small_word_bits [of code 53 53] by (meson not_le order_refl)
  moreover have "odd (unat code)" using odd bit_unsigned_iff [of code 0] by (simp add: bit_0)
  moreover have "bit (fst (deinterleave (code - 1))) j \<longleftrightarrow> bit (67108864 :: 64 word) j" for j
    using odd_unset_pred [OF odd, of "2 * j + 1"] bit_interleave [of 67108864 lat "2 * j + 1", folded code_def] east [of j]
    by (auto simp: bit_deinterleave)
  moreover have "bit (snd (deinterleave (code - 1))) j \<longleftrightarrow> bit (lat - 1) j" for j
    using odd_unset_pred [OF odd, of "2 * j"] bit_interleave [of 67108864 lat "2 * j", folded code_def]
      odd_unset_pred [OF assms(1), of j] small_word_bits [of lat 27 j] assms(2)
    by (auto simp: bit_deinterleave)
  ultimately show ?thesis by (metis bit_word_eqI prod.collapse)
qed

section \<open>Properties of searches\<close>

text \<open>The request as its words: where the search starts, the order of the answers asked for, and
  \<open>COUNT n\<close> with or without \<open>ANY\<close>.\<close>

datatype search_origin = AtPoint string string | AtMember string

datatype search_order = Unordered | Nearest | Farthest

fun origin_words :: "search_origin \<Rightarrow> string list" where
  "origin_words (AtPoint lon lat) = [''FROMLONLAT'', lon, lat]"
| "origin_words (AtMember m) = [''FROMMEMBER'', m]"

fun order_words :: "search_order \<Rightarrow> string list" where
  "order_words Unordered = []"
| "order_words Nearest = [''ASC'']"
| "order_words Farthest = [''DESC'']"

fun cap_words :: "(int \<times> bool) option \<Rightarrow> string list" where
  "cap_words None = []"
| "cap_words (Some (n, any)) = [''COUNT'', to_string_int n] @ (if any then [''ANY''] else [])"

text \<open>The centre of the search, or the reply when there is none.\<close>

fun search_centre :: "env \<Rightarrow> store \<Rightarrow> string \<Rightarrow> search_origin \<Rightarrow> string + Coordinates" where
  "search_centre env s k (AtPoint lon lat) = parse_coordinates env lon lat"
| "search_centre env s k (AtMember m) =
     (if hget (sorted_sets s) k = None then Inl (to_bytes (Array []))
      else case scores_at s k m of
        None \<Rightarrow> Inl (geo_error ''could not decode requested zset member'')
      | Some score \<Rightarrow>
          (case decode_coordinates env score of
             None \<Rightarrow> Inl (geo_error ''could not decode requested zset member'')
           | Some point \<Rightarrow> Inr point))"

text \<open>A pair of the set as a match, when it is a position within the radius.\<close>

definition near_match :: "env \<Rightarrow> double \<Rightarrow> Coordinates \<Rightarrow> double \<Rightarrow> double \<times> string \<Rightarrow> Match option" where
  "near_match env metres centre radius p =
     (case decode_coordinates env (fst p) of
        None \<Rightarrow> None
      | Some point \<Rightarrow>
          (let away = dbl_div (round_double env) (distance_in_meters env centre point) metres
           in if dbl_less radius away then None
              else Some \<lparr>m_member = snd p, m_score = fst p, m_point = point, m_distance = away\<rparr>))"

lemma geosearch_scan_all:
  "\<not> gs_any g \<Longrightarrow> geosearch_scan env g c r ps ms = ms @ List.map_filter (near_match env (gs_unit g) c r) ps"
proof (induction ps arbitrary: ms)
  case (Cons p ps)
  obtain d m where "p = (d, m)" by fastforce
  with Cons show ?case
    by (simp add: near_match_def map_filter_simps Let_def split: option.split)
qed (simp add: map_filter_simps)

lemma geosearch_scan_any:
  assumes "gs_any g" "length ms < nat (gs_count g)"
  shows "geosearch_scan env g c r ps ms
     = ms @ take (nat (gs_count g) - length ms) (List.map_filter (near_match env (gs_unit g) c r) ps)"
  using assms(2)
proof (induction ps arbitrary: ms)
  case (Cons p ps)
  obtain d m where p: "p = (d, m)" by fastforce
  show ?case
  proof (cases "near_match env (gs_unit g) c r p")
    case None
    with Cons p assms(1) show ?thesis
      by (auto simp: near_match_def map_filter_simps Let_def split: option.splits if_splits)
  next
    case (Some x)
    then have step: "geosearch_scan env g c r (p # ps) ms
        = (if Suc (length ms) = nat (gs_count g) then ms @ [x] else geosearch_scan env g c r ps (ms @ [x]))"
      using p assms(1) by (auto simp: near_match_def Let_def split: option.splits if_splits)
    show ?thesis
    proof (cases "Suc (length ms) = nat (gs_count g)")
      case True
      then have "nat (gs_count g) - length ms = 1" by simp
      with step Some True show ?thesis by (simp add: map_filter_simps)
    next
      case False
      then have less: "length (ms @ [x]) < nat (gs_count g)" using Cons.prems by simp
      then have "nat (gs_count g) - length ms = Suc (nat (gs_count g) - Suc (length ms))" by simp
      with step Some False Cons.IH [OF less] show ?thesis by (simp add: map_filter_simps)
    qed
  qed
qed (simp add: map_filter_simps)

text \<open>The matches a search collects, the order they are listed in, and the cut to the count.\<close>

fun collected :: "(int \<times> bool) option \<Rightarrow> 'a list \<Rightarrow> 'a list" where
  "collected (Some (n, True)) all = take (nat n) all"
| "collected _ all = all"

fun listing_order :: "search_order \<Rightarrow> (int \<times> bool) option \<Rightarrow> search_order" where
  "listing_order Unordered (Some (n, False)) = Nearest"
| "listing_order order cap = order"

fun in_order :: "search_order \<Rightarrow> Match list \<Rightarrow> Match list \<Rightarrow> bool" where
  "in_order Unordered found ms \<longleftrightarrow> ms = found"
| "in_order Nearest found ms \<longleftrightarrow> mset ms = mset found \<and> sorted (map m_distance ms)
     \<and> (\<forall>d. filter (\<lambda>m. m_distance m = d) ms = filter (\<lambda>m. m_distance m = d) found)"
| "in_order Farthest found ms \<longleftrightarrow> mset ms = mset found \<and> sorted (rev (map m_distance ms))
     \<and> (\<forall>d. filter (\<lambda>m. m_distance m = d) ms = filter (\<lambda>m. m_distance m = d) found)"

fun cut_to :: "(int \<times> bool) option \<Rightarrow> 'a list \<Rightarrow> 'a list" where
  "cut_to None ms = ms"
| "cut_to (Some (n, _)) ms = take (nat n) ms"

text \<open>The options as the parser leaves them.\<close>

definition search_request :: "Coordinates option \<Rightarrow> string option \<Rightarrow> double \<Rightarrow> double \<Rightarrow> search_order \<Rightarrow> (int \<times> bool) option \<Rightarrow> geosearch" where
  "search_request center member radius metres order cap =
     new_geosearch\<lparr>gs_center := center, gs_from_member := member, gs_radius := Some radius, gs_unit := metres,
       gs_sort := (case order of Unordered \<Rightarrow> 0 | Nearest \<Rightarrow> 1 | Farthest \<Rightarrow> - 1),
       gs_count := (case cap of None \<Rightarrow> 0 | Some (n, _) \<Rightarrow> n), gs_any := (case cap of None \<Rightarrow> False | Some (_, any) \<Rightarrow> any)\<rparr>"

definition legal_cap :: "(int \<times> bool) option \<Rightarrow> bool" where
  "legal_cap cap = (case cap of None \<Rightarrow> True | Some (n, _) \<Rightarrow> 0 < n \<and> n < 2 ^ 63)"

lemma search_words [simp]:
  "to_upper ''FROMLONLAT'' = ''FROMLONLAT''" "to_upper ''FROMMEMBER'' = ''FROMMEMBER''" "to_upper ''BYRADIUS'' = ''BYRADIUS''"
  "to_upper ''ASC'' = ''ASC''" "to_upper ''DESC'' = ''DESC''" "to_upper ''COUNT'' = ''COUNT''" "to_upper ''ANY'' = ''ANY''"
  by code_simp+

lemma search_units:
  "to_upper ''m'' = ''M''" "to_upper ''km'' = ''KM''" "to_upper ''mi'' = ''MI''" "to_upper ''ft'' = ''FT''"
  by code_simp+

lemma search_tail_read:
  assumes "parse_radius env text unit = Inr (radius, metres)" "legal_cap cap"
  shows "geosearch_options env (new_geosearch\<lparr>gs_center := center, gs_from_member := member\<rparr>)
      ([''BYRADIUS'', text, unit] @ order_words order @ cap_words cap)
     = Inr (search_request center member radius metres order cap)"
proof -
  have "parse_count (to_string_int n) = Inr n" if "0 < n" "n < 2 ^ 63" for n
    using that by (simp add: parse_count_def whole_s64_to_string)
  with assms show ?thesis
    by (cases cap rule: cap_words.cases; cases order)
      (auto simp: search_request_def new_geosearch_def legal_cap_def)
qed

lemma search_options_read:
  assumes "parse_radius env text unit = Inr (radius, metres)" "legal_cap cap"
  shows "geosearch_options env new_geosearch (origin_words origin @ [''BYRADIUS'', text, unit] @ order_words order @ cap_words cap)
     = (case origin of
          AtPoint lon lat \<Rightarrow> map_sum id (\<lambda>p. search_request (Some p) None radius metres order cap) (parse_coordinates env lon lat)
        | AtMember m \<Rightarrow> Inr (search_request None (Some m) radius metres order cap))"
proof -
  have point: "geosearch_options env new_geosearch (''FROMLONLAT'' # lon # lat # rest)
     = (case parse_coordinates env lon lat of Inl failure \<Rightarrow> Inl failure
        | Inr p \<Rightarrow> geosearch_options env (new_geosearch\<lparr>gs_center := Some p, gs_from_member := None\<rparr>) rest)" for lon lat rest
    by (simp add: new_geosearch_def split: sum.split)
  have member: "geosearch_options env new_geosearch (''FROMMEMBER'' # m # rest)
     = geosearch_options env (new_geosearch\<lparr>gs_center := None, gs_from_member := Some m\<rparr>) rest" for m rest
    by (simp add: new_geosearch_def)
  show ?thesis
  proof (cases origin)
    case (AtPoint lon lat)
    then show ?thesis
      using search_tail_read [OF assms, where center = "Some p" and member = None and order = order for p]
      by (cases "parse_coordinates env lon lat") (simp_all add: point del: geosearch_options.simps)
  next
    case (AtMember m)
    then show ?thesis
      using search_tail_read [OF assms, where center = None and member = "Some m" and order = order] by (simp add: member del: geosearch_options.simps)
  qed
qed

lemma plain_results:
  "\<not> gs_with_dist g \<Longrightarrow> \<not> gs_with_hash g \<Longrightarrow> \<not> gs_with_coord g \<Longrightarrow>
     geosearch_results env g ms = Inr (map (BulkString \<circ> m_member) ms)"
  by (induction ms) simp_all


text \<open>Sorting from the far end keeps equal distances in their order, too.\<close>

lemma sorted_in_order:
  "in_order Nearest found (sort_key m_distance found)"
  "in_order Farthest found (rev (sort_key m_distance (rev found)))"
proof -
  have "filter (\<lambda>m. m_distance m = d) (rev (sort_key m_distance (rev found))) = filter (\<lambda>m. m_distance m = d) found" for d
    by (simp add: rev_filter [symmetric] sort_key_stable)
  then show "in_order Farthest found (rev (sort_key m_distance (rev found)))" by (simp add: rev_map)
qed (simp add: sort_key_stable)

lemma search_lists_matches:
  fixes env :: env and radius metres :: double and centre :: Coordinates and center :: "Coordinates option"
    and member :: "string option" and order :: search_order and ps :: "(double \<times> string) list"
  assumes "legal_cap cap"
  defines "g \<equiv> search_request center member radius metres order cap"
  defines "found \<equiv> collected cap (List.map_filter (near_match env metres centre radius) ps)"
  shows "\<exists>ms. in_order (listing_order order cap) found ms
     \<and> geosearch_order g (geosearch_scan env g centre radius ps []) = cut_to cap ms"
proof -
  have g: "gs_unit g = metres" "gs_count g = (case cap of None \<Rightarrow> 0 | Some (n, _) \<Rightarrow> n)"
    "gs_any g = (case cap of None \<Rightarrow> False | Some (_, any) \<Rightarrow> any)"
    "gs_sort g = (case order of Unordered \<Rightarrow> 0 | Nearest \<Rightarrow> 1 | Farthest \<Rightarrow> - 1)"
    by (simp_all add: g_def search_request_def new_geosearch_def)
  have scan: "geosearch_scan env g centre radius ps [] = found"
    using assms(1) geosearch_scan_all [of g env centre radius ps "[]"] geosearch_scan_any [of g "[]" env centre radius ps]
    by (cases "(cap, ps)" rule: collected.cases) (auto simp: found_def g legal_cap_def)
  let ?o = "listing_order order cap"
  let ?ms = "case ?o of Unordered \<Rightarrow> found | Nearest \<Rightarrow> sort_key m_distance found | Farthest \<Rightarrow> rev (sort_key m_distance (rev found))"
  have "in_order ?o found ?ms" using sorted_in_order by (cases ?o) simp_all
  moreover have "geosearch_order g found = cut_to cap ?ms"
    using assms(1) by (cases order; cases "(cap, ps)" rule: collected.cases) (auto simp: geosearch_order_def g legal_cap_def Let_def)
  ultimately show ?thesis unfolding scan by blast
qed

lemma search_request_fields:
  "gs_center (search_request c m r u order cap) = c" "gs_from_member (search_request c m r u order cap) = m"
  "gs_radius (search_request c m r u order cap) = Some r"
  "\<not> gs_with_dist (search_request c m r u order cap)" "\<not> gs_with_hash (search_request c m r u order cap)"
  "\<not> gs_with_coord (search_request c m r u order cap)"
  "legal_cap cap \<Longrightarrow> gs_any (search_request c m r u order cap) \<Longrightarrow> gs_count (search_request c m r u order cap) \<noteq> 0"
  by (simp_all add: search_request_def new_geosearch_def legal_cap_def split: option.splits prod.splits)

text \<open>The handler after the options have been read.\<close>

lemma handle_geosearch_read:
  assumes "holds_zset env s k" "5 \<le> length ws" "legal_cap cap" "c \<noteq> None \<or> m \<noteq> None"
    and "geosearch_options env new_geosearch ws = Inr (search_request c m radius metres order cap)"
  shows "handle_geosearch env s (cmd # k # ws) = (reap env s k,
     case hget (sorted_sets s) k of None \<Rightarrow> Inr (to_bytes (Array []))
     | Some z \<Rightarrow> geosearch_run env (search_request c m radius metres order cap) radius z)"
  using assms by (auto simp: handle_geosearch_def wrong_sorted_set_type_holds search_request_fields simp del: to_bytes.simps)

lemma search_run_lists:
  assumes "legal_cap cap"
    and "(case m of None \<Rightarrow> c | Some x \<Rightarrow> (case hget (scores z) x of None \<Rightarrow> c | Some d \<Rightarrow> decode_coordinates env d)) = Some p"
  shows "\<exists>ms. in_order (listing_order order cap) (collected cap (List.map_filter (near_match env metres p radius) (ordered z))) ms
     \<and> geosearch_run env (search_request c m radius metres order cap) radius z
       = Inr (to_bytes (NestedArray (map (BulkString \<circ> m_member) (cut_to cap ms))))"
  using search_lists_matches [OF assms(1), of order env metres p radius "ordered z" c m]
  unfolding geosearch_run_def search_request_fields assms(2)
  by (auto simp: search_request_fields plain_results simp del: to_bytes.simps)

text \<open>C32: \<open>GEOSEARCH key (FROMLONLAT lon lat | FROMMEMBER m) BYRADIUS r unit [ASC | DESC]
  [COUNT n [ANY]]\<close> on a key that holds a sorted set or nothing, with a finite radius that is not
  negative, a unit m, km, mi or ft, and a positive count. The centre is the point given, or
  the position of the member; a point that is not accepted, or a member that is missing or whose
  score is no position, gives the error reply (an empty array when there is no set). Otherwise the
  reply lists members of the set whose score is a position at most \<open>r\<close> away from the centre in the
  unit named, taken in the order of score and name: all of them, or the first \<open>n\<close> with \<open>ANY\<close>. They
  are listed in that order, nearest first with \<open>ASC\<close> or a count alone, farthest first with \<open>DESC\<close>,
  members at the same distance staying in their order, and at most \<open>n\<close> are listed.\<close>

theorem geosearch_finds_within_radius:
  assumes "store_wf s" "holds_zset env s k"
    and "parse_number env text = Some radius" "isfinite radius" "\<not> dbl_less radius (Fin 0)"
    and "(unit, metres) \<in> {(''m'', Fin 1), (''km'', Fin 1000), (''mi'', round_double env (160934 / 100)),
           (''ft'', round_double env (3048 / 10000))}" "metres \<noteq> Fin 0"
    and "legal_cap cap"
  defines "ranking \<equiv> sorted_list_of_set {(d, m). scores_at s k m = Some d}"
  shows "\<exists>reply. handle_geosearch env s (cmd # k # origin_words origin @ [''BYRADIUS'', text, unit] @ order_words order @ cap_words cap)
         = (reap env s k, Inr reply)
     \<and> (case search_centre env s k origin of
          Inl failure \<Rightarrow> reply = failure
        | Inr centre \<Rightarrow>
            \<exists>ms. in_order (listing_order order cap)
                   (collected cap (List.map_filter (near_match env metres centre radius) ranking)) ms
               \<and> reply = to_bytes (NestedArray (map (BulkString \<circ> m_member) (cut_to cap ms))))"
proof -
  let ?words = "origin_words origin @ [''BYRADIUS'', text, unit] @ order_words order @ cap_words cap"
  let ?centre = "search_centre env s k origin" and ?all = "\<lambda>p. List.map_filter (near_match env metres p radius) ranking"
  have "unit_in_meters env unit = metres" using assms(6) by (auto simp: unit_in_meters_def search_units)
  then have "parse_radius env text unit = Inr (radius, metres)"
    using assms(3-5,7) by (simp add: parse_radius_def dbl_eq_def)
  note read = search_options_read [OF this assms(8), of origin order]
  have long: "5 \<le> length ?words" by (cases origin) simp_all
  have none: "\<exists>ms. in_order (listing_order order cap) (collected cap (?all p)) ms
      \<and> to_bytes (Array []) = to_bytes (NestedArray (map (BulkString \<circ> m_member) (cut_to cap ms)))"
    if "hget (sorted_sets s) k = None" for p
  proof -
    have "ranking = []" using scores_at_None [OF that] by (simp add: ranking_def)
    then have "collected cap (?all p) = []" by (cases "(cap, ?all p)" rule: collected.cases) (simp_all add: map_filter_simps)
    moreover have "cut_to cap ([] :: Match list) = []" by (cases cap) auto
    moreover have "in_order (listing_order order cap) [] []" by (cases "listing_order order cap") simp_all
    moreover have "to_bytes (Array []) = to_bytes (NestedArray [])" by code_simp
    ultimately show ?thesis by (intro exI [of _ "[]"]) simp
  qed
  have some: "ordered z = ranking" "hget (scores z) = scores_at s k" if "hget (sorted_sets s) k = Some z" for z
    using that ordered_zset_at [OF assms(1), of k] by (simp_all add: zset_at_def scores_at_def ranking_def)
  show ?thesis
  proof (cases origin)
    case (AtPoint lon lat)
    show ?thesis
    proof (cases "parse_coordinates env lon lat")
      case (Inl failure)
      with AtPoint read have "geosearch_options env new_geosearch ?words = Inl failure" by simp
      with long assms(2) AtPoint Inl show ?thesis
        by (simp add: handle_geosearch_def wrong_sorted_set_type_holds del: to_bytes.simps geosearch_options.simps)
    next
      case (Inr p)
      with AtPoint read have "geosearch_options env new_geosearch ?words = Inr (search_request (Some p) None radius metres order cap)"
        by simp
      note eq = handle_geosearch_read [OF assms(2) long assms(8) _ this, of cmd]
      show ?thesis
        using eq none [of p] some search_run_lists [OF assms(8), where m = None and c = "Some p" and p = p] AtPoint Inr
        by (cases "hget (sorted_sets s) k") (fastforce simp del: to_bytes.simps)+
    qed
  next
    case (AtMember m)
    then have "geosearch_options env new_geosearch ?words = Inr (search_request None (Some m) radius metres order cap)"
      using read by simp
    note eq = handle_geosearch_read [OF assms(2) long assms(8) _ this, of cmd]
    show ?thesis
    proof (cases "search_centre env s k origin")
      case (Inl failure)
      with eq some AtMember show ?thesis
        by (auto simp: geosearch_run_def search_request_fields simp del: to_bytes.simps split: option.splits if_splits)
    next
      case (Inr p)
      with AtMember obtain z d where z: "hget (sorted_sets s) k = Some z" "scores_at s k m = Some d" "decode_coordinates env d = Some p"
        by (auto split: if_splits option.splits)
      then show ?thesis
        using eq some [OF z(1)] search_run_lists [OF assms(8), where m = "Some m" and c = None and z = z and p = p and env = env] Inr
        by (fastforce simp del: to_bytes.simps)
    qed
  qed
qed


text \<open>Four members: two near the start of the search, one at the far end of the meridian, and one
  whose score is no position.\<close>

definition sample_geo_store :: store where
  "sample_geo_store = new_store\<lparr>sorted_sets := [(''g'',
     \<lparr>scores = [(''far'', Fin (2 ^ 52)), (''b'', Fin 1), (''a'', Fin 0), (''none'', Fin (- 3))],
      ordered = [(Fin (- 3), ''none''), (Fin 0, ''a''), (Fin 1, ''b''), (Fin (2 ^ 52), ''far'')]\<rparr>)]\<rparr>"

lemma sample_geo_store_ok:
  "store_wf sample_geo_store" "holds_zset sample_env sample_geo_store ''g''"
  "reap sample_env sample_geo_store ''g'' = sample_geo_store"
  by (auto simp: sample_geo_store_def store_wf_defs new_store_def hcontains_def hget_def hmap_ok_def
      holds_zset_def view_def dead_def zset_ok_def oset_ok_def reap_def split: if_splits)

lemma sample_cells:
  "decode_coordinates sample_env (Fin 0) = Some (cell_centre sample_env 0 0)"
  "decode_coordinates sample_env (Fin 1) = Some (cell_centre sample_env 0 1)"
  "decode_coordinates sample_env (Fin (2 ^ 52)) = Some (cell_centre sample_env 0 (2 ^ 26))"
  "decode_coordinates sample_env (Fin (- 3)) = None"
proof -
  have "deinterleave 0 = (0, 0)" "deinterleave 1 = (0, 1)" "deinterleave (2 ^ 52) = (0, 2 ^ 26)"
    by (simp_all add: deinterleave_def move_bit_def upt_rec)
  then show "decode_coordinates sample_env (Fin 0) = Some (cell_centre sample_env 0 0)"
    "decode_coordinates sample_env (Fin 1) = Some (cell_centre sample_env 0 1)"
    "decode_coordinates sample_env (Fin (2 ^ 52)) = Some (cell_centre sample_env 0 (2 ^ 26))"
    using decode_cells [of 0 0 0 sample_env] decode_cells [of 1 0 1 sample_env] decode_cells [of "2 ^ 52" 0 "2 ^ 26" sample_env]
    by simp_all
qed (simp add: decode_coordinates_def)

lemma sample_centre:
  "cell_centre sample_env 0 0 = \<lparr>longitude = Fin (- 180 + 180 / 2 ^ 26), latitude = Fin (4252556439 / 50000000 * (1 / 2 ^ 26 - 1))\<rparr>"
  "cell_centre sample_env 0 1 = \<lparr>longitude = Fin (- 180 + 180 / 2 ^ 26), latitude = Fin (4252556439 / 50000000 * (3 / 2 ^ 26 - 1))\<rparr>"
  "cell_centre sample_env 0 (2 ^ 26) = \<lparr>longitude = Fin (- 180 + 180 / 2 ^ 26), latitude = Fin (4252556439 / 50000000)\<rparr>"
  by (simp_all add: cell_centre_def exact_rounding cell_middle_exact dbl_mul_def dbl_clamp_def isnan_def isinf_def)

lemma sample_functions:
  "math_sin sample_env = id" "math_cos sample_env = (\<lambda>_. Fin 1)" "math_asin sample_env = id" "math_sqrt sample_env = id"
  by (simp_all add: sample_env_def)

lemma exact_arithmetic:
  "dbl_mul Fin (Fin a) (Fin b) = Fin (a * b)" "b \<noteq> 0 \<Longrightarrow> dbl_div Fin (Fin a) (Fin b) = Fin (a / b)"
  "dbl_sub Fin (Fin a) (Fin b) = Fin (a - b)"
  by (simp_all add: dbl_mul_def dbl_div_def dbl_sub_def isnan_def isinf_def)

lemma sample_distance:
  fixes x p q :: rat
  defines "h \<equiv> (q - p) * (fin_val pi_double / 360)"
  shows "distance_in_meters sample_env \<lparr>longitude = Fin x, latitude = Fin p\<rparr> \<lparr>longitude = Fin x, latitude = Fin q\<rparr>
     = Fin (6372797560856 / 500000 * min 1 (h * h))"
proof -
  obtain c where c: "pi_double = Fin c" unfolding pi_double_def by blast
  have clamp: "dbl_clamp (Fin (h * h)) (Fin 0) (Fin 1) = Fin (min 1 (h * h))"
    by (simp add: dbl_clamp_def min_def not_less)
  show ?thesis
    using clamp by (simp add: distance_in_meters_def exact_rounding sample_functions exact_arithmetic kEarthRadius_def c h_def)
qed

lemma sample_away:
  defines "centre \<equiv> cell_centre sample_env 0 1"
  shows "near_match sample_env (Fin 1000) centre (Fin 1) (Fin (- 3), ''none'') = None"
    "near_match sample_env (Fin 1000) centre (Fin 1) (Fin (2 ^ 52), ''far'') = None"
    "\<exists>m. near_match sample_env (Fin 1000) centre (Fin 1) (Fin 1, ''b'') = Some m \<and> m_member m = ''b'' \<and> m_distance m = Fin 0"
    "\<exists>m. near_match sample_env (Fin 1000) centre (Fin 1) (Fin 0, ''a'') = Some m \<and> m_member m = ''a'' \<and> Fin 0 < m_distance m"
  unfolding near_match_def fst_conv sample_cells centre_def sample_centre
  by (simp_all add: sample_distance exact_rounding exact_arithmetic pi_double_def)

lemma in_order_Nearest: "in_order Nearest found ms \<Longrightarrow> ms = sort_key m_distance found"
  by (rule properties_for_sort_key [symmetric]) (auto simp: eq_commute)

theorem geosearch_finds_within_radius_witness:
  "handle_geosearch sample_env sample_geo_store
     [''GEOSEARCH'', ''g'', ''FROMMEMBER'', ''b'', ''BYRADIUS'', ''1'', ''km'', ''COUNT'', to_string_int 3]
   = (sample_geo_store, Inr (to_bytes (NestedArray [BulkString ''b'', BulkString ''a''])))"
proof -
  let ?s = sample_geo_store and ?c = "cell_centre sample_env 0 1" and ?cap = "Some (3, False) :: (int \<times> bool) option"
  obtain a b where near: "near_match sample_env (Fin 1000) ?c (Fin 1) (Fin 0, ''a'') = Some a" "m_member a = ''a''" "Fin 0 < m_distance a"
      "near_match sample_env (Fin 1000) ?c (Fin 1) (Fin 1, ''b'') = Some b" "m_member b = ''b''" "m_distance b = Fin 0"
    using sample_away(3,4) by blast
  have at: "zset_at ?s ''g'' = \<lparr>scores = [(''far'', Fin (2 ^ 52)), (''b'', Fin 1), (''a'', Fin 0), (''none'', Fin (- 3))],
      ordered = [(Fin (- 3), ''none''), (Fin 0, ''a''), (Fin 1, ''b''), (Fin (2 ^ 52), ''far'')]\<rparr>"
    by (simp add: zset_at_def sample_geo_store_def hget_def)
  have ranking: "sorted_list_of_set {(d, m). scores_at ?s ''g'' m = Some d}
      = [(Fin (- 3), ''none''), (Fin 0, ''a''), (Fin 1, ''b''), (Fin (2 ^ 52), ''far'')]"
    using ordered_zset_at [OF sample_geo_store_ok(1), of "''g''"] at by simp
  have centre: "search_centre sample_env ?s ''g'' (AtMember ''b'') = Inr ?c"
    using at sample_cells(2) by (simp add: scores_at_def hget_def sample_geo_store_def)
  have number: "parse_number sample_env ''1'' = Some (Fin 1)" by code_simp
  have found: "List.map_filter (near_match sample_env (Fin 1000) ?c (Fin 1))
      [(Fin (- 3), ''none''), (Fin 0, ''a''), (Fin 1, ''b''), (Fin (2 ^ 52), ''far'')] = [a, b]"
    using near sample_away(1,2) by (simp add: map_filter_simps)
  have sorted: "sort_key m_distance [a, b] = [b, a]" using near by simp
  obtain ms where "in_order Nearest [a, b] ms"
      "handle_geosearch sample_env ?s (''GEOSEARCH'' # ''g'' # origin_words (AtMember ''b'') @ [''BYRADIUS'', ''1'', ''km''] @ order_words Unordered @ cap_words ?cap)
       = (?s, Inr (to_bytes (NestedArray (map (BulkString \<circ> m_member) (take 3 ms)))))"
    using geosearch_finds_within_radius [OF sample_geo_store_ok(1,2) number, of "''km''" "Fin 1000" ?cap "''GEOSEARCH''" "AtMember ''b''" Unordered]
    unfolding ranking centre sample_geo_store_ok(3) sum.case found
    by (auto simp: legal_cap_def isfinite_def isnan_def isinf_def simp del: in_order.simps to_bytes.simps)
  moreover from this(1) have "ms = [b, a]" using in_order_Nearest sorted by metis
  ultimately show ?thesis using near(2,5) by (simp del: to_bytes.simps)
qed

end
