(* ===== verification/Streams_Cmd.thy ===== *)
theory Streams_Cmd
  imports Keyspace
begin

text \<open>
  The stream commands of \<open>src/src/store/streams.cpp\<close>: \<open>XADD\<close>, \<open>XRANGE\<close>, \<open>XREAD\<close> with
  its options and blocking form, and \<open>try_xread\<close>, which the event loop repeats for blocked
  clients. Replies that read the tree are results, because decoding a key may throw.
\<close>

section \<open>Replies\<close>

definition entry_to_resp :: "string \<times> StreamEntryData \<Rightarrow> RespType" where
  "entry_to_resp p =
     NestedArray [BulkString (fst p), Array (concat (map (\<lambda>(field, value). [field, value]) (snd p)))]"

definition entries_to_resp :: "(string \<times> StreamEntryData) list \<Rightarrow> RespType" where
  "entries_to_resp es = NestedArray (map entry_to_resp es)"

definition stream_id_error :: string where
  "stream_id_error = simple_error ''ERR Invalid stream ID specified as stream command argument''"

definition stream_syntax_error :: string where
  "stream_syntax_error = simple_error ''ERR syntax error''"

section \<open>XADD\<close>

fun field_pairs :: "string list \<Rightarrow> StreamEntryData" where
  "field_pairs (field # value # rest) = (field, value) # field_pairs rest"
| "field_pairs _ = []"

text \<open>\<open>now_milliseconds()\<close>: the cast truncates towards zero.\<close>

definition now_milliseconds :: "env \<Rightarrow> 64 word" where
  "now_milliseconds env =
     of_int (if system_now env < 0 then - (- system_now env div 1000000) else system_now env div 1000000)"

definition stream_at :: "store \<Rightarrow> string \<Rightarrow> Stream" where
  "stream_at s key = (case hget (Streams s) key of None \<Rightarrow> new_Stream | Some st \<Rightarrow> st)"

text \<open>
  A new key is created before the insertion and erased again when the insertion fails;
  an existing stream is updated in place.
\<close>

definition handle_xadd :: "env \<Rightarrow> store \<Rightarrow> args \<Rightarrow> store \<times> string" where
  "handle_xadd env s args =
     (if length args < 5 \<or> (length args - 3) mod 2 \<noteq> 0 then (s, arity_error ''xadd'')
      else let key = args ! 1; created = (hget (Streams s) key = None)
       in case insert_entry (now_milliseconds env) (stream_at s key) (args ! 2) (field_pairs (drop 3 args)) of
            (result, st, assigned) \<Rightarrow>
              (let s = s\<lparr>Streams := hput key st (Streams s)\<rparr>;
                   s = (if created \<and> result \<noteq> Ok then s\<lparr>Streams := herase key (Streams s)\<rparr> else s)
               in case result of
                    Ok \<Rightarrow> (s, to_bytes (BulkString (StreamID_to_string assigned)))
                  | ZeroID \<Rightarrow> (s, simple_error ''ERR The ID specified in XADD must be greater than 0-0'')
                  | NotGreater \<Rightarrow> (s, simple_error
                      ''ERR The ID specified in XADD is equal or smaller than the target stream top item'')
                  | InvalidID \<Rightarrow> (s, stream_id_error)))"

section \<open>XRANGE\<close>

text \<open>The optional \<open>COUNT n\<close>: an error reply, an empty answer, or the limit (0 for none).\<close>

datatype range_count = CountError string | CountEmpty | CountLimit nat

definition xrange_count :: "args \<Rightarrow> range_count" where
  "xrange_count args =
     (if length args \<noteq> 6 then CountLimit 0
      else if to_upper (args ! 4) \<noteq> ''COUNT'' then CountError stream_syntax_error
      else case stoll (args ! 5) of
        Inl _ \<Rightarrow> CountError not_integer_error
      | Inr parsed \<Rightarrow> if parsed \<le> 0 then CountEmpty else CountLimit (nat parsed))"

definition handle_xrange :: "store \<Rightarrow> args \<Rightarrow> string res" where
  "handle_xrange s args =
     (if length args \<noteq> 4 \<and> length args \<noteq> 6 then Inr (arity_error ''xrange'')
      else case (parse_range_start (args ! 2), parse_range_end (args ! 3)) of
        (Some start, Some end_id) \<Rightarrow>
          (case xrange_count args of
             CountError reply \<Rightarrow> Inr reply
           | CountEmpty \<Rightarrow> Inr (to_bytes (Array []))
           | CountLimit count \<Rightarrow>
               (case hget (Streams s) (args ! 1) of
                  None \<Rightarrow> Inr (to_bytes (Array []))
                | Some st \<Rightarrow>
                    (case get_range st start end_id count of
                       Inl e \<Rightarrow> Inl e
                     | Inr es \<Rightarrow> Inr (to_bytes (entries_to_resp es)))))
      | _ \<Rightarrow> Inr stream_id_error)"

section \<open>XREAD\<close>

fun xread_replies :: "store \<Rightarrow> (string \<times> StreamID) list \<Rightarrow> nat \<Rightarrow> RespType list res" where
  "xread_replies s [] count = Inr []"
| "xread_replies s ((key, sid) # rest) count =
     (case hget (Streams s) key of
        None \<Rightarrow> xread_replies s rest count
      | Some st \<Rightarrow>
          (case advance_id sid of
             None \<Rightarrow> xread_replies s rest count
           | Some start \<Rightarrow>
               (case get_range st start (StreamID u64_max u64_max) count of
                  Inl e \<Rightarrow> Inl e
                | Inr [] \<Rightarrow> xread_replies s rest count
                | Inr es \<Rightarrow>
                    (case xread_replies s rest count of
                       Inl e \<Rightarrow> Inl e
                     | Inr rs \<Rightarrow> Inr (NestedArray [BulkString key, entries_to_resp es] # rs)))))"

definition try_xread :: "store \<Rightarrow> string list \<Rightarrow> StreamID list \<Rightarrow> nat \<Rightarrow> string option res" where
  "try_xread s keys ids count =
     (case xread_replies s (zip keys ids) count of
        Inl e \<Rightarrow> Inl e
      | Inr [] \<Rightarrow> Inr None
      | Inr replies \<Rightarrow> Inr (Some (to_bytes (NestedArray replies))))"

text \<open>
  The option loop: an error reply, or the words after \<open>STREAMS\<close> with the count and the
  timeout in seconds of \<open>BLOCK\<close>.
\<close>

fun xread_options :: "env \<Rightarrow> nat \<Rightarrow> double option \<Rightarrow> string list
    \<Rightarrow> string + (string list \<times> nat \<times> double option)" where
  "xread_options env count blocking [] = Inl stream_syntax_error"
| "xread_options env count blocking (word # rest) =
     (if to_upper word = ''STREAMS'' then Inr (rest, count, blocking)
      else if to_upper word \<noteq> ''COUNT'' \<and> to_upper word \<noteq> ''BLOCK'' then Inl stream_syntax_error
      else case rest of
        [] \<Rightarrow> Inl stream_syntax_error
      | text # rest' \<Rightarrow>
          (case stoll text of
             Inl _ \<Rightarrow> Inl (if to_upper word = ''BLOCK''
                then simple_error ''ERR timeout is not an integer or out of range''
                else not_integer_error)
           | Inr parsed \<Rightarrow>
               if to_upper word = ''COUNT'' then xread_options env (nat parsed) blocking rest'
               else if parsed < 0 then Inl (simple_error ''ERR timeout is negative'')
               else xread_options env count
                      (Some (dbl_div (round_double env) (round_double env (of_int parsed)) (Fin 1000))) rest'))"

text \<open>The identifiers read from: \<open>$\<close> is the last one of the stream, 0-0 when it has none.\<close>

fun xread_ids :: "store \<Rightarrow> (string \<times> string) list \<Rightarrow> string + StreamID list" where
  "xread_ids s [] = Inr []"
| "xread_ids s ((key, id_text) # rest) =
     (if hcontains (sorted_sets s) key then Inl wrong_type
      else case (if id_text = ''$''
                 then Some (case hget (Streams s) key of
                        None \<Rightarrow> StreamID 0 0
                      | Some st \<Rightarrow> (case last_id st of None \<Rightarrow> StreamID 0 0 | Some sid \<Rightarrow> sid))
                 else parse_read_id id_text) of
        None \<Rightarrow> Inl stream_id_error
      | Some sid \<Rightarrow> (case xread_ids s rest of Inl e \<Rightarrow> Inl e | Inr ids \<Rightarrow> Inr (sid # ids)))"

definition unbalanced_error :: string where
  "unbalanced_error = simple_error (''ERR Unbalanced XREAD list of streams: for each stream key an ID or ''
     @ [CHR 0x27, CHR ''$'', CHR 0x27] @ '' must be specified.'')"

definition handle_xread :: "env \<Rightarrow> store \<Rightarrow> args \<Rightarrow> store \<times> string res" where
  "handle_xread env s args =
     (let s = s\<lparr>pending_block := None\<rparr>
      in case xread_options env 0 None (drop 1 args) of
           Inl e \<Rightarrow> (s, Inr e)
         | Inr (rest, count, blocking) \<Rightarrow>
             if rest = [] \<or> length rest mod 2 \<noteq> 0 then (s, Inr unbalanced_error)
             else let keys = take (length rest div 2) rest; id_texts = drop (length rest div 2) rest
              in case xread_ids s (zip keys id_texts) of
                   Inl e \<Rightarrow> (s, Inr e)
                 | Inr ids \<Rightarrow>
                     (case try_xread s keys ids count of
                        Inl e \<Rightarrow> (s, Inl e)
                      | Inr (Some reply) \<Rightarrow> (s, Inr reply)
                      | Inr None \<Rightarrow>
                          (case blocking of
                             Some timeout \<Rightarrow>
                               (s\<lparr>pending_block := Some \<lparr>br_kind = BlockStream, br_keys = keys, br_ids = ids,
                                    br_count = count, br_timeout = timeout\<rparr>\<rparr>, Inr [])
                           | None \<Rightarrow> (s, Inr (to_bytes NullArray)))))"

section \<open>The handlers keep the store well-formed\<close>

lemma stream_at_ok: "store_wf s \<Longrightarrow> stream_ok (stream_at s k)"
  by (simp add: stream_at_def store_wf_def streams_ok_def split: option.split)

text \<open>Only the stream named by the key changes, and only when the insertion succeeds.\<close>

lemma handle_xadd_cases:
  assumes "5 \<le> length args" "odd (length args)"
    and "insert_entry (now_milliseconds env) (stream_at s (args ! 1)) (args ! 2) (field_pairs (drop 3 args))
       = (r, st, sid)"
  shows "r = Ok \<Longrightarrow> handle_xadd env s args
       = (s\<lparr>Streams := hput (args ! 1) st (Streams s)\<rparr>, to_bytes (BulkString (StreamID_to_string sid)))"
    and "r \<noteq> Ok \<Longrightarrow> fst (handle_xadd env s args)
       = s\<lparr>Streams := (if hget (Streams s) (args ! 1) = None
            then herase (args ! 1) (hput (args ! 1) st (Streams s)) else hput (args ! 1) st (Streams s))\<rparr>"
proof -
  have "\<not> (length args < 5 \<or> (length args - 3) mod 2 \<noteq> 0)"
    using assms(1,2) by (auto simp: odd_iff_mod_2_eq_one even_iff_mod_2_eq_zero [symmetric])
  then have eq: "handle_xadd env s args =
      (let s' = s\<lparr>Streams := hput (args ! 1) st (Streams s)\<rparr>;
           s' = (if hget (Streams s) (args ! 1) = None \<and> r \<noteq> Ok then s'\<lparr>Streams := herase (args ! 1) (Streams s')\<rparr> else s')
       in case r of
            Ok \<Rightarrow> (s', to_bytes (BulkString (StreamID_to_string sid)))
          | ZeroID \<Rightarrow> (s', simple_error ''ERR The ID specified in XADD must be greater than 0-0'')
          | NotGreater \<Rightarrow> (s', simple_error
              ''ERR The ID specified in XADD is equal or smaller than the target stream top item'')
          | InvalidID \<Rightarrow> (s', stream_id_error))"
    unfolding handle_xadd_def Let_def assms(3) by simp
  show "r = Ok \<Longrightarrow> handle_xadd env s args
       = (s\<lparr>Streams := hput (args ! 1) st (Streams s)\<rparr>, to_bytes (BulkString (StreamID_to_string sid)))"
    by (simp add: eq)
  show "r \<noteq> Ok \<Longrightarrow> fst (handle_xadd env s args)
       = s\<lparr>Streams := (if hget (Streams s) (args ! 1) = None
            then herase (args ! 1) (hput (args ! 1) st (Streams s)) else hput (args ! 1) st (Streams s))\<rparr>"
    by (cases r) (simp_all add: eq Let_def)
qed

lemma insert_entry_new:
  assumes "stream_ok st" "insert_entry now st idt data = (r, st', sid)"
  shows "r = Ok \<Longrightarrow> entries st' = entries st @ [(sid, data)] \<and> (\<forall>p \<in> set (entries st). fst p < sid)"
    and "r \<noteq> Ok \<Longrightarrow> st' = st"
proof -
  obtain r' i where res: "resolve_id now st idt = (r', i)" by fastforce
  note eq = insert_entry_eq [OF assms(1) res, of data]
  show "r = Ok \<Longrightarrow> entries st' = entries st @ [(sid, data)] \<and> (\<forall>p \<in> set (entries st). fst p < sid)"
    using eq assms resolved_insert(3) [OF assms(1), of now idt i] res
    by (auto simp: entries_snoc split: if_splits)
  show "r \<noteq> Ok \<Longrightarrow> st' = st" using eq assms(2) by (auto split: if_splits)
qed

lemma put_stream_wf:
  "store_wf s \<Longrightarrow> stream_ok st \<Longrightarrow> entries st \<noteq> [] \<Longrightarrow> store_wf (s\<lparr>Streams := hput k st (Streams s)\<rparr>)"
  by (auto simp: store_wf_defs)

lemma failed_xadd_wf:
  assumes "store_wf s"
  shows "store_wf (s\<lparr>Streams := (if hget (Streams s) k = None
       then herase k (hput k (stream_at s k) (Streams s)) else hput k (stream_at s k) (Streams s))\<rparr>)"
  using assms by (auto simp: store_wf_defs stream_at_def)

lemma handle_xadd_wf: "store_wf s \<Longrightarrow> store_wf (fst (handle_xadd env s args))"
proof -
  assume wf: "store_wf s"
  show ?thesis
  proof (cases "length args < 5 \<or> (length args - 3) mod 2 \<noteq> 0")
    case True
    then have "handle_xadd env s args = (s, arity_error ''xadd'')" by (simp add: handle_xadd_def)
    with wf show ?thesis by simp
  next
    case False
    then have n: "5 \<le> length args" "odd (length args)" by (auto simp: even_iff_mod_2_eq_zero [symmetric])
    obtain r st sid where ins: "insert_entry (now_milliseconds env) (stream_at s (args ! 1)) (args ! 2)
        (field_pairs (drop 3 args)) = (r, st, sid)" by (metis prod_cases3)
    note facts = insert_entry_new [OF stream_at_ok [OF wf] ins] insert_entry_ok [OF stream_at_ok [OF wf] ins]
    show ?thesis
    proof (cases "r = Ok")
      case True
      then have "entries st \<noteq> []" using facts(1) by simp
      then show ?thesis
        using handle_xadd_cases(1) [OF n ins True] put_stream_wf [OF wf facts(3)] by simp
    next
      case False
      show ?thesis
        unfolding handle_xadd_cases(2) [OF n ins False] facts(2) [OF False] by (rule failed_xadd_wf [OF wf])
    qed
  qed
qed

interpretation xadd_h: wf_handler handle_xadd
  by unfold_locales (rule handle_xadd_wf)

interpretation xrange_h: reading_handler "\<lambda>_ s args. (s, handle_xrange s args)"
  by unfold_locales (metis fst_conv reap_all_simps(1))

lemma handle_xread_store: "\<exists>b. fst (handle_xread env s args) = s\<lparr>pending_block := b\<rparr>"
  by (auto simp: handle_xread_def Let_def split: sum.split prod.split option.split)

interpretation xread_h: wf_handler handle_xread
  by unfold_locales (metis handle_xread_store store_wf_frame(1))

section \<open>Properties\<close>

text \<open>The log a key holds.\<close>

definition log_at :: "store \<Rightarrow> string \<Rightarrow> (StreamID \<times> StreamEntryData) list" where
  "log_at s k = entries (stream_at s k)"

text \<open>C10: \<open>XADD key id field value ...\<close> refines appending to the key's log. Either the reply
  is the text of a fresh identifier, above every stored one, and exactly one entry with
  the given fields is appended; or the reply is an error, the logs of all keys are what
  they were, and no empty stream is left behind.\<close>

theorem xadd_appends_or_refuses:
  assumes "store_wf s" "fvs \<noteq> []" "even (length fvs)"
  shows "\<exists>s' reply. handle_xadd env s (cmd # k # idt # fvs) = (s', reply) \<and> store_wf s' \<and>
     ((\<exists>sid. reply = to_bytes (BulkString (StreamID_to_string sid))
        \<and> log_at s' = (log_at s)(k := log_at s k @ [(sid, field_pairs fvs)])
        \<and> (\<forall>p \<in> set (log_at s k). fst p < sid))
      \<or> (\<exists>m. reply = to_bytes (SimpleError m)) \<and> log_at s' = log_at s \<and> hkeys (Streams s') = hkeys (Streams s))"
proof -
  let ?args = "cmd # k # idt # fvs"
  obtain r st sid where ins: "insert_entry (now_milliseconds env) (stream_at s k) idt (field_pairs fvs) = (r, st, sid)"
    by (metis prod_cases3)
  note facts = insert_entry_new [OF stream_at_ok [OF assms(1)] ins]
  have n: "5 \<le> length ?args" "odd (length ?args)"
    using assms(2,3) by (cases fvs; cases "tl fvs"; simp)+
  have ins': "insert_entry (now_milliseconds env) (stream_at s (?args ! 1)) (?args ! 2) (field_pairs (drop 3 ?args))
      = (r, st, sid)" using ins by (simp add: numeral_2_eq_2 numeral_3_eq_3)
  have wf: "store_wf (fst (handle_xadd env s ?args))" by (rule handle_xadd_wf [OF assms(1)])
  show ?thesis
  proof (cases "r = Ok")
    case True
    have "log_at (s\<lparr>Streams := hput k st (Streams s)\<rparr>) = (log_at s)(k := entries st)"
      by (auto simp: fun_eq_iff log_at_def stream_at_def)
    with True wf facts(1) handle_xadd_cases(1) [OF n ins' True] show ?thesis
      by (auto simp: log_at_def)
  next
    case False
    have st: "st = stream_at s k" by (rule facts(2) [OF False])
    let ?s = "fst (handle_xadd env s ?args)"
    note s = handle_xadd_cases(2) [OF n ins' False]
    have "hget (Streams ?s) k' = hget (Streams s) k'" for k'
      unfolding s st by (auto simp: stream_at_def split: option.splits)
    then have "log_at ?s = log_at s" by (simp add: fun_eq_iff log_at_def stream_at_def)
    moreover have "hkeys (Streams ?s) = hkeys (Streams s)"
      unfolding s by (auto simp: hkeys_def hget_def hput_def herase_def update_keys delete_keys
          map_of_eq_None_iff filter_empty_conv intro!: filter_True)
    moreover have "\<exists>m. snd (handle_xadd env s ?args) = to_bytes (SimpleError m)"
      using False n ins' by (cases r) (auto simp: handle_xadd_def Let_def stream_id_error_def simple_error_def
          even_iff_mod_2_eq_zero [symmetric])
    ultimately show ?thesis using wf by (metis prod.collapse)
  qed
qed

theorem xadd_appends_or_refuses_witness:
  "\<exists>s' reply. handle_xadd sample_env new_store [''XADD'', ''k'', ''*'', ''f'', ''v''] = (s', reply) \<and> store_wf s' \<and>
     ((\<exists>sid. reply = to_bytes (BulkString (StreamID_to_string sid))
        \<and> log_at s' = (log_at new_store)(''k'' := log_at new_store ''k'' @ [(sid, field_pairs [''f'', ''v''])])
        \<and> (\<forall>p \<in> set (log_at new_store ''k''). fst p < sid))
      \<or> (\<exists>m. reply = to_bytes (SimpleError m)) \<and> log_at s' = log_at new_store
          \<and> hkeys (Streams s') = hkeys (Streams new_store))"
  by (rule xadd_appends_or_refuses) simp_all

text \<open>The printed form of entries.\<close>

definition show_entries :: "(StreamID \<times> StreamEntryData) list \<Rightarrow> (string \<times> StreamEntryData) list" where
  "show_entries es = map show_entry es"

lemma get_range_log:
  "store_wf s \<Longrightarrow> hget (Streams s) k = Some st \<Longrightarrow>
     get_range st lo hi count
       = Inr (show_entries (limit count (filter (\<lambda>p. lo \<le> fst p \<and> fst p \<le> hi) (log_at s k))))"
  by (simp add: get_range_window log_at_def stream_at_def show_entries_def store_wf_def streams_ok_def)

lemma log_at_None: "hget (Streams s) k = None \<Longrightarrow> log_at s k = []"
  by (simp add: log_at_def stream_at_def)

text \<open>C20: \<open>XRANGE key start end [COUNT n]\<close> answers, for bounds that parse, the entries of the
  key's log between the bounds in order, the first \<open>n\<close> of them when a positive count is
  given; a missing key is an empty log.\<close>

theorem xrange_answers_window:
  assumes "store_wf s" "parse_range_start a = Some lo" "parse_range_end b = Some hi"
    and "opts = [] \<and> count = 0
         \<or> (\<exists>w. opts = [w, to_string_int (int count)] \<and> to_upper w = ''COUNT'' \<and> 0 < count \<and> count < 2 ^ 63)"
  shows "handle_xrange s ([cmd, k, a, b] @ opts)
     = Inr (to_bytes (entries_to_resp (show_entries
         (limit count (filter (\<lambda>p. lo \<le> fst p \<and> fst p \<le> hi) (log_at s k))))))"
proof -
  have n: "length ([cmd, k, a, b] @ opts) = 4 \<or> length ([cmd, k, a, b] @ opts) = 6"
    using assms(4) by auto
  have "stoll (to_string_int (int count)) = Inr (int count)" if "count < 2 ^ 63"
    using that by (intro stoll_to_string) auto
  then have "xrange_count ([cmd, k, a, b] @ opts) = CountLimit count"
    using assms(4) by (auto simp: xrange_count_def)
  then have "handle_xrange s ([cmd, k, a, b] @ opts) =
      (case hget (Streams s) k of None \<Rightarrow> Inr (to_bytes (Array []))
       | Some st \<Rightarrow> (case get_range st lo hi count of Inl e \<Rightarrow> Inl e | Inr es \<Rightarrow> Inr (to_bytes (entries_to_resp es))))"
    using n assms(2,3) by (auto simp: handle_xrange_def numeral_2_eq_2 numeral_3_eq_3)
  moreover have "to_bytes (Array []) = to_bytes (entries_to_resp [])"
    by (simp add: to_bytes.simps entries_to_resp_def)
  ultimately show ?thesis
    using get_range_log [OF assms(1)] log_at_None [of s k]
    by (auto simp: limit_def show_entries_def split: option.split)
qed

theorem xrange_answers_window_witness:
  "handle_xrange new_store ([''XRANGE'', ''k'', ''-'', ''+''] @ [''count'', to_string_int (int 2)])
     = Inr (to_bytes (entries_to_resp (show_entries
         (limit 2 (filter (\<lambda>p. StreamID 0 0 \<le> fst p \<and> fst p \<le> StreamID u64_max u64_max) (log_at new_store ''k''))))))"
proof -
  have "to_upper ''count'' = ''COUNT''" by code_simp
  then show ?thesis
    by (intro xrange_answers_window) (simp_all add: parse_range_start_def parse_range_end_def)
qed

text \<open>The entries a reader at \<open>sid\<close> has not seen yet.\<close>

definition newer :: "store \<Rightarrow> nat \<Rightarrow> string \<times> StreamID \<Rightarrow> (StreamID \<times> StreamEntryData) list" where
  "newer s count r = limit count (filter (\<lambda>p. snd r < fst p) (log_at s (fst r)))"

lemma le_max_StreamID: "sid \<le> StreamID u64_max u64_max"
  by (cases sid) (auto simp: less_eq_StreamID_def less_StreamID_def StreamID_less_def u64_max_def intro: le_neq_trans)

lemma xread_replies_newer:
  assumes "store_wf s"
  shows "xread_replies s rs count
     = Inr (map (\<lambda>r. NestedArray [BulkString (fst r), entries_to_resp (show_entries (newer s count r))])
             (filter (\<lambda>r. newer s count r \<noteq> []) rs))"
proof (induction rs)
  case (Cons r rs)
  obtain k sid where r: "r = (k, sid)" by fastforce
  show ?case
  proof (cases "hget (Streams s) k")
    case None
    then have "newer s count r = []" by (simp add: newer_def r log_at_None limit_def)
    with None Cons r show ?thesis by simp
  next
    case (Some st)
    show ?thesis
    proof (cases "advance_id sid")
      case None
      then have "newer s count r = []" using advance_id_None by (simp add: newer_def r limit_def)
      with None Some Cons r show ?thesis by simp
    next
      case start: (Some start)
      have "newer s count r = limit count (filter (\<lambda>p. start \<le> fst p \<and> fst p \<le> StreamID u64_max u64_max) (log_at s k))"
        by (simp add: newer_def r advance_id_Some [OF start] le_max_StreamID)
      then have "get_range st start (StreamID u64_max u64_max) count = Inr (show_entries (newer s count r))"
        using get_range_log [OF assms Some] by simp
      with Some start Cons r show ?thesis
        by (simp add: show_entries_def split: list.split)
    qed
  qed
qed simp

text \<open>C21: \<open>try_xread\<close>, used by \<open>XREAD\<close> and by the retries for blocked readers, never throws
  on a well-formed store; it answers exactly the streams that hold entries after the
  identifier given for them, in the order of the request, each with those entries (cut to
  the count), and nothing when there is none.\<close>

theorem try_xread_answers_newer:
  assumes "store_wf s"
  shows "try_xread s keys ids count =
     (let fresh = filter (\<lambda>r. newer s count r \<noteq> []) (zip keys ids)
      in Inr (if fresh = [] then None else Some (to_bytes (NestedArray
           (map (\<lambda>r. NestedArray [BulkString (fst r), entries_to_resp (show_entries (newer s count r))]) fresh)))))"
  by (simp add: try_xread_def xread_replies_newer [OF assms] Let_def split: list.split)

theorem try_xread_answers_newer_witness:
  "try_xread new_store [''k''] [StreamID 0 0] 0 =
     (let fresh = filter (\<lambda>r. newer new_store 0 r \<noteq> []) (zip [''k''] [StreamID 0 0])
      in Inr (if fresh = [] then None else Some (to_bytes (NestedArray
           (map (\<lambda>r. NestedArray [BulkString (fst r), entries_to_resp (show_entries (newer new_store 0 r))]) fresh)))))"
  by (rule try_xread_answers_newer) simp

end
