(* ===== verification/Pubsub.thy ===== *)
theory Pubsub
  imports Keyspace
begin

text \<open>
  The state of a connection (\<open>ClientState\<close> of \<open>src/src/command/command.hpp\<close>) and the
  publish/subscribe commands of \<open>src/src/pubsub/pubsub.cpp\<close>. The abstract state is the
  relation between channels and connections; the commands refine updates of it, and
  \<open>registered\<close> says that a client's own list of channels agrees with the store's.
\<close>

section \<open>Connections\<close>

record ClientState =
  fd :: int
  authenticated :: bool
  subscriptions :: "string oset"
  close_after_reply :: bool
  in_multi :: bool
  queued :: "string list list"
  watched :: "(string \<times> string option) list"
  client_offset :: int

definition new_client :: "int \<Rightarrow> ClientState" where
  "new_client n = \<lparr>fd = n, authenticated = False, subscriptions = [], close_after_reply = False,
     in_multi = False, queued = [], watched = [], client_offset = 0\<rparr>"

section \<open>Commands\<close>

definition subscription_reply :: "string \<Rightarrow> RespType \<Rightarrow> nat \<Rightarrow> string" where
  "subscription_reply kind channel count =
     to_bytes (NestedArray [BulkString kind, channel, Integer (int count)])"

definition subscribers_at :: "store \<Rightarrow> string \<Rightarrow> int oset" where
  "subscribers_at s channel = (case hget (subscribers s) channel of None \<Rightarrow> [] | Some fds \<Rightarrow> fds)"

fun subscribe_channels :: "string list \<Rightarrow> store \<Rightarrow> ClientState \<Rightarrow> store \<times> ClientState \<times> string" where
  "subscribe_channels [] s client = (s, client, [])"
| "subscribe_channels (channel # channels) s client =
     (let client = client\<lparr>subscriptions := oset_insert channel (subscriptions client)\<rparr>;
          s = s\<lparr>subscribers := hput channel (oset_insert (fd client) (subscribers_at s channel)) (subscribers s)\<rparr>
      in case subscribe_channels channels s client of
           (s', client', reply) \<Rightarrow>
             (s', client', subscription_reply ''subscribe'' (BulkString channel) (length (subscriptions client)) @ reply))"

definition handle_subscribe :: "args \<Rightarrow> store \<Rightarrow> ClientState \<Rightarrow> store \<times> ClientState \<times> string" where
  "handle_subscribe args s client =
     (if length args < 2 then (s, client, arity_error ''subscribe'')
      else subscribe_channels (drop 1 args) s client)"

definition erase_subscriber :: "string \<Rightarrow> int \<Rightarrow> store \<Rightarrow> store" where
  "erase_subscriber channel n s =
     (case hget (subscribers s) channel of
        None \<Rightarrow> s
      | Some fds \<Rightarrow>
          let fds = oset_erase n fds
          in if fds = [] then s\<lparr>subscribers := herase channel (subscribers s)\<rparr>
             else s\<lparr>subscribers := hput channel fds (subscribers s)\<rparr>)"

fun unsubscribe_channels :: "string list \<Rightarrow> store \<Rightarrow> ClientState \<Rightarrow> store \<times> ClientState \<times> string" where
  "unsubscribe_channels [] s client = (s, client, [])"
| "unsubscribe_channels (channel # channels) s client =
     (let client = client\<lparr>subscriptions := oset_erase channel (subscriptions client)\<rparr>
      in case unsubscribe_channels channels (erase_subscriber channel (fd client) s) client of
           (s', client', reply) \<Rightarrow>
             (s', client', subscription_reply ''unsubscribe'' (BulkString channel) (length (subscriptions client)) @ reply))"

definition handle_unsubscribe :: "args \<Rightarrow> store \<Rightarrow> ClientState \<Rightarrow> store \<times> ClientState \<times> string" where
  "handle_unsubscribe args s client =
     (let channels = (if drop 1 args = [] then subscriptions client else drop 1 args)
      in if channels = [] then (s, client, subscription_reply ''unsubscribe'' NullBulkString 0)
         else unsubscribe_channels channels s client)"

definition publish_message :: "string \<Rightarrow> string \<Rightarrow> string" where
  "publish_message channel text = to_bytes (Array [''message'', channel, text])"

definition handle_publish :: "store \<Rightarrow> args \<Rightarrow> store \<times> string" where
  "handle_publish s args =
     (if length args \<noteq> 3 then (s, arity_error ''publish'')
      else case hget (subscribers s) (args ! 1) of
        None \<Rightarrow> (s, to_bytes (Integer 0))
      | Some fds \<Rightarrow>
          (s\<lparr>pending_messages := pending_messages s
               @ map (\<lambda>n. (n, publish_message (args ! 1) (args ! 2))) fds\<rparr>,
           to_bytes (Integer (int (length fds)))))"

definition remove_subscriber :: "int \<Rightarrow> store \<Rightarrow> store" where
  "remove_subscriber n s = s\<lparr>subscribers :=
     filter (\<lambda>p. snd p \<noteq> []) (map (\<lambda>p. (fst p, oset_erase n (snd p))) (subscribers s))\<rparr>"

section \<open>The relation the commands maintain\<close>

definition subs :: "store \<Rightarrow> (string \<times> int) set" where
  "subs s = {(c, n). n \<in> set (subscribers_at s c)}"

lemma subscribers_at_hput [simp]:
  "subscribers_at (s\<lparr>subscribers := hput c fds (subscribers s)\<rparr>) c' = (if c' = c then fds else subscribers_at s c')"
  by (simp add: subscribers_at_def)

lemma subscribers_at_ok: "store_wf s \<Longrightarrow> oset_ok (subscribers_at s c)"
  by (simp add: subscribers_at_def store_wf_def subs_ok_def split: option.split)

lemma subs_insert:
  "subs (s\<lparr>subscribers := hput c (oset_insert n (subscribers_at s c)) (subscribers s)\<rparr>) = insert (c, n) (subs s)"
  by (auto simp: subs_def split: if_splits)

lemma subs_erase: "subs (erase_subscriber c n s) = subs s - {(c, n)}"
  by (auto simp: subs_def erase_subscriber_def subscribers_at_def oset_erase_def filter_empty_conv Let_def
      split: option.splits if_splits)

lemma oset_insert_nonempty [simp]: "oset_insert x xs \<noteq> []"
  by (metis list.set(1) oset_set_insert insert_not_empty)

lemma replace_subscribers_wf:
  assumes "store_wf s" "hmap_ok m" "\<And>c fds. hget m c = Some fds \<Longrightarrow> oset_ok fds \<and> fds \<noteq> []"
  shows "store_wf (s\<lparr>subscribers := m\<rparr>)"
  using assms by (simp add: store_wf_defs)

lemma add_subscriber_wf:
  assumes "store_wf s"
  shows "store_wf (s\<lparr>subscribers := hput c (oset_insert n (subscribers_at s c)) (subscribers s)\<rparr>)"
  using assms subscribers_at_ok [OF assms, of c]
  by (intro replace_subscribers_wf) (auto simp: store_wf_def maps_ok_def subs_ok_def split: if_splits)

lemma subscribe_channels_spec:
  assumes "subscribe_channels cs s client = (s', client', reply)"
  shows "subs s' = subs s \<union> {(c, fd client) | c. c \<in> set cs}"
    and "set (subscriptions client') = set (subscriptions client) \<union> set cs" and "fd client' = fd client"
    and "store_wf s \<Longrightarrow> store_wf s'" and "oset_ok (subscriptions client) \<Longrightarrow> oset_ok (subscriptions client')"
proof -
  have "subs s' = subs s \<union> {(c, fd client) | c. c \<in> set cs}
      \<and> set (subscriptions client') = set (subscriptions client) \<union> set cs \<and> fd client' = fd client
      \<and> (store_wf s \<longrightarrow> store_wf s') \<and> (oset_ok (subscriptions client) \<longrightarrow> oset_ok (subscriptions client'))"
    using assms
  proof (induction cs arbitrary: s client s' client' reply)
    case (Cons c cs)
    let ?c = "client\<lparr>subscriptions := oset_insert c (subscriptions client)\<rparr>"
    let ?s = "s\<lparr>subscribers := hput c (oset_insert (fd client) (subscribers_at s c)) (subscribers s)\<rparr>"
    obtain r where "subscribe_channels cs ?s ?c = (s', client', r)"
      using Cons.prems by (auto simp: Let_def split: prod.splits)
    from Cons.IH [OF this] show ?case
      using add_subscriber_wf [of s c "fd client"] unfolding subs_insert by auto
  qed simp
  then show "subs s' = subs s \<union> {(c, fd client) | c. c \<in> set cs}"
    and "set (subscriptions client') = set (subscriptions client) \<union> set cs" and "fd client' = fd client"
    and "store_wf s \<Longrightarrow> store_wf s'" and "oset_ok (subscriptions client) \<Longrightarrow> oset_ok (subscriptions client')"
    by blast+
qed

lemma erase_subscriber_wf: "store_wf s \<Longrightarrow> store_wf (erase_subscriber c n s)"
  by (auto simp: erase_subscriber_def store_wf_defs Let_def split: option.split)

lemma unsubscribe_channels_spec:
  assumes "unsubscribe_channels cs s client = (s', client', reply)"
  shows "subs s' = subs s - {(c, fd client) | c. c \<in> set cs}"
    and "set (subscriptions client') = set (subscriptions client) - set cs" and "fd client' = fd client"
    and "store_wf s \<Longrightarrow> store_wf s'" and "oset_ok (subscriptions client) \<Longrightarrow> oset_ok (subscriptions client')"
proof -
  have "subs s' = subs s - {(c, fd client) | c. c \<in> set cs}
      \<and> set (subscriptions client') = set (subscriptions client) - set cs \<and> fd client' = fd client
      \<and> (store_wf s \<longrightarrow> store_wf s') \<and> (oset_ok (subscriptions client) \<longrightarrow> oset_ok (subscriptions client'))"
    using assms
  proof (induction cs arbitrary: s client s' client' reply)
    case (Cons c cs)
    let ?c = "client\<lparr>subscriptions := oset_erase c (subscriptions client)\<rparr>"
    obtain r where "unsubscribe_channels cs (erase_subscriber c (fd client) s) ?c = (s', client', r)"
      using Cons.prems by (auto simp: Let_def split: prod.splits)
    from Cons.IH [OF this] show ?case
      unfolding subs_erase by (auto simp: erase_subscriber_wf)
  qed simp
  then show "subs s' = subs s - {(c, fd client) | c. c \<in> set cs}"
    and "set (subscriptions client') = set (subscriptions client) - set cs" and "fd client' = fd client"
    and "store_wf s \<Longrightarrow> store_wf s'" and "oset_ok (subscriptions client) \<Longrightarrow> oset_ok (subscriptions client')"
    by blast+
qed

lemma hget_remove_subscriber:
  assumes "hmap_ok (subscribers s)"
  shows "hget (subscribers (remove_subscriber n s)) c =
     (case hget (subscribers s) c of None \<Rightarrow> None
      | Some fds \<Rightarrow> if oset_erase n fds = [] then None else Some (oset_erase n fds))"
proof -
  have "distinct (map fst m) \<Longrightarrow>
      map_of (filter (\<lambda>p. snd p \<noteq> []) (map (\<lambda>p. (fst p, oset_erase n (snd p))) m)) c =
      (case map_of m c of None \<Rightarrow> None
       | Some fds \<Rightarrow> if oset_erase n fds = [] then None else Some (oset_erase n fds))" for m :: "(string \<times> int list) list"
  proof (induction m)
    case (Cons p m)
    have "map_of m (fst p) = None" using Cons.prems by (simp add: map_of_eq_None_iff)
    with Cons show ?case by auto
  qed simp
  with assms show ?thesis by (simp add: remove_subscriber_def hget_def hmap_ok_def)
qed

lemma subscribers_at_remove_subscriber:
  assumes "store_wf s"
  shows "subscribers_at (remove_subscriber n s) c = oset_erase n (subscribers_at s c)"
proof -
  have "hmap_ok (subscribers s)" using assms by (simp add: store_wf_def maps_ok_def)
  from hget_remove_subscriber [OF this] show ?thesis
    by (auto simp: subscribers_at_def oset_erase_def split: option.split)
qed

lemma subs_remove_subscriber:
  "store_wf s \<Longrightarrow> subs (remove_subscriber n s) = {p \<in> subs s. snd p \<noteq> n}"
  by (auto simp: subs_def subscribers_at_remove_subscriber)

lemma remove_subscriber_wf:
  assumes "store_wf s"
  shows "store_wf (remove_subscriber n s)"
proof -
  have m: "hmap_ok (subscribers s)" using assms by (simp add: store_wf_def maps_ok_def)
  have "store_wf (s\<lparr>subscribers := subscribers (remove_subscriber n s)\<rparr>)"
  proof (rule replace_subscribers_wf [OF assms])
    have "map fst (subscribers (remove_subscriber n s))
        = map fst (filter (\<lambda>p. oset_erase n (snd p) \<noteq> []) (subscribers s))"
      by (simp add: remove_subscriber_def filter_map o_def)
    with m show "hmap_ok (subscribers (remove_subscriber n s))"
      by (simp add: hmap_ok_def distinct_map_filter)
    fix c fds assume "hget (subscribers (remove_subscriber n s)) c = Some fds"
    then obtain old where "hget (subscribers s) c = Some old" "fds = oset_erase n old" "fds \<noteq> []"
      unfolding hget_remove_subscriber [OF m] by (auto split: option.splits if_splits)
    with assms show "oset_ok fds \<and> fds \<noteq> []" by (simp add: store_wf_def subs_ok_def)
  qed
  then show ?thesis by (simp add: remove_subscriber_def)
qed

text \<open>A client's channels agree with the store's record of it.\<close>

definition registered :: "store \<Rightarrow> ClientState \<Rightarrow> bool" where
  "registered s client \<longleftrightarrow> (\<forall>c. (c, fd client) \<in> subs s \<longleftrightarrow> c \<in> set (subscriptions client))"

lemma handle_subscribe_spec:
  assumes "handle_subscribe args s client = (s', client', reply)"
  shows "subs s' = subs s \<union> {(c, fd client) | c. c \<in> set (drop 1 args)}"
    and "set (subscriptions client') = set (subscriptions client) \<union> set (drop 1 args)"
    and "fd client' = fd client" and "store_wf s \<Longrightarrow> store_wf s'"
    and "oset_ok (subscriptions client) \<Longrightarrow> oset_ok (subscriptions client')"
proof -
  have "subscribe_channels (drop 1 args) s client = (s', client', reply)
      \<or> drop 1 args = [] \<and> s' = s \<and> client' = client"
    using assms by (auto simp: handle_subscribe_def split: if_splits)
  then show "subs s' = subs s \<union> {(c, fd client) | c. c \<in> set (drop 1 args)}"
      "set (subscriptions client') = set (subscriptions client) \<union> set (drop 1 args)"
      "fd client' = fd client" "store_wf s \<Longrightarrow> store_wf s'"
      "oset_ok (subscriptions client) \<Longrightarrow> oset_ok (subscriptions client')"
    using subscribe_channels_spec [of "drop 1 args" s client s' client' reply] by auto
qed

text \<open>The channels an \<open>UNSUBSCRIBE\<close> names: all of the client's own when none is given.\<close>

definition unsubscribed :: "args \<Rightarrow> ClientState \<Rightarrow> string list" where
  "unsubscribed args client = (if drop 1 args = [] then subscriptions client else drop 1 args)"

lemma handle_unsubscribe_spec:
  assumes "handle_unsubscribe args s client = (s', client', reply)"
  shows "subs s' = subs s - {(c, fd client) | c. c \<in> set (unsubscribed args client)}"
    and "set (subscriptions client') = set (subscriptions client) - set (unsubscribed args client)"
    and "fd client' = fd client" and "store_wf s \<Longrightarrow> store_wf s'"
    and "oset_ok (subscriptions client) \<Longrightarrow> oset_ok (subscriptions client')"
proof -
  have "unsubscribe_channels (unsubscribed args client) s client = (s', client', reply)
      \<or> unsubscribed args client = [] \<and> s' = s \<and> client' = client"
    using assms by (auto simp: handle_unsubscribe_def unsubscribed_def Let_def split: if_splits)
  then show "subs s' = subs s - {(c, fd client) | c. c \<in> set (unsubscribed args client)}"
      "set (subscriptions client') = set (subscriptions client) - set (unsubscribed args client)"
      "fd client' = fd client" "store_wf s \<Longrightarrow> store_wf s'"
      "oset_ok (subscriptions client) \<Longrightarrow> oset_ok (subscriptions client')"
    using unsubscribe_channels_spec [of "unsubscribed args client" s client s' client' reply] by auto
qed

lemma handle_publish_wf: "store_wf s \<Longrightarrow> store_wf (fst (handle_publish s args))"
  by (simp add: handle_publish_def store_wf_defs split: option.split)

interpretation publish_h: wf_handler "\<lambda>_. handle_publish"
  by unfold_locales (rule handle_publish_wf)

section \<open>Properties\<close>

text \<open>C29: Subscriptions are recorded consistently: if a client's own channel list agrees with
  the store's record of it, it still does after \<open>SUBSCRIBE\<close>, after \<open>UNSUBSCRIBE\<close> (with or
  without channel names) and, once its channel list is cleared, after the removal of its
  connection; and none of them touches the subscriptions of another connection.\<close>

theorem subscriptions_stay_registered:
  assumes "store_wf s" "registered s client"
  shows "(case handle_subscribe args s client of (s', client', _) \<Rightarrow>
       registered s' client' \<and> (\<forall>c n. n \<noteq> fd client \<longrightarrow> ((c, n) \<in> subs s' \<longleftrightarrow> (c, n) \<in> subs s)))
    \<and> (case handle_unsubscribe args s client of (s', client', _) \<Rightarrow>
       registered s' client' \<and> (\<forall>c n. n \<noteq> fd client \<longrightarrow> ((c, n) \<in> subs s' \<longleftrightarrow> (c, n) \<in> subs s)))
    \<and> registered (remove_subscriber (fd client) s) (client\<lparr>subscriptions := []\<rparr>)
    \<and> (\<forall>c n. n \<noteq> fd client \<longrightarrow> ((c, n) \<in> subs (remove_subscriber (fd client) s) \<longleftrightarrow> (c, n) \<in> subs s))"
proof -
  obtain s' client' r where sub: "handle_subscribe args s client = (s', client', r)" by (metis prod_cases3)
  obtain t client2 r2 where uns: "handle_unsubscribe args s client = (t, client2, r2)" by (metis prod_cases3)
  show ?thesis
    using assms handle_subscribe_spec(1-3) [OF sub] handle_unsubscribe_spec(1-3) [OF uns]
    by (simp add: sub uns registered_def subs_remove_subscriber)
qed

definition sample_subscribed :: "store \<times> ClientState \<times> string" where
  "sample_subscribed = handle_subscribe [''SUBSCRIBE'', ''news'', ''misc''] new_store (new_client 4)"

lemma sample_subscribed_ok: "store_wf (fst sample_subscribed)"
  unfolding sample_subscribed_def by (metis handle_subscribe_spec(4) prod.collapse store_wf_new)

lemma registered_new [simp]: "registered new_store (new_client n)"
  by (simp add: registered_def subs_def subscribers_at_def new_store_def new_client_def)

theorem subscriptions_stay_registered_witness:
  "registered (fst sample_subscribed) (fst (snd sample_subscribed))"
  using subscriptions_stay_registered [OF store_wf_new registered_new, of 4 "[''SUBSCRIBE'', ''news'', ''misc'']"]
  unfolding sample_subscribed_def by (simp add: case_prod_beta)

text \<open>\<open>PUBLISH channel text\<close> queues the message exactly once for every connection
  subscribed to the channel at that moment, for nobody else, in increasing order of
  connection number after what was queued before, and answers how many received it.\<close>

lemma publish_reaches_subscribers_once:
  assumes "store_wf s"
  shows "\<exists>fds. set fds = {n. (c, n) \<in> subs s} \<and> sorted_wrt (<) fds
     \<and> handle_publish s [cmd, c, text]
         = (s\<lparr>pending_messages := pending_messages s @ map (\<lambda>n. (n, to_bytes (Array [''message'', c, text]))) fds\<rparr>,
            to_bytes (Integer (int (length fds))))"
proof (rule exI [of _ "subscribers_at s c"], intro conjI)
  show "set (subscribers_at s c) = {n. (c, n) \<in> subs s}" by (simp add: subs_def)
  show "sorted_wrt (<) (subscribers_at s c)" using subscribers_at_ok [OF assms] by (simp add: oset_ok_def)
  show "handle_publish s [cmd, c, text]
      = (s\<lparr>pending_messages := pending_messages s
             @ map (\<lambda>n. (n, to_bytes (Array [''message'', c, text]))) (subscribers_at s c)\<rparr>,
         to_bytes (Integer (int (length (subscribers_at s c)))))"
    by (simp add: handle_publish_def subscribers_at_def publish_message_def split: option.split)
qed

end
