(* ===== verification/Auth.thy ===== *)
theory Auth
  imports Pubsub
begin

text \<open>
  Authentication (\<open>src/src/auth/auth.cpp\<close>): the \<open>ACL\<close> subcommands on the default user and
  \<open>AUTH\<close>. Passwords are kept as hexadecimal SHA-256 digests; the digest function is the
  environment's \<open>sha256\<close>, of which the properties only assume that it returns 32 bytes.
\<close>

section \<open>Password digests\<close>

definition hex_digits :: string where
  "hex_digits = ''0123456789abcdef''"

definition hex_digit :: "nat \<Rightarrow> char" where
  "hex_digit n = hex_digits ! n"

definition hex_bytes :: "string \<Rightarrow> string" where
  "hex_bytes digest = concat (map (\<lambda>c. [hex_digit (of_char c div 16), hex_digit (of_char c mod 16)]) digest)"

definition password_hash :: "env \<Rightarrow> string \<Rightarrow> string res" where
  "password_hash env password =
     (case sha256 env password of
        None \<Rightarrow> Inl (RuntimeError ''Failed to hash password'')
      | Some digest \<Rightarrow> Inr (hex_bytes digest))"

definition is_hash :: "string \<Rightarrow> bool" where
  "is_hash h \<longleftrightarrow> length h = 64 \<and> list_all (\<lambda>c. c \<in> set hex_digits) h"

section \<open>ACL\<close>

text \<open>The local copies \<open>handle_acl\<close> works on: enabled, nopass, passwords.\<close>

type_synonym acl_user = "bool \<times> bool \<times> string list"

definition hash_error :: string where
  "hash_error = simple_error ''ERR password hash must contain 64 lowercase hex characters''"

text \<open>The hash a rule names: computed for \<open>>\<close> and \<open><\<close>, literal for \<open>#\<close> and \<open>!\<close>.\<close>

definition rule_hash :: "env \<Rightarrow> string \<Rightarrow> (string + string) res" where
  "rule_hash env rule =
     (if hd rule \<in> {CHR ''>'', CHR ''<''}
      then (case password_hash env (tl rule) of Inl e \<Rightarrow> Inl e | Inr h \<Rightarrow> Inr (Inr h))
      else if is_hash (tl rule) then Inr (Inr (tl rule)) else Inr (Inl hash_error))"

text \<open>One rule: an exception, an error reply, or the changed user.\<close>

definition acl_rule :: "env \<Rightarrow> string \<Rightarrow> acl_user \<Rightarrow> (string + acl_user) res" where
  "acl_rule env rule user =
     (case user of (enabled, nopass, passwords) \<Rightarrow>
        if rule = ''on'' \<or> rule = ''off'' then Inr (Inr (rule = ''on'', nopass, passwords))
        else if rule = ''nopass'' \<or> rule = ''resetpass'' then Inr (Inr (enabled, rule = ''nopass'', []))
        else if rule \<noteq> [] \<and> hd rule \<in> {CHR ''>'', CHR ''<'', CHR ''#'', CHR ''!''} then
          (case rule_hash env rule of
             Inl e \<Rightarrow> Inl e
           | Inr (Inl reply) \<Rightarrow> Inr (Inl reply)
           | Inr (Inr h) \<Rightarrow>
               if hd rule = CHR ''>'' \<or> hd rule = CHR ''#''
               then Inr (Inr (enabled, False, if h \<in> set passwords then passwords else passwords @ [h]))
               else Inr (Inr (enabled, nopass, removeAll h passwords)))
        else Inr (Inl (simple_error ''ERR unsupported ACL rule'')))"

fun acl_rules :: "env \<Rightarrow> string list \<Rightarrow> acl_user \<Rightarrow> (string + acl_user) res" where
  "acl_rules env [] user = Inr (Inr user)"
| "acl_rules env (rule # rules) user =
     (case acl_rule env rule user of
        Inl e \<Rightarrow> Inl e
      | Inr (Inl reply) \<Rightarrow> Inr (Inl reply)
      | Inr (Inr user) \<Rightarrow> acl_rules env rules user)"

definition acl_getuser :: "store \<Rightarrow> string" where
  "acl_getuser s = to_bytes (NestedArray
     [BulkString ''flags'',
      Array ((if default_user_enabled s then ''on'' else ''off'') # (if default_user_nopass s then [''nopass''] else [])),
      BulkString ''passwords'', Array (default_user_passwords s),
      BulkString ''commands'', BulkString ''+@all'',
      BulkString ''keys'', BulkString ''~*'',
      BulkString ''channels'', BulkString ''&*'',
      BulkString ''selectors'', Array []])"

definition handle_acl :: "env \<Rightarrow> store \<Rightarrow> args \<Rightarrow> store \<times> string res" where
  "handle_acl env s args =
     (if length args < 2 then (s, Inr (arity_error ''acl''))
      else let subcommand = to_upper (args ! 1)
       in if subcommand = ''WHOAMI'' then
            (s, Inr (if length args \<noteq> 2 then arity_error ''acl|whoami'' else to_bytes (BulkString ''default'')))
          else if subcommand = ''GETUSER'' then
            (s, Inr (if length args \<noteq> 3 then arity_error ''acl|getuser''
                     else if args ! 2 \<noteq> ''default'' then to_bytes NullBulkString
                     else acl_getuser s))
          else if subcommand \<noteq> ''SETUSER'' then (s, Inr (simple_error ''ERR unknown ACL subcommand''))
          else if length args < 3 then (s, Inr (arity_error ''acl|setuser''))
          else if args ! 2 \<noteq> ''default'' then (s, Inr (simple_error ''ERR only the default user is supported''))
          else case acl_rules env (drop 3 args)
                      (default_user_enabled s, default_user_nopass s, default_user_passwords s) of
            Inl e \<Rightarrow> (s, Inl e)
          | Inr (Inl reply) \<Rightarrow> (s, Inr reply)
          | Inr (Inr (enabled, nopass, passwords)) \<Rightarrow>
              (s\<lparr>default_user_enabled := enabled, default_user_nopass := nopass,
                 default_user_passwords := passwords\<rparr>, Inr ok_reply))"

section \<open>AUTH\<close>

definition nopass_error :: string where
  "nopass_error = simple_error (''ERR AUTH <password> called without any password configured for the default ''
     @ ''user. Are you sure your configuration is correct?'')"

definition wrongpass_error :: string where
  "wrongpass_error = simple_error ''WRONGPASS invalid username-password pair or user is disabled.''"

text \<open>\<open>CRYPTO_memcmp(hash, password, hash.size()) == 0\<close>.\<close>

definition memcmp_equal :: "string \<Rightarrow> string \<Rightarrow> bool" where
  "memcmp_equal h password \<longleftrightarrow> take (length h) password = h"

definition handle_auth :: "env \<Rightarrow> args \<Rightarrow> store \<Rightarrow> ClientState \<Rightarrow> ClientState \<times> string res" where
  "handle_auth env args s client =
     (if length args \<noteq> 2 \<and> length args \<noteq> 3 then (client, Inr (arity_error ''auth''))
      else if length args = 2 \<and> default_user_nopass s then (client, Inr nopass_error)
      else case password_hash env (last args) of
        Inl e \<Rightarrow> (client, Inl e)
      | Inr h \<Rightarrow>
          let matched = (default_user_nopass s \<or> list_ex (memcmp_equal h) (default_user_passwords s))
          in if \<not> default_user_enabled s \<or> (length args = 3 \<and> args ! 1 \<noteq> ''default'') \<or> \<not> matched
             then (client, Inr wrongpass_error)
             else (client\<lparr>authenticated := True\<rparr>, Inr ok_reply))"

section \<open>Stored passwords\<close>

text \<open>Every stored password is a digest, and none is stored twice.\<close>

definition passwords_ok :: "string list \<Rightarrow> bool" where
  "passwords_ok ps \<longleftrightarrow> distinct ps \<and> list_all is_hash ps"

text \<open>What the code relies on of \<open>EVP_Digest\<close> with \<open>EVP_sha256\<close>: 32 bytes.\<close>

definition sha256_ok :: "env \<Rightarrow> bool" where
  "sha256_ok env \<longleftrightarrow> (\<forall>text digest. sha256 env text = Some digest \<longrightarrow> length digest = 32)"

lemma hex_digits_facts: "length hex_digits = 16" "distinct hex_digits"
  by (simp_all add: hex_digits_def)

lemma hex_digit_set: "n < 16 \<Longrightarrow> hex_digit n \<in> set hex_digits"
  unfolding hex_digit_def by (intro nth_mem) (simp add: hex_digits_facts)

lemma nibbles [simp]: "of_char (c :: char) div 16 < (16 :: nat)" "of_char (c :: char) mod 16 < (16 :: nat)"
proof -
  show "of_char c div 16 < (16 :: nat)" using of_char_less [of c] by (intro less_mult_imp_div_less) linarith
  show "of_char c mod 16 < (16 :: nat)" by simp
qed

lemma length_hex_bytes [simp]: "length (hex_bytes d) = 2 * length d"
  by (induction d) (simp_all add: hex_bytes_def)

lemma hex_bytes_digits: "list_all (\<lambda>c. c \<in> set hex_digits) (hex_bytes d)"
  by (induction d) (simp_all add: hex_bytes_def hex_digit_set)

lemma password_hash_is_hash: "sha256_ok env \<Longrightarrow> password_hash env p = Inr h \<Longrightarrow> is_hash h"
  by (auto simp: password_hash_def is_hash_def sha256_ok_def hex_bytes_digits split: option.splits)

lemma hex_digit_inj: "a < 16 \<Longrightarrow> b < 16 \<Longrightarrow> hex_digit a = hex_digit b \<longleftrightarrow> a = b"
  unfolding hex_digit_def by (rule nth_eq_iff_index_eq) (simp_all add: hex_digits_facts)

lemma hex_bytes_inj: "length d = length e \<Longrightarrow> hex_bytes d = hex_bytes e \<longleftrightarrow> d = e"
proof (induction d e rule: list_induct2)
  case (Cons c d c' e)
  have "of_char c div 16 = (of_char c' div 16 :: nat) \<and> of_char c mod 16 = (of_char c' mod 16 :: nat) \<longleftrightarrow> c = c'"
    by (metis div_mult_mod_eq of_char_eq_iff)
  then show ?case using Cons by (auto simp: hex_bytes_def hex_digit_inj)
qed (simp add: hex_bytes_def)

lemma memcmp_equal_hash: "is_hash h \<Longrightarrow> is_hash p \<Longrightarrow> memcmp_equal h p \<longleftrightarrow> p = h"
  by (auto simp: memcmp_equal_def is_hash_def)

lemma rule_hash_is_hash: "sha256_ok env \<Longrightarrow> rule_hash env rule = Inr (Inr h) \<Longrightarrow> is_hash h"
  by (auto simp: rule_hash_def password_hash_is_hash split: if_splits sum.splits)

lemma acl_rule_passwords:
  assumes "sha256_ok env" "acl_rule env rule (e, n, ps) = Inr (Inr (e', n', ps'))" "passwords_ok ps"
  shows "passwords_ok ps'"
  using assms rule_hash_is_hash [OF assms(1), of rule]
  by (auto simp: acl_rule_def passwords_ok_def list_all_iff distinct_removeAll split: if_splits sum.splits)

lemma acl_rules_passwords:
  assumes "sha256_ok env" "acl_rules env rules (e, n, ps) = Inr (Inr (e', n', ps'))" "passwords_ok ps"
  shows "passwords_ok ps'"
  using assms(2,3)
proof (induction rules arbitrary: e n ps)
  case (Cons rule rules)
  then obtain e1 n1 ps1 where "acl_rule env rule (e, n, ps) = Inr (Inr (e1, n1, ps1))"
      "acl_rules env rules (e1, n1, ps1) = Inr (Inr (e', n', ps'))"
    by (auto split: sum.splits)
  with Cons acl_rule_passwords [OF assms(1)] show ?case by blast
qed simp

text \<open>The only call that changes the store is a \<open>SETUSER\<close> all of whose rules apply.\<close>

lemma handle_acl_store:
  "fst (handle_acl env s args) = s \<or>
   (\<exists>e n ps. acl_rules env (drop 3 args)
        (default_user_enabled s, default_user_nopass s, default_user_passwords s) = Inr (Inr (e, n, ps))
      \<and> handle_acl env s args = (s\<lparr>default_user_enabled := e, default_user_nopass := n,
           default_user_passwords := ps\<rparr>, Inr ok_reply))"
proof (cases "acl_rules env (drop 3 args) (default_user_enabled s, default_user_nopass s, default_user_passwords s)")
  case (Inl e)
  then show ?thesis by (simp add: handle_acl_def Let_def)
next
  case (Inr r)
  then show ?thesis by (cases r) (auto simp: handle_acl_def Let_def)
qed

lemma handle_acl_wf: "store_wf s \<Longrightarrow> store_wf (fst (handle_acl env s args))"
  using handle_acl_store [of env s args] by auto

interpretation acl_h: wf_handler handle_acl
  by unfold_locales (rule handle_acl_wf)

section \<open>Properties\<close>

text \<open>C31: The stored passwords stay what authentication compares against: after any \<open>ACL\<close>
  command every stored password is a digest of 64 lowercase hexadecimal characters and no
  digest is stored twice, given that SHA-256 digests have 32 bytes.\<close>

theorem acl_keeps_digests:
  assumes "sha256_ok env" "passwords_ok (default_user_passwords s)"
  shows "passwords_ok (default_user_passwords (fst (handle_acl env s args)))"
  using handle_acl_store [of env s args] assms(2) acl_rules_passwords [OF assms(1) _ assms(2)] by auto

text \<open>\<open>ACL SETUSER\<close> is atomic: a call whose reply is not OK, or that throws, leaves the
  whole store unchanged, even when earlier rules of the same call were valid.\<close>

lemma acl_setuser_atomic:
  "snd (handle_acl env s args) = Inr ok_reply \<or> fst (handle_acl env s args) = s"
  using handle_acl_store [of env s args] by auto

text \<open>A 32-byte stand-in for the digest, injective on texts of up to 32 bytes without NUL.\<close>

definition pad_digest :: "string \<Rightarrow> string option" where
  "pad_digest t = Some (take 32 (t @ replicate 32 (CHR 0x00)))"

definition auth_env :: env where
  "auth_env = sample_env\<lparr>sha256 := pad_digest\<rparr>"

lemma auth_env_ok: "sha256_ok auth_env"
  by (auto simp: sha256_ok_def auth_env_def pad_digest_def)

theorem acl_keeps_digests_witness:
  "passwords_ok (default_user_passwords (fst (handle_acl auth_env new_store
     [''ACL'', ''SETUSER'', ''default'', ''>secret'', ''>secret''])))"
  by (rule acl_keeps_digests [OF auth_env_ok]) (simp add: passwords_ok_def new_store_def)

text \<open>C30: After \<open>ACL SETUSER default on >password\<close> the user needs a password, and from then on
  \<open>AUTH default word\<close> succeeds exactly when the digest of the word is one of the stored
  digests: the new one, or one stored before. On success the client is authenticated,
  otherwise it is unchanged and the reply is WRONGPASS.\<close>

theorem auth_after_setuser:
  assumes "sha256_ok env" "passwords_ok (default_user_passwords s)"
    and "password_hash env pw = Inr h" "password_hash env word = Inr h'"
  defines "s' \<equiv> fst (handle_acl env s [''ACL'', ''SETUSER'', ''default'', ''on'', CHR ''>'' # pw])"
  shows "\<not> default_user_auto_auth s'
     \<and> handle_auth env [''AUTH'', ''default'', word] s' client
       = (if h' = h \<or> h' \<in> set (default_user_passwords s)
          then (client\<lparr>authenticated := True\<rparr>, Inr ok_reply) else (client, Inr wrongpass_error))"
proof -
  let ?ps = "if h \<in> set (default_user_passwords s) then default_user_passwords s else default_user_passwords s @ [h]"
  have "to_upper ''SETUSER'' = ''SETUSER''" by code_simp
  then have s': "s' = s\<lparr>default_user_enabled := True, default_user_nopass := False, default_user_passwords := ?ps\<rparr>"
    using assms(3) by (simp add: s'_def handle_acl_def acl_rule_def rule_hash_def numeral_3_eq_3)
  have hash: "is_hash h" "is_hash h'" "\<forall>p \<in> set (default_user_passwords s). is_hash p"
    using assms password_hash_is_hash by (auto simp: passwords_ok_def list_all_iff)
  then have "list_ex (memcmp_equal h') ?ps \<longleftrightarrow> h' = h \<or> h' \<in> set (default_user_passwords s)"
    by (auto simp: list_ex_iff memcmp_equal_hash)
  then show ?thesis
    using assms(4) by (auto simp: s' handle_auth_def default_user_auto_auth_def)
qed

theorem auth_after_setuser_witness:
  "handle_auth auth_env [''AUTH'', ''default'', ''wrong'']
      (fst (handle_acl auth_env new_store [''ACL'', ''SETUSER'', ''default'', ''on'', CHR ''>'' # ''secret'']))
      (new_client 4) = (new_client 4, Inr wrongpass_error)"
proof -
  have h: "password_hash auth_env ''secret'' = Inr (hex_bytes (take 32 (''secret'' @ replicate 32 (CHR 0x00))))"
      "password_hash auth_env ''wrong'' = Inr (hex_bytes (take 32 (''wrong'' @ replicate 32 (CHR 0x00))))"
    by (simp_all add: password_hash_def auth_env_def pad_digest_def)
  have "hex_bytes (take 32 (''wrong'' @ replicate 32 (CHR 0x00)))
      \<noteq> hex_bytes (take 32 (''secret'' @ replicate 32 (CHR 0x00)))"
    by (subst hex_bytes_inj) simp_all
  then show ?thesis
    using auth_after_setuser [OF auth_env_ok _ h, of new_store "new_client 4"]
    by (simp add: passwords_ok_def new_store_def)
qed

end
