(* ===== verification/Replication.thy ===== *)
theory Replication
  imports Keyspace
begin

text \<open>
  The replication commands of \<open>src/src/replication/replication.cpp\<close>, the start-up of the
  store (\<open>Store::init\<close>) and \<open>CONFIG GET\<close> (\<open>src/src/store/config_commands.cpp\<close>). None of
  these handlers reads the key space.
\<close>

section \<open>Start-up\<close>

text \<open>
  The replication identifier is drawn at random: \<open>draws\<close> are the values of the uniform
  distribution on 0..15 in the order they are drawn.
\<close>

definition replid_digit :: "nat \<Rightarrow> char" where
  "replid_digit n = ''0123456789abcdef'' ! n"

definition generate_replid :: "(nat \<Rightarrow> nat) \<Rightarrow> string" where
  "generate_replid draws = map (\<lambda>i. replid_digit (draws i)) [0..<40]"

definition init_replication :: "(nat \<Rightarrow> nat) \<Rightarrow> Config \<Rightarrow> store \<Rightarrow> store" where
  "init_replication draws config s = s\<lparr>is_replica := cfg_is_replica config,
     master_host := cfg_master_host config, master_port := cfg_master_port config,
     master_replid := generate_replid draws, master_repl_offset := 0\<rparr>"

definition store_init :: "(nat \<Rightarrow> nat) \<Rightarrow> Config \<Rightarrow> store \<Rightarrow> store" where
  "store_init draws config s = init_replication draws config
     (s\<lparr>dir := cfg_dir config, dbfilename := cfg_dbfilename config, appendonly := cfg_appendonly config,
        appenddirname := cfg_appenddirname config, appendfilename := cfg_appendfilename config,
        appendfsync := cfg_appendfsync config\<rparr>)"

section \<open>Replication commands\<close>

definition hex_value :: "char \<Rightarrow> nat" where
  "hex_value c =
     (if CHR ''0'' \<le> c \<and> c \<le> CHR ''9'' then of_char c - 48
      else if CHR ''a'' \<le> c \<and> c \<le> CHR ''f'' then of_char c - 87
      else if CHR ''A'' \<le> c \<and> c \<le> CHR ''F'' then of_char c - 55 else 16)"

text \<open>
  \<open>std::stoi(pair, nullptr, 16)\<close> for a pair of hexadecimal digits; the only text converted
  is the constant \<open>kEmptyRdbHex\<close>, which has no other characters.
\<close>

fun hex_to_bytes :: "string \<Rightarrow> string" where
  "hex_to_bytes (a # b # rest) = char_of (16 * hex_value a + hex_value b) # hex_to_bytes rest"
| "hex_to_bytes _ = []"

definition kEmptyRdbHex :: string where
  "kEmptyRdbHex = ''524544495330303131fa0972656469732d76657205372e322e30fa0a7265646973''
     @ ''2d62697473c040fa056374696d65c26d08bc65fa08757365642d6d656dc2b0c410''
     @ ''00fa08616f662d62617365c000fff06e3bfec0ff5aa2''"

definition handle_replconf :: "store \<Rightarrow> args \<Rightarrow> store \<times> string" where
  "handle_replconf s args = (s, ok_reply)"

definition handle_wait :: "env \<Rightarrow> store \<Rightarrow> args \<Rightarrow> store \<times> string" where
  "handle_wait env s args =
     (if length args \<noteq> 3 then (s, arity_error ''wait'')
      else case (stoll (args ! 1), stoll (args ! 2)) of
        (Inr numreplicas, Inr timeout_ms) \<Rightarrow>
          (s\<lparr>pending_block := Some \<lparr>br_kind = BlockWait, br_keys = [], br_ids = [],
               br_count = nat numreplicas,
               br_timeout = dbl_div (round_double env) (round_double env (of_int timeout_ms)) (Fin 1000)\<rparr>\<rparr>, [])
      | _ \<Rightarrow> (s, not_integer_error))"

definition handle_psync :: "store \<Rightarrow> args \<Rightarrow> store \<times> string" where
  "handle_psync s args =
     (let fullresync = ''FULLRESYNC '' @ master_replid s @ '' '' @ to_string_int (master_repl_offset s);
          rdb = hex_to_bytes kEmptyRdbHex
      in (s, to_bytes (SimpleString fullresync) @ ''$'' @ to_string_nat (length rdb) @ crlf @ rdb))"

definition handle_info :: "store \<Rightarrow> args \<Rightarrow> store \<times> string" where
  "handle_info s args =
     (s, to_bytes (BulkString (''# Replication'' @ crlf
        @ (if is_replica s
           then ''role:slave'' @ crlf @ ''master_host:'' @ master_host s @ crlf
                @ ''master_port:'' @ to_string_int (master_port s) @ crlf
           else ''role:master'' @ crlf)
        @ ''master_replid:'' @ master_replid s @ crlf
        @ ''master_repl_offset:'' @ to_string_int (master_repl_offset s) @ crlf)))"

section \<open>CONFIG GET\<close>

definition handle_config_get :: "store \<Rightarrow> args \<Rightarrow> store \<times> string" where
  "handle_config_get s args =
     (if length args \<noteq> 3 \<or> to_upper (args ! 1) \<noteq> ''GET'' then (s, arity_error ''config|get'')
      else let param = to_upper (args ! 2)
       in if param = ''DIR'' then (s, to_bytes (Array [''dir'', dir s]))
          else if param = ''APPENDONLY'' then (s, to_bytes (Array [''appendonly'', appendonly s]))
          else if param = ''APPENDDIRNAME'' then (s, to_bytes (Array [''appenddirname'', appenddirname s]))
          else if param = ''APPENDFILENAME'' then (s, to_bytes (Array [''appendfilename'', appendfilename s]))
          else if param = ''APPENDFSYNC'' then (s, to_bytes (Array [''appendfsync'', appendfsync s]))
          else (s, to_bytes (Array [])))"

section \<open>Frame\<close>

lemma quiet_handlers [simp]:
  "fst (handle_replconf s args) = s" "fst (handle_psync s args) = s" "fst (handle_info s args) = s"
  "fst (handle_config_get s args) = s"
  by (simp_all add: handle_replconf_def handle_psync_def handle_info_def handle_config_get_def Let_def)

lemma handle_wait_store: "\<exists>b. fst (handle_wait env s args) = s\<lparr>pending_block := b\<rparr>"
proof -
  have "\<exists>b. s = s\<lparr>pending_block := b\<rparr>" by (rule exI [of _ "pending_block s"]) simp
  then show ?thesis by (auto simp: handle_wait_def split: sum.split)
qed

interpretation replconf_h: reading_handler "\<lambda>_. handle_replconf"
  by unfold_locales (metis quiet_handlers(1) reap_all_simps(1))

interpretation psync_h: reading_handler "\<lambda>_. handle_psync"
  by unfold_locales (metis quiet_handlers(2) reap_all_simps(1))

interpretation info_h: reading_handler "\<lambda>_. handle_info"
  by unfold_locales (metis quiet_handlers(3) reap_all_simps(1))

interpretation config_get_h: reading_handler "\<lambda>_. handle_config_get"
  by unfold_locales (metis quiet_handlers(4) reap_all_simps(1))

interpretation wait_h: wf_handler handle_wait
  by unfold_locales (metis handle_wait_store store_wf_frame(1))

lemma store_init_wf: "store_wf s \<Longrightarrow> store_wf (store_init draws config s)"
  by (simp add: store_wf_defs store_init_def init_replication_def)

end
