(* ===== verification/Command.thy ===== *)
theory Command
  imports Strings_Cmd Lists_Cmd Bitmaps Geo Streams_Cmd Auth Replication
begin

text \<open>
  The command layer of \<open>src/src/command/command.cpp\<close>: which commands are writes, the dispatch
  of a command to its handler, and \<open>handle_command\<close> with authentication, subscribed mode
  and transactions (\<open>MULTI\<close>, \<open>EXEC\<close>, \<open>DISCARD\<close>, \<open>WATCH\<close>). The chains of comparisons of
  \<open>dispatch_command\<close> are tables from command names to handlers, in the order of the code.
\<close>

section \<open>Tables of handlers\<close>

type_synonym handler = "env \<Rightarrow> store \<Rightarrow> args \<Rightarrow> store \<times> string res"

definition write_commands :: "string list" where
  "write_commands =
     [''SET'', ''SETNX'', ''SETEX'', ''PSETEX'', ''GETSET'', ''GETDEL'', ''APPEND'', ''SETRANGE'', ''MSET'',
      ''MSETNX'', ''DEL'', ''UNLINK'', ''INCR'', ''DECR'', ''INCRBY'', ''DECRBY'', ''INCRBYFLOAT'', ''EXPIRE'',
      ''PEXPIRE'', ''EXPIREAT'', ''PEXPIREAT'', ''PERSIST'', ''RPUSH'', ''LPUSH'', ''RPUSHX'', ''LPUSHX'',
      ''LPOP'', ''RPOP'', ''LSET'', ''LREM'', ''LTRIM'', ''LINSERT'', ''XADD'', ''XDEL'', ''XTRIM'', ''SADD'',
      ''SREM'', ''HSET'', ''HDEL'', ''ZADD'', ''ZREM'', ''RENAME'', ''COPY'', ''FLUSHALL'', ''FLUSHDB'',
      ''GEOADD'', ''SETBIT'', ''BITOP'']"

definition is_write_command :: "string \<Rightarrow> bool" where
  "is_write_command command = List.member write_commands command"

text \<open>A handler that cannot throw.\<close>

definition plain :: "(env \<Rightarrow> store \<Rightarrow> args \<Rightarrow> store \<times> string) \<Rightarrow> handler" where
  "plain h env s args = (case h env s args of (s, reply) \<Rightarrow> (s, Inr reply))"

definition handle_echo :: "store \<Rightarrow> args \<Rightarrow> store \<times> string" where
  "handle_echo s args =
     (if length args \<noteq> 2 then (s, arity_error ''echo'') else (s, to_bytes (BulkString (args ! 1))))"

definition front_commands :: "(string \<times> handler) list" where
  "front_commands =
     [(''PUBLISH'', plain (\<lambda>_. handle_publish)),
      (''ZADD'', plain handle_zadd), (''ZRANK'', plain handle_zrank), (''ZRANGE'', handle_zrange),
      (''ZCARD'', plain handle_zcard), (''ZSCORE'', handle_zscore), (''ZREM'', plain handle_zrem),
      (''GEOADD'', plain handle_geoadd), (''GEOPOS'', handle_geopos), (''GEODIST'', handle_geodist),
      (''GEOSEARCH'', handle_geosearch)]"

definition incompatible_with_sorted_set :: "string list" where
  "incompatible_with_sorted_set =
     [''GET'', ''INCR'', ''RPUSH'', ''LPUSH'', ''LLEN'', ''LRANGE'', ''LPOP'', ''XADD'', ''XRANGE'']"

definition data_commands :: "(string \<times> handler) list" where
  "data_commands =
     [(''ECHO'', plain (\<lambda>_. handle_echo)), (''SET'', plain handle_set), (''GET'', plain handle_get),
      (''STRLEN'', plain handle_strlen), (''SETBIT'', plain handle_setbit), (''GETBIT'', plain handle_getbit),
      (''BITCOUNT'', plain handle_bitcount), (''BITOP'', plain handle_bitop),
      (''RPUSH'', plain (\<lambda>_. handle_rpush)), (''LRANGE'', plain (\<lambda>_. handle_lrange)),
      (''LPUSH'', plain (\<lambda>_. handle_lpush)), (''LLEN'', plain (\<lambda>_. handle_llen)),
      (''LPOP'', plain (\<lambda>_. handle_lpop)), (''BLPOP'', plain handle_blpop), (''TYPE'', plain handle_type),
      (''KEYS'', plain handle_keys), (''XADD'', plain handle_xadd),
      (''XRANGE'', \<lambda>_ s args. (s, handle_xrange s args)), (''XREAD'', handle_xread),
      (''INCR'', plain (\<lambda>_. handle_incr)), (''INFO'', plain (\<lambda>_. handle_info)),
      (''REPLCONF'', plain (\<lambda>_. handle_replconf)), (''PSYNC'', plain (\<lambda>_. handle_psync)),
      (''WAIT'', plain handle_wait), (''CONFIG'', plain (\<lambda>_. handle_config_get))]"

section \<open>Dispatch\<close>

definition handle_ping :: "args \<Rightarrow> ClientState \<Rightarrow> string" where
  "handle_ping args client =
     (if length args > 2 then arity_error ''ping''
      else if subscriptions client \<noteq> []
      then to_bytes (Array [''pong'', if length args = 2 then args ! 1 else []])
      else if length args = 2 then to_bytes (BulkString (args ! 1)) else to_bytes (SimpleString ''PONG''))"

definition unknown_command :: "string \<Rightarrow> string" where
  "unknown_command name = simple_error (''ERR unknown command '' @ [CHR 0x27] @ name @ [CHR 0x27])"

text \<open>The part of the chain that does not touch the client.\<close>

definition dispatch_data :: "env \<Rightarrow> store \<Rightarrow> args \<Rightarrow> store \<times> string res" where
  "dispatch_data env s args =
     (let command = to_upper (args ! 0)
      in case map_of front_commands command of
           Some h \<Rightarrow> h env s args
         | None \<Rightarrow>
             (let guarded = (2 \<le> length args \<and> List.member incompatible_with_sorted_set command);
                  checked = (if guarded then key_type env s (args ! 1) else (s, []))
              in case checked of
                   (s, type) \<Rightarrow>
                     if guarded \<and> type = ''zset'' then (s, Inr wrong_type)
                     else case map_of data_commands command of
                       Some h \<Rightarrow> h env s args
                     | None \<Rightarrow> (s, Inr (unknown_command (args ! 0)))))"

definition dispatch_command :: "env \<Rightarrow> args \<Rightarrow> store \<Rightarrow> ClientState \<Rightarrow> store \<times> ClientState \<times> string res" where
  "dispatch_command env args s client =
     (let command = to_upper (args ! 0)
      in if command = ''ACL'' then (case handle_acl env s args of (s, r) \<Rightarrow> (s, client, r))
         else if command = ''AUTH'' then (case handle_auth env args s client of (client, r) \<Rightarrow> (s, client, r))
         else if command = ''PING'' then (s, client, Inr (handle_ping args client))
         else if command = ''SUBSCRIBE'' then
           (case handle_subscribe args s client of (s, client, r) \<Rightarrow> (s, client, Inr r))
         else if command = ''UNSUBSCRIBE'' then
           (case handle_unsubscribe args s client of (s, client, r) \<Rightarrow> (s, client, Inr r))
         else case dispatch_data env s args of (s, r) \<Rightarrow> (s, client, r))"

section \<open>Transactions\<close>

text \<open>A reply starting with a minus sign is an error.\<close>

definition is_error_reply :: "string \<Rightarrow> bool" where
  "is_error_reply reply \<longleftrightarrow> reply \<noteq> [] \<and> hd reply = CHR ''-''"

text \<open>\<open>WATCH\<close>: snapshots of the keys, each read with \<open>peek\<close>.\<close>

fun watch_keys :: "env \<Rightarrow> string list \<Rightarrow> store \<Rightarrow> store \<times> (string \<times> string option) list" where
  "watch_keys env [] s = (s, [])"
| "watch_keys env (key # keys) s =
     (case peek env s key of
        (s, snapshot) \<Rightarrow> (case watch_keys env keys s of (s, ws) \<Rightarrow> (s, (key, snapshot) # ws)))"

text \<open>The check of \<open>EXEC\<close>: it stops at the first key that changed.\<close>

fun watch_dirty :: "env \<Rightarrow> (string \<times> string option) list \<Rightarrow> store \<Rightarrow> store \<times> bool" where
  "watch_dirty env [] s = (s, False)"
| "watch_dirty env ((key, snapshot) # ws) s =
     (case peek env s key of
        (s, now) \<Rightarrow> if now \<noteq> snapshot then (s, True) else watch_dirty env ws s)"

text \<open>
  The loop of \<open>EXEC\<close>. A command that throws ends it; what ran before stays done. A command
  that asked to block answers a null array instead.
\<close>

fun exec_commands :: "env \<Rightarrow> args list \<Rightarrow> store \<Rightarrow> ClientState \<Rightarrow> string \<Rightarrow> store \<times> ClientState \<times> string res" where
  "exec_commands env [] s client reply = (s, client, Inr reply)"
| "exec_commands env (args # rest) s client reply =
     (case dispatch_command env args s client of
        (s, client, Inl e) \<Rightarrow> (s, client, Inl e)
      | (s, client, Inr result) \<Rightarrow>
          (case take_pending_block s of
             (block, s) \<Rightarrow>
               (let result = (if block \<noteq> None then to_bytes NullArray else result);
                    s = (if is_write_command (to_upper (args ! 0)) \<and> \<not> is_error_reply result
                         then queue_propagation args s else s)
                in exec_commands env rest s client (reply @ result))))"

definition reset_transaction :: "ClientState \<Rightarrow> ClientState" where
  "reset_transaction client = client\<lparr>in_multi := False, queued := [], watched := []\<rparr>"

definition handle_exec :: "env \<Rightarrow> store \<Rightarrow> ClientState \<Rightarrow> store \<times> ClientState \<times> string res" where
  "handle_exec env s client =
     (if \<not> in_multi client then (s, client, Inr (simple_error ''ERR EXEC without MULTI''))
      else case watch_dirty env (watched client) s of
        (s, True) \<Rightarrow> (s, reset_transaction client, Inr (to_bytes NullArray))
      | (s, False) \<Rightarrow>
          exec_commands env (queued client) s (reset_transaction client)
            (''*'' @ to_string_nat (length (queued client)) @ crlf))"

section \<open>The command handler\<close>

definition noauth_error :: string where
  "noauth_error = simple_error ''NOAUTH Authentication required.''"

definition subscribed_error :: "string \<Rightarrow> string" where
  "subscribed_error name =
     simple_error (''ERR Can'' @ [CHR 0x27] @ ''t execute '' @ [CHR 0x27] @ map tolower name @ [CHR 0x27] @ '' in subscribed mode'')"

definition subscribed_allowed :: "string list" where
  "subscribed_allowed =
     [''SUBSCRIBE'', ''UNSUBSCRIBE'', ''PSUBSCRIBE'', ''PUNSUBSCRIBE'', ''PING'', ''QUIT'', ''RESET'']"

definition handle_reset :: "args \<Rightarrow> store \<Rightarrow> ClientState \<Rightarrow> store \<times> ClientState \<times> string" where
  "handle_reset args s client =
     (if length args \<noteq> 1 then (s, client, simple_error ''ERR wrong number of arguments'')
      else let quit = (to_upper (args ! 0) = ''QUIT''); s = remove_subscriber (fd client) s
           in (s, (reset_transaction client)\<lparr>subscriptions := [], authenticated := default_user_auto_auth s,
                    close_after_reply := quit\<rparr>,
               to_bytes (SimpleString (if quit then ''OK'' else ''RESET''))))"

definition handle_multi :: "args \<Rightarrow> ClientState \<Rightarrow> ClientState \<times> string" where
  "handle_multi args client =
     (if length args \<noteq> 1 then (client, arity_error ''multi'')
      else if in_multi client then (client, simple_error ''ERR MULTI calls can not be nested'')
      else (client\<lparr>in_multi := True\<rparr>, ok_reply))"

definition handle_watch :: "env \<Rightarrow> args \<Rightarrow> store \<Rightarrow> ClientState \<Rightarrow> store \<times> ClientState \<times> string" where
  "handle_watch env args s client =
     (if length args < 2 then (s, client, arity_error ''watch'')
      else if in_multi client then (s, client, simple_error ''ERR WATCH inside MULTI is not allowed'')
      else case watch_keys env (drop 1 args) s of
        (s, ws) \<Rightarrow> (s, client\<lparr>watched := watched client @ ws\<rparr>, ok_reply))"

definition handle_discard :: "ClientState \<Rightarrow> ClientState \<times> string" where
  "handle_discard client =
     (if \<not> in_multi client then (client, simple_error ''ERR DISCARD without MULTI'')
      else (reset_transaction client, ok_reply))"

definition handle_command :: "env \<Rightarrow> args \<Rightarrow> store \<Rightarrow> ClientState \<Rightarrow> store \<times> ClientState \<times> string res" where
  "handle_command env args s client =
     (if args = [] then (s, client, Inr (simple_error ''ERR empty command''))
      else let command = to_upper (args ! 0)
       in if \<not> authenticated client \<and> \<not> default_user_auto_auth s
             \<and> command \<noteq> ''AUTH'' \<and> command \<noteq> ''QUIT'' \<and> command \<noteq> ''RESET''
          then (s, client, Inr noauth_error)
          else if subscriptions client \<noteq> [] \<and> \<not> List.member subscribed_allowed command
          then (s, client, Inr (subscribed_error (args ! 0)))
          else if command = ''QUIT'' \<or> command = ''RESET'' then
            (case handle_reset args s client of (s, client, r) \<Rightarrow> (s, client, Inr r))
          else if command = ''MULTI'' then
            (case handle_multi args client of (client, r) \<Rightarrow> (s, client, Inr r))
          else if command = ''WATCH'' then
            (case handle_watch env args s client of (s, client, r) \<Rightarrow> (s, client, Inr r))
          else if command = ''UNWATCH'' then (s, client\<lparr>watched := []\<rparr>, Inr ok_reply)
          else if command = ''DISCARD'' then
            (case handle_discard client of (client, r) \<Rightarrow> (s, client, Inr r))
          else if command = ''EXEC'' then handle_exec env s client
          else if in_multi client then
            (s, client\<lparr>queued := queued client @ [args]\<rparr>, Inr (to_bytes (SimpleString ''QUEUED'')))
          else dispatch_command env args s client)"

section \<open>Every command keeps the store well-formed\<close>

lemma plain_wf: "wf_handler h \<Longrightarrow> wf_handler (plain h)"
  by (simp add: wf_handler_def plain_def case_prod_beta)

lemma match_keys_only_reaps: "\<exists>ks. fst (match_keys env pattern s keys) = reap_all env ks s"
proof (induction keys arbitrary: s)
  case Nil
  then show ?case by (metis fst_conv match_keys.simps(1) reap_all_simps(1))
next
  case (Cons k keys)
  obtain ks where "fst (match_keys env pattern (reap env s k) keys) = reap_all env ks (reap env s k)"
    using Cons by blast
  then have "fst (match_keys env pattern s (k # keys)) = reap_all env (k # ks) s"
    by (simp add: is_expired_eq case_prod_beta split: bool.split)
  then show ?case by blast
qed

interpretation keys_h: reading_handler handle_keys
proof unfold_locales
  fix env s args
  show "\<exists>ks. fst (handle_keys env s args) = reap_all env ks s"
  proof (cases "length args = 2")
    case True
    then show ?thesis using match_keys_only_reaps by (simp add: handle_keys_def case_prod_beta)
  qed (simp add: handle_keys_def exI [of _ "[]"])
qed

interpretation type_h: reading_handler handle_type
  by unfold_locales
    (rule reads_one_key [where k = "args ! 1" for args :: args],
      auto simp: handle_type_def key_type_eq)

interpretation echo_h: reading_handler "\<lambda>_. handle_echo"
  by unfold_locales
    (rule reads_one_key [where k = "[]"], auto simp: handle_echo_def)

lemma front_commands_wf: "list_all (\<lambda>p. wf_handler (snd p)) front_commands"
  by (simp add: front_commands_def plain_wf publish_h.wf_handler_axioms zadd_h.wf_handler_axioms
      zrank_h.wf_handler_axioms zrange_h.wf_handler_axioms zcard_h.wf_handler_axioms
      zscore_h.wf_handler_axioms zrem_h.wf_handler_axioms geoadd_h.wf_handler_axioms
      geopos_h.wf_handler_axioms geodist_h.wf_handler_axioms geosearch_h.wf_handler_axioms)

lemma data_commands_wf: "list_all (\<lambda>p. wf_handler (snd p)) data_commands"
  by (simp add: data_commands_def plain_wf echo_h.wf_handler_axioms set_h.wf_handler_axioms
      get_h.wf_handler_axioms strlen_h.wf_handler_axioms setbit_h.wf_handler_axioms
      getbit_h.wf_handler_axioms bitcount_h.wf_handler_axioms bitop_h.wf_handler_axioms
      rpush_h.wf_handler_axioms lrange_h.wf_handler_axioms lpush_h.wf_handler_axioms
      llen_h.wf_handler_axioms lpop_h.wf_handler_axioms blpop_h.wf_handler_axioms
      type_h.wf_handler_axioms keys_h.wf_handler_axioms xadd_h.wf_handler_axioms
      xrange_h.wf_handler_axioms xread_h.wf_handler_axioms incr_h.wf_handler_axioms
      info_h.wf_handler_axioms replconf_h.wf_handler_axioms psync_h.wf_handler_axioms
      wait_h.wf_handler_axioms config_get_h.wf_handler_axioms)

lemma table_wf:
  assumes "list_all (\<lambda>p. wf_handler (snd p)) table" "map_of table c = Some h" "env_ok env" "store_wf s"
  shows "store_wf (fst (h env s args))"
  using assms wf_handler.handler_wf [of h env s args] map_of_SomeD [of table c h]
  by (fastforce simp: list_all_iff)

lemma dispatch_data_wf: "env_ok env \<Longrightarrow> store_wf s \<Longrightarrow> store_wf (fst (dispatch_data env s args))"
  by (auto simp: dispatch_data_def Let_def key_type_eq reap_wf
      intro: table_wf [OF front_commands_wf] table_wf [OF data_commands_wf] split: option.split)

interpretation dispatch_h: wf_handler dispatch_data
  by unfold_locales (rule dispatch_data_wf)

lemma dispatch_command_wf:
  assumes "env_ok env" "store_wf s" "dispatch_command env args s client = (s', client', r)"
  shows "store_wf s'"
proof -
  have "store_wf (fst (handle_subscribe args s client))" "store_wf (fst (handle_unsubscribe args s client))"
    using handle_subscribe_spec(4) [of args s client] handle_unsubscribe_spec(4) [of args s client] assms(2)
    by (metis prod.collapse)+
  with assms show ?thesis
    using handle_acl_wf [OF assms(2), of env args] dispatch_data_wf [OF assms(1,2), of args]
    by (auto simp: dispatch_command_def Let_def split: if_splits prod.splits)
qed

lemma watch_keys_only_reaps: "\<exists>ks. fst (watch_keys env keys s) = reap_all env ks s"
proof (induction keys arbitrary: s)
  case Nil
  then show ?case by (metis fst_conv watch_keys.simps(1) reap_all_simps(1))
next
  case (Cons k keys)
  obtain ks where "fst (watch_keys env keys (reap env s k)) = reap_all env ks (reap env s k)"
    using Cons by blast
  then have "fst (watch_keys env (k # keys) s) = reap_all env (k # ks) s"
    by (simp add: peek_eq case_prod_beta)
  then show ?case by blast
qed

lemma watch_dirty_reaps_watched: "\<exists>ks. set ks \<subseteq> fst ` set ws \<and> fst (watch_dirty env ws s) = reap_all env ks s"
proof (induction ws arbitrary: s)
  case Nil
  then show ?case by (intro exI [of _ "[]"]) simp
next
  case (Cons w ws)
  obtain k snap where w: "w = (k, snap)" by fastforce
  obtain ks where ks: "set ks \<subseteq> fst ` set ws" "fst (watch_dirty env ws (reap env s k)) = reap_all env ks (reap env s k)"
    using Cons by blast
  show ?case
  proof (cases "snd (peek env s k) = snap")
    case True
    with ks w show ?thesis by (intro exI [of _ "k # ks"]) (auto simp: peek_eq)
  next
    case False
    with w show ?thesis by (intro exI [of _ "[k]"]) (simp add: peek_eq)
  qed
qed

lemma watch_dirty_only_reaps: "\<exists>ks. fst (watch_dirty env ws s) = reap_all env ks s"
  using watch_dirty_reaps_watched by blast

lemma exec_commands_wf:
  assumes "env_ok env" "store_wf s"
  shows "store_wf (fst (exec_commands env cmds s client reply))"
  using assms(2)
proof (induction cmds arbitrary: s client reply)
  case (Cons args cmds)
  obtain s1 c1 r where d: "dispatch_command env args s client = (s1, c1, r)" by (metis prod_cases3)
  have "store_wf s1" by (rule dispatch_command_wf [OF assms(1) Cons.prems d])
  then show ?case
    using Cons.IH by (cases r) (auto simp: d take_pending_block_def Let_def queue_propagation_wf)
qed simp

lemma handle_exec_wf: "env_ok env \<Longrightarrow> store_wf s \<Longrightarrow> store_wf (fst (handle_exec env s client))"
  using watch_dirty_only_reaps [of env "watched client" s] reap_all_wf [of s env] exec_commands_wf [of env]
  by (auto simp: handle_exec_def case_prod_beta split: bool.split)

section \<open>Properties\<close>

text \<open>The whole command layer keeps the store well-formed: whatever a client sends, in
  whatever state of authentication, subscription or transaction, and whether or not the
  command throws, afterwards every container still has its invariant (no duplicate keys,
  no empty lists, streams or sorted sets, the two indexes of every sorted set agree,
  streams strictly increasing, deadlines only on existing strings).\<close>

lemma handle_command_wf:
  assumes "env_ok env" "store_wf s"
  shows "store_wf (fst (handle_command env args s client))"
proof -
  have "store_wf (fst (dispatch_command env args s client))"
    using dispatch_command_wf [OF assms] by (metis prod.collapse)
  moreover have "store_wf (fst (watch_keys env keys s))" for keys
    using watch_keys_only_reaps [of env keys s] reap_all_wf [OF assms(2)] by metis
  ultimately show ?thesis
    using assms handle_exec_wf [OF assms] remove_subscriber_wf [OF assms(2)]
    by (simp add: handle_command_def handle_reset_def handle_watch_def Let_def case_prod_beta)
qed

text \<open>What \<open>peek\<close> sees of the keys, as the check of \<open>EXEC\<close> compares it.\<close>

definition snapshot_now :: "env \<Rightarrow> store \<Rightarrow> string \<Rightarrow> string option" where
  "snapshot_now env s k = (if dead env s k then None else hget (Storage s) k)"

lemma snapshot_reap [simp]: "snapshot_now env (reap env s k') k = snapshot_now env s k"
  by (simp add: snapshot_now_def)

lemma watch_dirty_iff:
  "snd (watch_dirty env ws s) \<longleftrightarrow> (\<exists>(k, snap) \<in> set ws. snapshot_now env s k \<noteq> snap)"
proof (induction ws arbitrary: s)
  case (Cons w ws)
  obtain k snap where w: "w = (k, snap)" by fastforce
  have "snapshot_now env (reap env s k) k' = snapshot_now env s k'" for k' by simp
  with Cons show ?case by (simp add: w peek_eq snapshot_now_def [symmetric])
qed simp

lemma watch_keys_snapshots: "snd (watch_keys env keys s) = map (\<lambda>k. (k, snapshot_now env s k)) keys"
  by (induction keys arbitrary: s) (simp_all add: peek_eq case_prod_beta snapshot_now_def [symmetric])

text \<open>C5: Optimistic locking: a transaction is aborted exactly when, at \<open>EXEC\<close>, the string
  some watched key holds differs from the one it held when it was watched. An aborted
  \<open>EXEC\<close> answers a null array and runs nothing (the store changes at most by dropping
  expired keys); otherwise the queued commands run. Either way the transaction state of
  the client is cleared.\<close>

theorem exec_aborts_iff_watched_string_changed:
  fixes env :: env and s :: store
  assumes "in_multi client"
  defines "dirty \<equiv> (\<exists>(k, snap) \<in> set (watched client). snapshot_now env s k \<noteq> snap)"
  shows "\<exists>ks. handle_exec env s client =
     (if dirty then (reap_all env ks s, reset_transaction client, Inr (to_bytes NullArray))
      else exec_commands env (queued client) (reap_all env ks s) (reset_transaction client)
             (''*'' @ to_string_nat (length (queued client)) @ crlf))"
proof -
  obtain ks where "fst (watch_dirty env (watched client) s) = reap_all env ks s"
    using watch_dirty_only_reaps by blast
  moreover have "snd (watch_dirty env (watched client) s) = dirty"
    unfolding dirty_def by (rule watch_dirty_iff)
  ultimately show ?thesis
    using assms(1) by (intro exI [of _ ks]) (simp add: handle_exec_def case_prod_beta split: bool.split)
qed

text \<open>A client that watched key \<open>k\<close> while it was missing and queued one command.\<close>

definition sample_watcher :: ClientState where
  "sample_watcher = (new_client 4)\<lparr>in_multi := True, queued := [[''PING'']], watched := [(''k'', None)]\<rparr>"

theorem exec_aborts_iff_watched_string_changed_witness:
  "\<exists>ks. handle_exec sample_env sample_string_store sample_watcher
     = (reap_all sample_env ks sample_string_store, reset_transaction sample_watcher, Inr (to_bytes NullArray))"
proof -
  have "in_multi sample_watcher" "watched sample_watcher = [(''k'', None)]" by (simp_all add: sample_watcher_def)
  moreover have "snapshot_now sample_env sample_string_store ''k'' = Some ''a''"
    by (simp add: snapshot_now_def sample_string_store_def dead_def new_store_def hget_def)
  ultimately show ?thesis
    using exec_aborts_iff_watched_string_changed [of sample_watcher sample_env sample_string_store] by simp
qed

text \<open>Between \<open>MULTI\<close> and \<open>EXEC\<close> nothing runs: for an authenticated client inside a
  transaction and outside subscribed mode, every command except the ones that steer the
  transaction is answered QUEUED and appended to the queue unchanged, and neither the
  store nor anything else of the client changes.\<close>

lemma multi_only_queues:
  assumes "in_multi client" "authenticated client" "subscriptions client = []" "args \<noteq> []"
    and "to_upper (args ! 0) \<notin> {''QUIT'', ''RESET'', ''MULTI'', ''WATCH'', ''UNWATCH'', ''DISCARD'', ''EXEC''}"
  shows "handle_command env args s client
     = (s, client\<lparr>queued := queued client @ [args]\<rparr>, Inr (to_bytes (SimpleString ''QUEUED'')))"
  using assms by (auto simp: handle_command_def Let_def)

text \<open>The reference: the same commands sent one after the other outside a transaction, where a
  command that would block answers a null array, and the successful writes are queued.\<close>

fun one_by_one :: "env \<Rightarrow> args list \<Rightarrow> store \<Rightarrow> ClientState \<Rightarrow> string \<Rightarrow> store \<times> ClientState \<times> string res" where
  "one_by_one env [] s client out = (s, client, Inr out)"
| "one_by_one env (args # rest) s client out =
     (case handle_command env args s client of
        (s, client, Inl e) \<Rightarrow> (s, client, Inl e)
      | (s, client, Inr r) \<Rightarrow>
          (let r = (if pending_block s \<noteq> None then to_bytes NullArray else r);
               s = s\<lparr>pending_block := None\<rparr>
           in one_by_one env rest
                (if is_write_command (to_upper (args ! 0)) \<and> \<not> is_error_reply r then queue_propagation args s else s)
                client (out @ r)))"

text \<open>The requests of one client, each with the store it finds; others may change it in between.\<close>

fun visits :: "(env \<times> args \<times> store) list \<Rightarrow> ClientState \<Rightarrow> (store \<times> string res) list \<times> ClientState" where
  "visits [] client = ([], client)"
| "visits ((env, args, s) # vs) client =
     (case handle_command env args s client of
        (s, client, r) \<Rightarrow> (case visits vs client of (rs, client) \<Rightarrow> ((s, r) # rs, client)))"

definition steering :: "string list" where
  "steering = [''QUIT'', ''RESET'', ''MULTI'', ''WATCH'', ''UNWATCH'', ''DISCARD'', ''EXEC'', ''SUBSCRIBE'']"

definition queueable :: "args \<Rightarrow> bool" where
  "queueable args \<longleftrightarrow> args \<noteq> [] \<and> to_upper (args ! 0) \<notin> set steering"

definition ordinary :: "ClientState \<Rightarrow> bool" where
  "ordinary client \<longleftrightarrow> authenticated client \<and> subscriptions client = [] \<and> \<not> in_multi client"

lemma unsubscribe_none: "subscriptions client = [] \<Longrightarrow> fst (snd (unsubscribe_channels cs s client)) = client"
proof (induction cs arbitrary: s)
  case (Cons c cs)
  have "client\<lparr>subscriptions := oset_erase c []\<rparr> = client" using Cons.prems by (cases client) (simp add: oset_erase_def)
  with Cons show ?case by (simp add: Let_def case_prod_beta)
qed simp

lemma ordinary_dispatch:
  assumes "ordinary client" "queueable args"
  shows "handle_command env args s client = dispatch_command env args s client"
    "dispatch_command env args s client = (s', client', r) \<Longrightarrow> ordinary client'"
proof -
  show "handle_command env args s client = dispatch_command env args s client"
    using assms by (simp add: handle_command_def ordinary_def queueable_def steering_def Let_def)
  show "dispatch_command env args s client = (s', client', r) \<Longrightarrow> ordinary client'"
    using assms unsubscribe_none [of client "drop 1 args" s]
    by (auto simp: dispatch_command_def ordinary_def queueable_def steering_def handle_auth_def handle_unsubscribe_def Let_def case_prod_beta
        split: if_splits prod.splits sum.splits)
qed

lemma exec_one_by_one:
  "ordinary client \<Longrightarrow> list_all queueable cmds \<Longrightarrow> exec_commands env cmds s client out = one_by_one env cmds s client out"
proof (induction cmds arbitrary: s client out)
  case (Cons args cmds)
  obtain s1 c1 r where d: "dispatch_command env args s client = (s1, c1, r)" by (metis prod_cases3)
  with Cons ordinary_dispatch(1) [of client args env s] ordinary_dispatch(2) [of client args env s s1 c1 r] show ?case
    by (cases r) (simp_all add: take_pending_block_def Let_def)
qed simp

lemma visits_append: "visits (vs @ us) client = (case visits vs client of (rs, c) \<Rightarrow> case visits us c of (qs, c') \<Rightarrow> (rs @ qs, c'))"
proof (induction vs arbitrary: client)
  case (Cons v vs)
  then show ?case by (cases v) (simp add: case_prod_beta)
qed simp

lemma queued_visits:
  assumes "in_multi client" "authenticated client" "subscriptions client = []" "list_all (\<lambda>(env, args, s). queueable args) vs"
  shows "visits vs client = (map (\<lambda>(env, args, s). (s, Inr (to_bytes (SimpleString ''QUEUED'')))) vs,
     client\<lparr>queued := queued client @ map (\<lambda>(env, args, s). args) vs\<rparr>)"
  using assms
proof (induction vs arbitrary: client)
  case (Cons v vs)
  obtain env args s where v: "v = (env, args, s)" by (metis prod_cases3)
  have "handle_command env args s client
     = (s, client\<lparr>queued := queued client @ [args]\<rparr>, Inr (to_bytes (SimpleString ''QUEUED'')))"
    using Cons.prems v by (intro multi_only_queues) (auto simp: queueable_def steering_def)
  with Cons.IH [of "client\<lparr>queued := queued client @ [args]\<rparr>"] Cons.prems v show ?case by simp
qed simp

text \<open>C27: A transaction is one block. An authenticated client that is not in subscribed mode sends
  \<open>MULTI\<close>, then commands other than \<open>QUIT\<close>, \<open>RESET\<close>, \<open>MULTI\<close>, \<open>WATCH\<close>, \<open>UNWATCH\<close>, \<open>DISCARD\<close>,
  \<open>EXEC\<close> and \<open>SUBSCRIBE\<close>, then \<open>EXEC\<close>, and other clients change the store as they like in between.
  No command of the transaction touches the store before \<open>EXEC\<close>, and each is answered QUEUED. When
  the string of a key watched before has changed, \<open>EXEC\<close> answers a null array and runs nothing.
  Otherwise it does to the store it finds, and answers as one array, what the same commands would
  do and answer if the client sent them one after the other with nobody in between and the clock
  standing still, except that a command that would block is answered with a null array and does not
  block, and that the writes that succeed are queued for the log and the replicas; a command that
  throws ends it. Checking the watched keys changes at most those that have expired, which are
  dropped, and afterwards no key is watched.\<close>

theorem transaction_is_one_block:
  fixes vs :: "(env \<times> args \<times> store) list" and env :: env and s :: store
  assumes "ordinary client" "queued client = []" "list_all (\<lambda>(env, args, s). queueable args) vs"
  defines "cmds \<equiv> map (\<lambda>(env, args, s). args) vs"
  defines "changed \<equiv> \<exists>(k, snap) \<in> set (watched client). snapshot_now env s k \<noteq> snap"
  shows "\<exists>ks. set ks \<subseteq> fst ` set (watched client) \<and>
     visits ([(env1, [''MULTI''], s1)] @ vs @ [(env, [''EXEC''], s)]) client =
     (case if changed then (reap_all env ks s, client\<lparr>watched := []\<rparr>, Inr (to_bytes NullArray))
           else one_by_one env cmds (reap_all env ks s) (client\<lparr>watched := []\<rparr>) (''*'' @ to_string_nat (length vs) @ crlf) of
        (s', client', r) \<Rightarrow>
          ([(s1, Inr ok_reply)] @ map (\<lambda>(env, args, s). (s, Inr (to_bytes (SimpleString ''QUEUED'')))) vs @ [(s', r)], client'))"
proof -
  let ?c = "client\<lparr>in_multi := True\<rparr>" and ?w = "client\<lparr>watched := []\<rparr>"
  have up: "to_upper ''MULTI'' = ''MULTI''" "to_upper ''EXEC'' = ''EXEC''" by code_simp+
  have multi: "handle_command env1 [''MULTI''] s1 client = (s1, ?c, Inr ok_reply)"
    using assms(1) by (simp add: handle_command_def handle_multi_def ordinary_def up Let_def)
  have queue: "visits vs ?c = (map (\<lambda>(env, args, s). (s, Inr (to_bytes (SimpleString ''QUEUED'')))) vs, ?c\<lparr>queued := cmds\<rparr>)"
    using queued_visits [of ?c vs] assms(1-3) by (simp add: ordinary_def cmds_def)
  have reset: "reset_transaction (?c\<lparr>queued := cmds\<rparr>) = ?w"
    using assms(1,2) by (cases client) (simp add: reset_transaction_def ordinary_def)
  have runs: "exec_commands env cmds t ?w out = one_by_one env cmds t ?w out" for t out
    using assms(1,3) by (intro exec_one_by_one) (auto simp: ordinary_def cmds_def list_all_iff)
  obtain ks where ks: "set ks \<subseteq> fst ` set (watched client)" "fst (watch_dirty env (watched client) s) = reap_all env ks s"
    using watch_dirty_reaps_watched by blast
  have "handle_command env [''EXEC''] s (?c\<lparr>queued := cmds\<rparr>)
      = (if changed then (reap_all env ks s, ?w, Inr (to_bytes NullArray))
         else one_by_one env cmds (reap_all env ks s) ?w (''*'' @ to_string_nat (length vs) @ crlf))"
    using assms(1) reset runs ks(2) watch_dirty_iff [of env "watched client" s]
    by (simp add: handle_command_def handle_exec_def ordinary_def up Let_def case_prod_beta cmds_def changed_def split: bool.split)
  with multi queue ks(1) show ?thesis by (intro exI [of _ ks]) (simp add: visits_append case_prod_beta)
qed

theorem transaction_is_one_block_witness:
  "fst (visits [(sample_env, [''MULTI''], new_store), (sample_env, [''RPUSH'', ''k'', ''a''], new_store),
       (sample_env, [''LRANGE'', ''k'', ''0'', ''5''], new_store), (sample_env, [''EXEC''], new_store\<lparr>DynamicVector := [(''k'', [''b''])]\<rparr>)]
      ((new_client 4)\<lparr>authenticated := True, watched := [(''w'', None)]\<rparr>)) ! 3
     = (new_store\<lparr>DynamicVector := [(''k'', [''b'', ''a''])], pending_propagations := [[''RPUSH'', ''k'', ''a'']]\<rparr>,
        Inr (''*2'' @ crlf @ '':2'' @ crlf @ to_bytes (Array [''b'', ''a''])))"
proof -
  let ?c = "(new_client 4)\<lparr>authenticated := True, watched := [(''w'', None)]\<rparr>" and ?w = "(new_client 4)\<lparr>authenticated := True, watched := []\<rparr>"
    and ?s = "new_store\<lparr>DynamicVector := [(''k'', [''b''])]\<rparr>"
  have q: "list_all (\<lambda>(env, args, s). queueable args) [(sample_env, [''RPUSH'', ''k'', ''a''], new_store), (sample_env, [''LRANGE'', ''k'', ''0'', ''5''], new_store)]"
    unfolding queueable_def by code_simp
  have e: "one_by_one sample_env [[''RPUSH'', ''k'', ''a''], [''LRANGE'', ''k'', ''0'', ''5'']] ?s ?w (''*'' @ to_string_nat 2 @ crlf)
     = (new_store\<lparr>DynamicVector := [(''k'', [''b'', ''a''])], pending_propagations := [[''RPUSH'', ''k'', ''a'']]\<rparr>, ?w,
        Inr (''*2'' @ crlf @ '':2'' @ crlf @ to_bytes (Array [''b'', ''a''])))" by code_simp
  have c: "ordinary ?c" "queued ?c = []" "?c\<lparr>watched := []\<rparr> = ?w" by (simp_all add: ordinary_def new_client_def)
  have kept: "reap_all sample_env ks ?s = ?s" for ks
    by (induction ks) (simp_all add: reap_def dead_def new_store_def hget_def)
  have same: "\<not> (\<exists>(k, snap) \<in> set (watched ?c). snapshot_now sample_env ?s k \<noteq> snap)"
    by (simp add: snapshot_now_def new_store_def hget_def)
  have two: "length [v, w] = 2" for v w :: "env \<times> args \<times> store" by simp
  show ?thesis
    using transaction_is_one_block [OF c(1,2) q, where env = sample_env and s = ?s and ?env1.0 = sample_env and ?s1.0 = new_store]
    unfolding c(3) kept if_not_P [OF same] two list.map prod.case e by (auto simp del: visits.simps)
qed

text \<open>The authentication gate: while the default user needs a password, a client that has
  not authenticated gets NOAUTH for every command other than \<open>AUTH\<close>, \<open>QUIT\<close> and
  \<open>RESET\<close>, with no effect on the store or on its own state; in particular nothing can be
  queued for a later transaction.\<close>

lemma unauthenticated_commands_refused:
  assumes "\<not> authenticated client" "\<not> default_user_auto_auth s" "args \<noteq> []"
    and "to_upper (args ! 0) \<notin> {''AUTH'', ''QUIT'', ''RESET''}"
  shows "handle_command env args s client = (s, client, Inr noauth_error)"
  using assms by (auto simp: handle_command_def Let_def)

text \<open>The replies of the queued commands, one per command.\<close>

lemma exec_commands_replies:
  assumes "exec_commands env cmds s client reply = (s', client', Inr reply')"
  shows "\<exists>rs. length rs = length cmds \<and> reply' = reply @ concat rs"
  using assms
proof (induction cmds arbitrary: s client reply)
  case (Cons args cmds)
  obtain s1 c1 r where d: "dispatch_command env args s client = (s1, c1, r)" by (metis prod_cases3)
  with Cons.prems obtain result where r: "r = Inr result" by (cases r) auto
  let ?result = "if pending_block s1 \<noteq> None then to_bytes NullArray else result"
  let ?s = "s1\<lparr>pending_block := None\<rparr>"
  let ?t = "if is_write_command (to_upper (args ! 0)) \<and> \<not> is_error_reply ?result
    then queue_propagation args ?s else ?s"
  have "exec_commands env cmds ?t c1 (reply @ ?result) = (s', client', Inr reply')"
    using Cons.prems d r by (simp add: take_pending_block_def Let_def split: if_splits)
  from Cons.IH [OF this] obtain rs where "length rs = length cmds" "reply' = (reply @ ?result) @ concat rs" by blast
  then show ?case by (intro exI [of _ "?result # rs"]) simp
qed simp

end
