(* ===== verification/Typing.thy ===== *)
theory Typing
  imports Command
begin

text \<open>
  The types of keys. \<open>TrueStore\<close> keeps strings, lists, streams and sorted sets in four
  containers; a key is meant to live in one of them (\<open>typed_ok\<close>). Most commands check the
  type of the key they write, \<open>RPUSH\<close>, \<open>LPUSH\<close>, \<open>XADD\<close> and \<open>INCR\<close> are only kept away from
  sorted sets by the guard of the dispatcher. The contract \<open>typed_handler\<close> states what a
  command needs of the key to keep the key space typed; every entry of the two dispatch
  tables has an instance.
\<close>

text \<open>The type of the container a command writes without looking at the others.\<close>

definition unchecked_type :: "string \<Rightarrow> string option" where
  "unchecked_type command =
     (if command = ''RPUSH'' \<or> command = ''LPUSH'' then Some ''list''
      else if command = ''XADD'' then Some ''stream'' else if command = ''INCR'' then Some ''string'' else None)"

definition free_for :: "env \<Rightarrow> store \<Rightarrow> string \<Rightarrow> string \<Rightarrow> bool" where
  "free_for env s k type \<longleftrightarrow> type_name (view env s k) = ''none'' \<or> type_name (view env s k) = type"

text \<open>A command whose key, if it has one, is free for what it writes there.\<close>

definition fits :: "env \<Rightarrow> store \<Rightarrow> string option \<Rightarrow> args \<Rightarrow> bool" where
  "fits env s expected args \<longleftrightarrow>
     (2 \<le> length args \<longrightarrow> (case expected of None \<Rightarrow> True | Some type \<Rightarrow> free_for env s (args ! 1) type))"

locale typed_handler =
  fixes h :: "env \<Rightarrow> store \<Rightarrow> args \<Rightarrow> store \<times> 'r" and expected :: "string option"
  assumes handler_typed: "typed_ok s \<Longrightarrow> store_wf s \<Longrightarrow> fits env s expected args \<Longrightarrow>
      (2 \<le> length args \<Longrightarrow> expected \<noteq> None \<Longrightarrow> \<not> dead env s (args ! 1)) \<Longrightarrow> typed_ok (fst (h env s args))"

lemma plain_typed: "typed_handler h expected \<Longrightarrow> typed_handler (plain h) expected"
  by (simp add: typed_handler_def plain_def case_prod_beta)

sublocale reading_handler \<subseteq> typed: typed_handler h None
  by unfold_locales (rule keeps_typed)

lemma checking_typed:
  assumes "\<And>env s args. typed_ok s \<Longrightarrow> store_wf s \<Longrightarrow> typed_ok (fst (h env s args))"
  shows "typed_handler h None"
  using assms by unfold_locales

section \<open>Containers that stay apart\<close>

text \<open>What the types of the key space say of the containers.\<close>

lemma free_for_absent:
  assumes "typed_ok s" "\<not> dead env s k"
  shows "free_for env s k ''string'' \<Longrightarrow> \<not> hcontains (DynamicVector s) k \<and> \<not> hcontains (Streams s) k \<and> \<not> hcontains (sorted_sets s) k"
    and "free_for env s k ''list'' \<Longrightarrow> \<not> hcontains (Storage s) k \<and> \<not> hcontains (Streams s) k \<and> \<not> hcontains (sorted_sets s) k"
    and "free_for env s k ''stream'' \<Longrightarrow> \<not> hcontains (Storage s) k \<and> \<not> hcontains (DynamicVector s) k \<and> \<not> hcontains (sorted_sets s) k"
    and "free_for env s k ''zset'' \<Longrightarrow> \<not> hcontains (Storage s) k \<and> \<not> hcontains (DynamicVector s) k \<and> \<not> hcontains (Streams s) k"
proof -
  consider "hcontains (Storage s) k" | "\<not> hcontains (Storage s) k" "hcontains (DynamicVector s) k"
    | "\<not> hcontains (Storage s) k" "\<not> hcontains (DynamicVector s) k" "hcontains (Streams s) k"
    | "\<not> hcontains (Storage s) k" "\<not> hcontains (DynamicVector s) k" "\<not> hcontains (Streams s) k"
    by blast
  note containers = this
  have seen: "hcontains (Storage s) k \<Longrightarrow> type_name (view env s k) = ''string''"
      "\<not> hcontains (Storage s) k \<Longrightarrow> hcontains (DynamicVector s) k \<Longrightarrow> type_name (view env s k) = ''list''"
      "\<not> hcontains (Storage s) k \<Longrightarrow> \<not> hcontains (DynamicVector s) k \<Longrightarrow> hcontains (Streams s) k \<Longrightarrow>
         type_name (view env s k) = ''stream''"
      "\<not> hcontains (Storage s) k \<Longrightarrow> \<not> hcontains (DynamicVector s) k \<Longrightarrow> \<not> hcontains (Streams s) k \<Longrightarrow>
         hcontains (sorted_sets s) k \<Longrightarrow> type_name (view env s k) = ''zset''"
    using assms(2) by (auto simp: view_def hcontains_def split: option.split)
  note apart = assms(1) [unfolded typed_ok_def, rule_format, of k]
  show "free_for env s k ''string'' \<Longrightarrow> \<not> hcontains (DynamicVector s) k \<and> \<not> hcontains (Streams s) k \<and> \<not> hcontains (sorted_sets s) k"
    using containers by cases (use seen apart in \<open>auto simp: free_for_def\<close>)
  show "free_for env s k ''list'' \<Longrightarrow> \<not> hcontains (Storage s) k \<and> \<not> hcontains (Streams s) k \<and> \<not> hcontains (sorted_sets s) k"
    using containers by cases (use seen apart in \<open>auto simp: free_for_def\<close>)
  show "free_for env s k ''stream'' \<Longrightarrow> \<not> hcontains (Storage s) k \<and> \<not> hcontains (DynamicVector s) k \<and> \<not> hcontains (sorted_sets s) k"
    using containers by cases (use seen apart in \<open>auto simp: free_for_def\<close>)
  show "free_for env s k ''zset'' \<Longrightarrow> \<not> hcontains (Storage s) k \<and> \<not> hcontains (DynamicVector s) k \<and> \<not> hcontains (Streams s) k"
    using containers by cases (use seen apart in \<open>auto simp: free_for_def\<close>)
qed

lemma put_typed:
  assumes "typed_ok s"
  shows "\<not> hcontains (DynamicVector s) k \<Longrightarrow> \<not> hcontains (Streams s) k \<Longrightarrow> \<not> hcontains (sorted_sets s) k \<Longrightarrow>
      typed_ok (s\<lparr>Storage := hput k v (Storage s)\<rparr>)"
    and "\<not> hcontains (Storage s) k \<Longrightarrow> \<not> hcontains (Streams s) k \<Longrightarrow> \<not> hcontains (sorted_sets s) k \<Longrightarrow>
      typed_ok (s\<lparr>DynamicVector := hput k xs (DynamicVector s)\<rparr>)"
    and "\<not> hcontains (Storage s) k \<Longrightarrow> \<not> hcontains (DynamicVector s) k \<Longrightarrow> \<not> hcontains (sorted_sets s) k \<Longrightarrow>
      typed_ok (s\<lparr>Streams := hput k st (Streams s)\<rparr>)"
    and "\<not> hcontains (Storage s) k \<Longrightarrow> \<not> hcontains (DynamicVector s) k \<Longrightarrow> \<not> hcontains (Streams s) k \<Longrightarrow>
      typed_ok (s\<lparr>sorted_sets := hput k z (sorted_sets s)\<rparr>)"
  using assms by (auto simp: typed_ok_def)

lemma erase_typed:
  assumes "typed_ok s"
  shows "typed_ok (s\<lparr>DynamicVector := herase k (DynamicVector s)\<rparr>)" "typed_ok (s\<lparr>Streams := herase k (Streams s)\<rparr>)"
    "typed_ok (s\<lparr>sorted_sets := herase k (sorted_sets s)\<rparr>)"
  using assms by (auto simp: typed_ok_def)

text \<open>A container whose key is already there can be written in place.\<close>

lemma replace_typed:
  assumes "typed_ok s"
  shows "hcontains (DynamicVector s) k \<Longrightarrow> typed_ok (s\<lparr>DynamicVector := hput k xs (DynamicVector s)\<rparr>)"
    and "hcontains (sorted_sets s) k \<Longrightarrow> typed_ok (s\<lparr>sorted_sets := hput k z (sorted_sets s)\<rparr>)"
  using assms by (auto simp: typed_ok_def)

section \<open>The commands\<close>

lemma put_list_typed: "typed_ok s \<Longrightarrow> list_at s k \<noteq> [] \<Longrightarrow> typed_ok (put_list k xs s)"
  by (auto simp: put_list_def list_at_def hcontains_def erase_typed replace_typed split: option.splits)

lemma try_blpop_typed: "typed_ok s \<Longrightarrow> typed_ok (fst (try_blpop keys s))"
  by (induction keys) (auto simp: put_list_typed queue_propagation_def split: list.split)

interpretation rpush_t: typed_handler "\<lambda>_. handle_rpush" "Some ''list''"
  by unfold_locales (auto simp: handle_rpush_def Let_def fits_def free_for_absent(2) intro!: put_typed(2))

interpretation lpush_t: typed_handler "\<lambda>_. handle_lpush" "Some ''list''"
  by unfold_locales (auto simp: handle_lpush_def Let_def fits_def free_for_absent(2) intro!: put_typed(2))

interpretation lpop_t: typed_handler "\<lambda>_. handle_lpop" None
  by (rule checking_typed) (auto simp: handle_lpop_def Let_def put_list_typed split: list.split sum.split)

interpretation blpop_t: typed_handler handle_blpop None
  by (rule checking_typed)
    (auto simp: handle_blpop_def Let_def try_blpop_typed case_prod_beta split: option.split)

interpretation incr_t: typed_handler "\<lambda>_. handle_incr" "Some ''string''"
  by unfold_locales
    (auto simp: handle_incr_def Let_def fits_def free_for_absent(1) intro!: put_typed(1) split: option.split sum.split)

interpretation set_t: typed_handler handle_set None
  by (rule checking_typed) (rule handle_set_typed)

interpretation setbit_t: typed_handler handle_setbit None
proof (rule checking_typed)
  fix env s args assume s: "typed_ok s" "store_wf s"
  have "wrong_string_type env s (args ! 1) = (reap env s (args ! 1), \<not> holds_string env s (args ! 1))"
    by (auto simp: wrong_string_type_eq holds_string_def split: option.split val.split)
  with s show "typed_ok (fst (handle_setbit env s args))"
    using typed_put_string [OF s] reap_typed [OF s(1)]
    by (simp add: handle_setbit_def del: One_nat_def hget_Storage_reap split: option.split bool.split prod.split)
qed

lemma store_result_typed: "typed_ok s \<Longrightarrow> typed_ok (store_result dest v s)"
  by (auto simp: typed_ok_def store_result_def)

interpretation bitop_t: typed_handler handle_bitop None
proof (rule checking_typed)
  fix env s args assume "typed_ok s"
  moreover have "typed_ok (fst (bitop_sources env s (drop 3 args)))"
    using bitop_sources_eq [of env s "drop 3 args"] reap_all_typed [OF \<open>typed_ok s\<close>] by auto
  ultimately show "typed_ok (fst (handle_bitop env s args))"
    by (auto simp: handle_bitop_def Let_def store_result_typed split: prod.split option.split)
qed

lemma put_checked_zset_typed:
  assumes "typed_ok s" "store_wf s" "\<not> snd (wrong_sorted_set_type env s k)"
  shows "typed_ok ((reap env s k)\<lparr>sorted_sets := hput k z (sorted_sets s)\<rparr>)"
proof -
  have "free_for env (reap env s k) k ''zset''"
    using assms view_reap [of s env k] store_wf_expiry
    by (auto simp: wrong_sorted_set_type_eq free_for_def split: option.splits val.splits)
  with reap_typed [OF assms(1)] show ?thesis
    using free_for_absent(4) [of "reap env s k" env k] put_typed(4) [of "reap env s k" k z] by simp
qed

interpretation zadd_t: typed_handler handle_zadd None
  by (rule checking_typed)
    (auto simp: handle_zadd_def wrong_sorted_set_type_eq case_prod_beta reap_typed
      intro: put_checked_zset_typed split: option.split val.split bool.split)

interpretation geoadd_t: typed_handler handle_geoadd None
  by (rule checking_typed)
    (auto simp: handle_geoadd_def wrong_sorted_set_type_eq case_prod_beta reap_typed
      intro: put_checked_zset_typed split: option.split val.split bool.split sum.split)

lemma put_zset_typed: "typed_ok s \<Longrightarrow> hcontains (sorted_sets s) k \<Longrightarrow> typed_ok (put_zset k z s)"
  by (simp add: put_zset_def replace_typed erase_typed)

interpretation zrem_t: typed_handler handle_zrem None
  by (rule checking_typed)
    (auto simp: handle_zrem_def wrong_sorted_set_type_eq reap_typed hcontains_def case_prod_beta
      intro!: put_zset_typed split: option.split val.split bool.split)

lemma put_stream_typed:
  assumes "typed_ok s" "\<not> hcontains (Storage s) k" "\<not> hcontains (DynamicVector s) k" "\<not> hcontains (sorted_sets s) k"
  shows "typed_ok (s\<lparr>Streams := hput k st (Streams s)\<rparr>)" "typed_ok (s\<lparr>Streams := herase k (hput k st (Streams s))\<rparr>)"
  using put_typed(3) [OF assms] erase_typed(2) [OF put_typed(3) [OF assms, of st], of k] by simp_all

interpretation xadd_t: typed_handler handle_xadd "Some ''stream''"
proof unfold_locales
  fix s env and args :: args
  assume s: "typed_ok s" "fits env s (Some ''stream'') args"
    and "2 \<le> length args \<Longrightarrow> Some ''stream'' \<noteq> None \<Longrightarrow> \<not> dead env s (args ! 1)"
  then have "length args < 5 \<or> (\<not> hcontains (Storage s) (args ! 1) \<and> \<not> hcontains (DynamicVector s) (args ! 1)
      \<and> \<not> hcontains (sorted_sets s) (args ! 1))"
    using free_for_absent(3) [of s env "args ! 1"] by (auto simp: fits_def)
  with s(1) show "typed_ok (fst (handle_xadd env s args))"
    by (auto simp: handle_xadd_def Let_def put_stream_typed split: prod.split StreamAddResult.split)
qed

interpretation xread_t: typed_handler handle_xread None
  by (rule checking_typed) (metis handle_xread_store typed_ok_frame(1))

interpretation wait_t: typed_handler handle_wait None
  by (rule checking_typed) (metis handle_wait_store typed_ok_frame(1))

interpretation publish_t: typed_handler "\<lambda>_. handle_publish" None
  by (rule checking_typed) (auto simp: handle_publish_def split: option.split)

section \<open>Dispatch\<close>

lemma front_commands_typed: "list_all (\<lambda>(c, h). typed_handler h (unchecked_type c)) front_commands"
  by (simp add: front_commands_def unchecked_type_def plain_typed publish_t.typed_handler_axioms
      zadd_t.typed_handler_axioms zrank_h.typed.typed_handler_axioms zrange_h.typed.typed_handler_axioms
      zcard_h.typed.typed_handler_axioms zscore_h.typed.typed_handler_axioms zrem_t.typed_handler_axioms
      geoadd_t.typed_handler_axioms geopos_h.typed.typed_handler_axioms geodist_h.typed.typed_handler_axioms
      geosearch_h.typed.typed_handler_axioms)

lemma data_commands_typed: "list_all (\<lambda>(c, h). typed_handler h (unchecked_type c)) data_commands"
  by (simp add: data_commands_def unchecked_type_def plain_typed echo_h.typed.typed_handler_axioms
      set_t.typed_handler_axioms get_h.typed.typed_handler_axioms strlen_h.typed.typed_handler_axioms
      setbit_t.typed_handler_axioms getbit_h.typed.typed_handler_axioms bitcount_h.typed.typed_handler_axioms
      bitop_t.typed_handler_axioms rpush_t.typed_handler_axioms lrange_h.typed.typed_handler_axioms
      lpush_t.typed_handler_axioms llen_h.typed.typed_handler_axioms lpop_t.typed_handler_axioms
      blpop_t.typed_handler_axioms type_h.typed.typed_handler_axioms keys_h.typed.typed_handler_axioms
      xadd_t.typed_handler_axioms xrange_h.typed.typed_handler_axioms xread_t.typed_handler_axioms
      incr_t.typed_handler_axioms info_h.typed.typed_handler_axioms replconf_h.typed.typed_handler_axioms
      psync_h.typed.typed_handler_axioms wait_t.typed_handler_axioms config_get_h.typed.typed_handler_axioms)

lemma table_typed:
  assumes "list_all (\<lambda>(c, h). typed_handler h (unchecked_type c)) table" "map_of table c = Some h"
  shows "typed_handler h (unchecked_type c)"
  using assms map_of_SomeD [of table c h] by (fastforce simp: list_all_iff)

text \<open>The guard of the dispatcher drops a dead key before a command that does not look at it.\<close>

lemma unchecked_cases:
  assumes "unchecked_type c \<noteq> None"
  obtains "c = ''RPUSH''" | "c = ''LPUSH''" | "c = ''XADD''" | "c = ''INCR''"
  using assms unfolding unchecked_type_def by (auto split: if_splits)

lemma guard_covers: "unchecked_type c \<noteq> None \<Longrightarrow> List.member incompatible_with_sorted_set c"
  by (erule unchecked_cases) (simp_all add: incompatible_with_sorted_set_def)

lemma unchecked_not_front: "unchecked_type c \<noteq> None \<Longrightarrow> map_of front_commands c = None"
  by (erule unchecked_cases) (simp_all add: front_commands_def)

lemma incompatible_not_front: "List.member incompatible_with_sorted_set c \<Longrightarrow> map_of front_commands c = None"
proof -
  have "list_all (\<lambda>c. map_of front_commands c = None) incompatible_with_sorted_set"
    by (simp add: incompatible_with_sorted_set_def front_commands_def)
  then show "List.member incompatible_with_sorted_set c \<Longrightarrow> map_of front_commands c = None"
    by (simp add: list_all_iff)
qed

lemma fits_reap: "typed_ok s \<Longrightarrow> store_wf s \<Longrightarrow> fits env (reap env s k) t args = fits env s t args"
  by (simp add: fits_def free_for_def view_reap store_wf_expiry split: option.split)

lemma dispatch_data_typed:
  assumes s: "typed_ok s" "store_wf s" and fit: "fits env s (unchecked_type (to_upper (args ! 0))) args"
  shows "typed_ok (fst (dispatch_data env s args))"
proof (cases "map_of front_commands (to_upper (args ! 0))")
  case (Some h)
  then have "unchecked_type (to_upper (args ! 0)) = None" using unchecked_not_front by fastforce
  then show ?thesis
    using typed_handler.handler_typed [OF table_typed [OF front_commands_typed Some] s fit] Some
    by (simp add: dispatch_data_def Let_def)
next
  case None
  let ?c = "to_upper (args ! 0)" and ?k = "args ! 1"
  let ?guarded = "2 \<le> length args \<and> List.member incompatible_with_sorted_set ?c"
  let ?s = "if ?guarded then reap env s ?k else s"
  have s': "typed_ok ?s" "store_wf ?s" using s reap_typed reap_wf by simp_all
  have "fits env ?s (unchecked_type ?c) args"
    using fit by (simp add: fits_reap [OF s])
  moreover have "\<not> dead env ?s ?k" if "2 \<le> length args" "unchecked_type ?c \<noteq> None"
    using that guard_covers by simp
  ultimately have "typed_ok (fst (h env ?s args))" if "map_of data_commands ?c = Some h" for h
    using typed_handler.handler_typed [OF table_typed [OF data_commands_typed that] s'] by blast
  then show ?thesis
    using None s' by (auto simp: dispatch_data_def Let_def key_type_eq split: option.split)
qed

lemma subscribe_channels_typed:
  "typed_ok s \<Longrightarrow> typed_ok (fst (subscribe_channels cs s client))"
  "typed_ok s \<Longrightarrow> typed_ok (fst (unsubscribe_channels cs s client))"
  by (induction cs arbitrary: s client) (simp_all add: erase_subscriber_def Let_def case_prod_beta split: option.split)

lemma dispatch_command_typed:
  assumes "typed_ok s" "store_wf s" "fits env s (unchecked_type (to_upper (args ! 0))) args"
  shows "typed_ok (fst (dispatch_command env args s client))"
proof -
  have "typed_ok (fst (handle_subscribe args s client))" "typed_ok (fst (handle_unsubscribe args s client))"
    using assms(1) by (simp_all add: handle_subscribe_def handle_unsubscribe_def Let_def subscribe_channels_typed)
  moreover have "typed_ok (fst (handle_acl env s args))" using assms(1) handle_acl_store [of env s args] by auto
  ultimately show ?thesis
    using dispatch_data_typed [OF assms] assms(1) by (simp add: dispatch_command_def Let_def case_prod_beta)
qed

section \<open>Properties\<close>

text \<open>C12: Keys keep one type. If every key lives in one container, then it still does after any
  command, except when \<open>RPUSH\<close>, \<open>LPUSH\<close>, \<open>XADD\<close> or \<open>INCR\<close> meets a key of another type: all other
  commands, those that fail or throw included, check the type of the key they write or replace
  the key. And the commands listed as incompatible with sorted sets answer WRONGTYPE on a sorted
  set and change nothing a client can see.\<close>

theorem commands_keep_keys_typed:
  fixes env :: env and args :: args
  assumes "typed_ok s" "store_wf s"
  shows "(fits env s (unchecked_type (to_upper (args ! 0))) args \<longrightarrow> typed_ok (fst (dispatch_command env args s client)))
     \<and> (2 \<le> length args \<and> List.member incompatible_with_sorted_set (to_upper (args ! 0)) \<and> view env s (args ! 1) = Some (VZset ps) \<longrightarrow>
          snd (dispatch_data env s args) = Inr wrong_type \<and> view env (fst (dispatch_data env s args)) = view env s)"
proof (intro conjI impI)
  show "typed_ok (fst (dispatch_command env args s client))" if "fits env s (unchecked_type (to_upper (args ! 0))) args"
    by (rule dispatch_command_typed [OF assms that])
next
  assume zset: "2 \<le> length args \<and> List.member incompatible_with_sorted_set (to_upper (args ! 0)) \<and> view env s (args ! 1) = Some (VZset ps)"
  then have "map_of front_commands (to_upper (args ! 0)) = None" by (intro incompatible_not_front) simp
  with zset have "dispatch_data env s args = (reap env s (args ! 1), Inr wrong_type)"
    by (simp add: dispatch_data_def Let_def key_type_eq)
  then show "snd (dispatch_data env s args) = Inr wrong_type" "view env (fst (dispatch_data env s args)) = view env s"
    using view_reap [OF assms(1) store_wf_expiry [OF assms(2)]] by simp_all
qed

text \<open>On the string at \<open>k\<close>, \<open>SETBIT\<close> and a push to another key keep the types; a push to \<open>k\<close>
  itself is not refused, and leaves \<open>k\<close> in two containers.\<close>

theorem commands_keep_keys_typed_witness:
  "typed_ok (fst (dispatch_command sample_env [''RPUSH'', ''l'', ''x''] sample_string_store (new_client 4)))"
proof -
  have "to_upper ([''RPUSH'', ''l'', ''x''] ! 0) = ''RPUSH''" by code_simp
  then have "fits sample_env sample_string_store (unchecked_type (to_upper ([''RPUSH'', ''l'', ''x''] ! 0))) [''RPUSH'', ''l'', ''x'']"
    by (simp add: fits_def free_for_def unchecked_type_def view_def dead_def sample_string_store_def new_store_def hget_def)
  then show ?thesis
    using commands_keep_keys_typed [OF sample_string_store_ok(1,2), of sample_env "[''RPUSH'', ''l'', ''x'']" "new_client 4"] by blast
qed

lemma push_to_string_breaks_types:
  "\<not> fits sample_env sample_string_store (unchecked_type ''RPUSH'') [''RPUSH'', ''k'', ''x'']"
  "\<not> typed_ok (fst (dispatch_command sample_env [''RPUSH'', ''k'', ''x''] sample_string_store (new_client 4)))"
proof -
  let ?t = "fst (dispatch_command sample_env [''RPUSH'', ''k'', ''x''] sample_string_store (new_client 4))"
  show "\<not> fits sample_env sample_string_store (unchecked_type ''RPUSH'') [''RPUSH'', ''k'', ''x'']"
    by (simp add: fits_def free_for_def unchecked_type_def view_def dead_def sample_string_store_def new_store_def hget_def)
  have "hcontains (Storage ?t) ''k'' \<and> hcontains (DynamicVector ?t) ''k''" by code_simp
  then show "\<not> typed_ok ?t" unfolding typed_ok_def by blast
qed

end
