(* ===== verification/Aof.thy ===== *)
theory Aof
  imports Command
begin

text \<open>
  The append-only file (\<open>src/src/aof/aof.cpp\<close>): the manifest, appending with partial and
  interrupted writes, the three \<open>fsync\<close> policies, and replay at start-up. The file the
  descriptor refers to is a byte string with the length \<open>fsync\<close> has covered; the results
  of system calls are an input list, consumed in order, and a loop whose calls have not
  all been answered yet is \<open>None\<close>.
\<close>

section \<open>The manifest\<close>

text \<open>Formatted extraction from a string stream: skip white space, then read.\<close>

definition extract_word :: "string \<Rightarrow> (string \<times> string) option" where
  "extract_word input =
     (let rest = dropWhile is_space input; word = takeWhile (\<lambda>c. \<not> is_space c) rest
      in if word = [] then None else Some (word, drop (length word) rest))"

definition extract_llong :: "string \<Rightarrow> (int \<times> string) option" where
  "extract_llong input =
     (let rest = dropWhile is_space input;
          negative = (rest \<noteq> [] \<and> hd rest = CHR ''-'');
          body = (if rest \<noteq> [] \<and> (hd rest = CHR ''-'' \<or> hd rest = CHR ''+'') then tl rest else rest);
          digits = takeWhile is_digit body;
          v = (if negative then - int (digits_val digits) else int (digits_val digits))
      in if digits = [] \<or> v < - (2 ^ 63) \<or> 2 ^ 63 \<le> v then None
         else Some (v, drop (length digits) body))"

definition valid_filename :: "string \<Rightarrow> bool" where
  "valid_filename name \<longleftrightarrow> CHR ''/'' \<notin> set name \<and> name \<noteq> ''.'' \<and> name \<noteq> ''..''"

definition manifest_entry :: "string \<Rightarrow> (int \<times> string) option" where
  "manifest_entry line =
     (case extract_word line of None \<Rightarrow> None
      | Some (file_key, r) \<Rightarrow> (case extract_word r of None \<Rightarrow> None
      | Some (filename, r) \<Rightarrow> (case extract_word r of None \<Rightarrow> None
      | Some (seq_key, r) \<Rightarrow> (case extract_llong r of None \<Rightarrow> None
      | Some (seq, r) \<Rightarrow> (case extract_word r of None \<Rightarrow> None
      | Some (type_key, r) \<Rightarrow> (case extract_word r of None \<Rightarrow> None
      | Some (type, r) \<Rightarrow>
          if file_key = ''file'' \<and> seq_key = ''seq'' \<and> type_key = ''type'' \<and> type = ''i'' \<and> 0 < seq
             \<and> extract_word r = None \<and> valid_filename filename
          then Some (seq, filename) else None))))))"

text \<open>\<open>std::getline\<close>: the lines, without a last empty one after a final newline.\<close>

function split_lines :: "string \<Rightarrow> string list" where
  "split_lines s =
     (if s = [] then []
      else let line = takeWhile (\<lambda>c. c \<noteq> LF) s in line # split_lines (drop (Suc (length line)) s))"
  by pat_completeness auto
termination
  by (relation "measure length") auto

declare split_lines.simps [simp del]

definition invalid_manifest :: "string \<Rightarrow> exn" where
  "invalid_manifest path = RuntimeError (''Invalid incremental AOF manifest: '' @ path)"

fun manifest_entries :: "string \<Rightarrow> string list \<Rightarrow> (int \<times> string) list res" where
  "manifest_entries path [] = Inr []"
| "manifest_entries path (line # rest) =
     (if line = [] \<or> hd line = CHR ''#'' then manifest_entries path rest
      else case manifest_entry line of
        None \<Rightarrow> Inl (invalid_manifest path)
      | Some e \<Rightarrow> (case manifest_entries path rest of Inl x \<Rightarrow> Inl x | Inr es \<Rightarrow> Inr (e # es)))"

fun manifest_files :: "int \<Rightarrow> (int \<times> string) list \<Rightarrow> string list res" where
  "manifest_files previous [] = Inr []"
| "manifest_files previous ((seq, file) # rest) =
     (if seq = previous then Inl (RuntimeError ''Duplicate AOF sequence number'')
      else case manifest_files seq rest of Inl x \<Rightarrow> Inl x | Inr files \<Rightarrow> Inr (file # files))"

text \<open>
  \<open>read_manifest\<close> on the text of the manifest, \<open>None\<close> when it cannot be opened. The names
  returned are relative to the manifest's directory.
\<close>

definition read_manifest :: "string \<Rightarrow> string option \<Rightarrow> string list res" where
  "read_manifest path text =
     (case text of
        None \<Rightarrow> Inl (RuntimeError (''Failed to open AOF manifest: '' @ path))
      | Some text \<Rightarrow>
          (case manifest_entries path (split_lines text) of
             Inl e \<Rightarrow> Inl e
           | Inr [] \<Rightarrow> Inl (RuntimeError (''Failed to read incremental AOF manifest: '' @ path))
           | Inr es \<Rightarrow> manifest_files 0 (sort es)))"

section \<open>The log file\<close>

text \<open>
  The disk is a map from paths to contents. A system call that writes or syncs has one of
  three outcomes; a call of the log carries the outcomes of its system calls, in order,
  and the two clock readings it makes. \<open>synced\<close> is bookkeeping of the model: how many
  bytes of the open file the last successful \<open>fsync\<close> covered.
\<close>

type_synonym disk = "(string, bytes) hmap"

datatype io = Done nat | Interrupted | Failed

record aof_calls =
  outcomes :: "io list"
  now_checked :: int
  now_synced :: int

record Aof =
  aof_fd :: "string option"
  aof_files :: "string list"
  aof_fsync :: string
  aof_dirty :: bool
  last_sync :: int
  synced :: nat

definition new_Aof :: Aof where
  "new_Aof = \<lparr>aof_fd = None, aof_files = [], aof_fsync = [], aof_dirty = False, last_sync = 0, synced = 0\<rparr>"

definition contents :: "disk \<Rightarrow> string \<Rightarrow> bytes" where
  "contents d path = (case hget d path of None \<Rightarrow> [] | Some b \<Rightarrow> b)"

text \<open>The descriptor is opened with \<open>O_APPEND\<close>: a write adds to the end of the file.\<close>

fun write_loop :: "io list \<Rightarrow> bytes \<Rightarrow> bytes \<Rightarrow> (io list \<times> bytes \<times> unit res) option" where
  "write_loop rs file [] = Some (rs, file, Inr ())"
| "write_loop [] file (b # bs) = None"
| "write_loop (Interrupted # rs) file (b # bs) = write_loop rs file (b # bs)"
| "write_loop (Failed # rs) file (b # bs) = Some (rs, file, Inl (SystemError ''Failed to write AOF''))"
| "write_loop (Done n # rs) file (b # bs) =
     (if n = 0 then Some (rs, file, Inl (RuntimeError ''Failed to complete AOF write''))
      else write_loop rs (file @ take n (b # bs)) (drop n (b # bs)))"

fun fsync_loop :: "io list \<Rightarrow> (io list \<times> unit res) option" where
  "fsync_loop [] = None"
| "fsync_loop (Interrupted # rs) = fsync_loop rs"
| "fsync_loop (Failed # rs) = Some (rs, Inl (SystemError ''Failed to sync AOF''))"
| "fsync_loop (Done n # rs) = Some (rs, Inr ())"

definition second :: int where
  "second = 1000000000"

definition sync_if_due :: "aof_calls \<Rightarrow> disk \<Rightarrow> Aof \<Rightarrow> (Aof \<times> unit res) option" where
  "sync_if_due calls d aof =
     (if \<not> aof_dirty aof \<or> aof_fsync aof = ''no'' then Some (aof, Inr ())
      else if aof_fsync aof = ''everysec'' \<and> now_checked calls - last_sync aof < second then Some (aof, Inr ())
      else case fsync_loop (outcomes calls) of
        None \<Rightarrow> None
      | Some (_, Inl e) \<Rightarrow> Some (aof, Inl e)
      | Some (_, Inr _) \<Rightarrow>
          Some (aof\<lparr>aof_dirty := False, last_sync := now_synced calls,
                   synced := (case aof_fd aof of None \<Rightarrow> 0 | Some path \<Rightarrow> length (contents d path))\<rparr>, Inr ()))"

definition aof_write :: "aof_calls \<Rightarrow> string \<Rightarrow> bytes \<Rightarrow> disk \<Rightarrow> Aof \<Rightarrow> (disk \<times> Aof \<times> unit res) option" where
  "aof_write calls path bytes d aof =
     (case write_loop (outcomes calls) (contents d path) bytes of
        None \<Rightarrow> None
      | Some (rs, file, r) \<Rightarrow>
          (let d = hput path file d
           in case r of
             Inl e \<Rightarrow> Some (d, aof, Inl e)
           | Inr _ \<Rightarrow>
               (case sync_if_due (calls\<lparr>outcomes := rs\<rparr>) d (aof\<lparr>aof_dirty := True\<rparr>) of
                  None \<Rightarrow> None
                | Some (aof, r) \<Rightarrow> Some (d, aof, r))))"

definition append_command :: "aof_calls \<Rightarrow> args \<Rightarrow> disk \<Rightarrow> Aof \<Rightarrow> (disk \<times> Aof \<times> unit res) option" where
  "append_command calls args d aof =
     (case aof_fd aof of None \<Rightarrow> Some (d, aof, Inr ())
      | Some path \<Rightarrow> aof_write calls path (to_bytes (Array args)) d aof)"

definition transaction_bytes :: "args list \<Rightarrow> bytes" where
  "transaction_bytes commands =
     to_bytes (Array [''MULTI'']) @ concat (map (\<lambda>args. to_bytes (Array args)) commands) @ to_bytes (Array [''EXEC''])"

definition append_transaction :: "aof_calls \<Rightarrow> args list \<Rightarrow> disk \<Rightarrow> Aof \<Rightarrow> (disk \<times> Aof \<times> unit res) option" where
  "append_transaction calls commands d aof =
     (case aof_fd aof of None \<Rightarrow> Some (d, aof, Inr ())
      | Some path \<Rightarrow> if commands = [] then Some (d, aof, Inr ())
                     else aof_write calls path (transaction_bytes commands) d aof)"

definition sync_timeout_ms :: "int \<Rightarrow> Aof \<Rightarrow> int" where
  "sync_timeout_ms now aof =
     (if \<not> aof_dirty aof \<or> aof_fsync aof \<noteq> ''everysec'' then - 1
      else let remaining = - ((- (last_sync aof + second - now)) div 1000000)
           in if 0 < remaining then remaining else 0)"

section \<open>Opening\<close>

text \<open>Joining paths with \<open>operator/\<close> of \<open>std::filesystem::path\<close>.\<close>

definition path_join :: "string \<Rightarrow> string \<Rightarrow> string" where
  "path_join a b =
     (if b \<noteq> [] \<and> hd b = CHR ''/'' then b
      else if a = [] \<or> last a = CHR ''/'' then a @ b else a @ ''/'' @ b)"

text \<open>Which of the file-system calls of \<open>Aof::open\<close> succeed.\<close>

record open_calls =
  directories_ok :: bool
  initial_ok :: bool
  manifest_ok :: bool
  rename_ok :: bool
  descriptor_ok :: bool
  opened_at :: int

definition initial_name :: "Config \<Rightarrow> string" where
  "initial_name c = cfg_appendfilename c @ ''.1.incr.aof''"

definition initial_manifest :: "string \<Rightarrow> string" where
  "initial_manifest name = ''file '' @ name @ '' seq 1 type i'' @ [LF]"

text \<open>A first start leaves an empty log file and a manifest that names it.\<close>

definition create_manifest :: "open_calls \<Rightarrow> Config \<Rightarrow> string \<Rightarrow> disk \<Rightarrow> disk \<times> unit res" where
  "create_manifest calls c directory d =
     (let manifest_path = path_join directory (cfg_appendfilename c @ ''.manifest'')
      in if hcontains d manifest_path then (d, Inr ())
         else if \<not> initial_ok calls then (d, Inl (RuntimeError ''Failed to create incremental AOF file''))
         else let file = path_join directory (initial_name c); d = hput file (contents d file) d
           in if \<not> manifest_ok calls then (d, Inl (RuntimeError ''Failed to write AOF manifest''))
              else if \<not> rename_ok calls
              then (hput (manifest_path @ ''.tmp'') (initial_manifest (initial_name c)) d,
                    Inl (SystemError ''rename''))
              else (hput manifest_path (initial_manifest (initial_name c)) (herase (manifest_path @ ''.tmp'') d), Inr ()))"

definition aof_open :: "open_calls \<Rightarrow> Config \<Rightarrow> disk \<Rightarrow> Aof \<Rightarrow> disk \<times> Aof res" where
  "aof_open calls c d aof =
     (if cfg_appendonly c \<noteq> ''yes'' then (d, Inr aof)
      else if \<not> List.member [''always'', ''everysec'', ''no''] (cfg_appendfsync c)
      then (d, Inl (RuntimeError (''Invalid appendfsync option: '' @ cfg_appendfsync c)))
      else if \<not> directories_ok calls then (d, Inl (SystemError ''create_directories''))
      else let aof = aof\<lparr>aof_fsync := cfg_appendfsync c, last_sync := opened_at calls\<rparr>;
               directory = path_join (cfg_dir c) (cfg_appenddirname c);
               manifest_path = path_join directory (cfg_appendfilename c @ ''.manifest'')
        in case create_manifest calls c directory d of
             (d, Inl e) \<Rightarrow> (d, Inl e)
           | (d, Inr _) \<Rightarrow>
               (case read_manifest manifest_path (hget d manifest_path) of
                  Inl e \<Rightarrow> (d, Inl e)
                | Inr names \<Rightarrow>
                    (let files = map (path_join directory) names
                     in case filter (\<lambda>file. \<not> hcontains d file) files of
                          missing # _ \<Rightarrow> (d, Inl (RuntimeError (''Missing incremental AOF file: '' @ missing)))
                        | [] \<Rightarrow>
                            if \<not> descriptor_ok calls
                            then (d, Inl (SystemError ''Failed to open incremental AOF file''))
                            else (d, Inr (aof\<lparr>aof_files := files, aof_fd := Some (last files)\<rparr>)))))"

section \<open>Replay\<close>

text \<open>
  The state of a replay: how many commands have run (the environment of the next one is
  \<open>envs\<close> at that number), the store and the client the commands run as.
\<close>

type_synonym replay_state = "nat \<times> store \<times> ClientState"

definition replay_error :: "string \<Rightarrow> string \<Rightarrow> exn" where
  "replay_error file response =
     RuntimeError (''Failed to replay AOF command in '' @ file @ '': '' @ response)"

definition replay_step :: "string \<Rightarrow> (nat \<Rightarrow> env) \<Rightarrow> args \<Rightarrow> replay_state \<Rightarrow> replay_state res" where
  "replay_step file envs args st =
     (case st of
        (n, s, client) \<Rightarrow>
          (case handle_command (envs n) args s client of
             (s, client, Inl e) \<Rightarrow> Inl e
           | (s, client, Inr response) \<Rightarrow>
               (case take_pending_block s of
                  (blocked, s) \<Rightarrow>
                    (case take_pending_propagations s of
                       (_, s) \<Rightarrow>
                         if blocked \<noteq> None \<or> is_error_reply response then Inl (replay_error file response)
                         else Inr (Suc n, s, client)))))"

function replay_drain :: "string \<Rightarrow> (nat \<Rightarrow> env) \<Rightarrow> bytes \<Rightarrow> replay_state \<Rightarrow> (bytes \<times> replay_state) res" where
  "replay_drain file envs buffer st =
     (case parse_command buffer of
        Inl e \<Rightarrow> Inl e
      | Inr None \<Rightarrow> Inr (buffer, st)
      | Inr (Some (args, consumed)) \<Rightarrow>
          (case replay_step file envs args st of
             Inl e \<Rightarrow> Inl e
           | Inr st \<Rightarrow> replay_drain file envs (drop consumed buffer) st))"
  by pat_completeness auto
termination
proof (relation "measure (\<lambda>(_, _, buffer, _). length buffer)")
  fix path :: string and envs :: "nat \<Rightarrow> env" and buffer :: bytes and st st' :: replay_state
    and x y args consumed
  assume "parse_command buffer = Inr x" "x = Some y" "(args, consumed) = y"
  then have "parse_command buffer = Inr (Some (args, consumed))" by simp
  then have "4 \<le> consumed" "consumed \<le> length buffer" by (rule parse_command_consumes)+
  then show "((path, envs, drop consumed buffer, st'), path, envs, buffer, st)
      \<in> measure (\<lambda>(_, _, buffer, _). length buffer)" by simp
qed simp

declare replay_drain.simps [simp del]

fun replay_chunks :: "string \<Rightarrow> (nat \<Rightarrow> env) \<Rightarrow> bytes list \<Rightarrow> bytes \<Rightarrow> replay_state \<Rightarrow> (bytes \<times> replay_state) res" where
  "replay_chunks file envs [] buffer st = Inr (buffer, st)"
| "replay_chunks file envs (chunk # chunks) buffer st =
     (case replay_drain file envs (buffer @ chunk) st of
        Inl e \<Rightarrow> Inl e
      | Inr (buffer, st) \<Rightarrow> replay_chunks file envs chunks buffer st)"

text \<open>What successive reads of 4096 bytes deliver.\<close>

function file_chunks :: "bytes \<Rightarrow> bytes list" where
  "file_chunks b = (if b = [] then [] else take 4096 b # file_chunks (drop 4096 b))"
  by pat_completeness auto
termination by (relation "measure length") auto

declare file_chunks.simps [simp del]

definition replay_file :: "(nat \<Rightarrow> env) \<Rightarrow> disk \<Rightarrow> string \<Rightarrow> replay_state \<Rightarrow> replay_state res" where
  "replay_file envs d file st =
     (case hget d file of
        None \<Rightarrow> Inl (RuntimeError (''Failed to read AOF: '' @ file))
      | Some input \<Rightarrow>
          (case replay_chunks file envs (file_chunks input) [] st of
             Inl e \<Rightarrow> Inl e
           | Inr (buffer, (n, s, client)) \<Rightarrow>
               if buffer \<noteq> [] \<or> in_multi client then Inl (RuntimeError (''Incomplete AOF: '' @ file))
               else Inr (n, s, client)))"

fun replay_files :: "(nat \<Rightarrow> env) \<Rightarrow> disk \<Rightarrow> string list \<Rightarrow> replay_state \<Rightarrow> replay_state res" where
  "replay_files envs d [] st = Inr st"
| "replay_files envs d (file # files) st =
     (case replay_file envs d file st of Inl e \<Rightarrow> Inl e | Inr st \<Rightarrow> replay_files envs d files st)"

text \<open>The client of a replay is a default \<open>ClientState\<close> marked as authenticated.\<close>

definition replay_client :: ClientState where
  "replay_client = (new_client (- 1))\<lparr>authenticated := True\<rparr>"

definition replay :: "(nat \<Rightarrow> env) \<Rightarrow> disk \<Rightarrow> Aof \<Rightarrow> store \<Rightarrow> store res" where
  "replay envs d aof s =
     (case replay_files envs d (aof_files aof) (0, s, replay_client) of
        Inl e \<Rightarrow> Inl e
      | Inr (_, s, _) \<Rightarrow> Inr s)"

section \<open>Writing is appending\<close>

lemma write_loop_appends:
  "write_loop rs old bytes = Some (rs', file', r) \<Longrightarrow>
     \<exists>done_bytes left. bytes = done_bytes @ left \<and> file' = old @ done_bytes \<and> (r = Inr () \<longleftrightarrow> left = [])"
proof (induction rs old bytes rule: write_loop.induct)
  case (5 n rs old b bs)
  show ?case
  proof (cases "n = 0")
    case False
    with 5 obtain w l where "drop n (b # bs) = w @ l" "file' = (old @ take n (b # bs)) @ w" "r = Inr () \<longleftrightarrow> l = []"
      by auto
    moreover from this(1) have "b # bs = (take n (b # bs) @ w) @ l" using append_take_drop_id [of n "b # bs"] by simp
    ultimately show ?thesis by (intro exI [of _ "take n (b # bs) @ w"] exI [of _ l] conjI) simp_all
  qed (use 5 in auto)
qed auto

text \<open>The loop ends as soon as as many calls were answered as there are bytes.\<close>

lemma write_loop_ends:
  "length bytes \<le> length (filter (\<lambda>r. r \<noteq> Interrupted) rs) \<Longrightarrow> \<exists>out. write_loop rs old bytes = Some out"
  by (induction rs old bytes rule: write_loop.induct) auto

lemma contents_hput [simp]: "contents (hput p b d) q = (if q = p then b else contents d q)"
  by (simp add: contents_def)

text \<open>After a sync the whole file is covered; an append that is not synced leaves the file dirty.\<close>

definition clean :: "disk \<Rightarrow> Aof \<Rightarrow> bool" where
  "clean d aof \<longleftrightarrow> (\<forall>path. aof_fd aof = Some path \<and> \<not> aof_dirty aof \<longrightarrow> synced aof = length (contents d path))"

lemma sync_if_due_cases:
  assumes "sync_if_due calls d aof = Some (aof', r)"
  shows "aof_fd aof' = aof_fd aof \<and> aof_files aof' = aof_files aof \<and> aof_fsync aof' = aof_fsync aof
     \<and> (aof' = aof \<or> r = Inr () \<and> \<not> aof_dirty aof' \<and> last_sync aof' = now_synced calls \<and> clean d aof')
     \<and> (r = Inr () \<and> aof_dirty aof' \<longrightarrow> aof_fsync aof = ''no''
          \<or> aof_fsync aof = ''everysec'' \<and> now_checked calls - last_sync aof < second)"
  using assms by (auto simp: sync_if_due_def clean_def split: if_splits option.splits sum.splits)

lemma fsync_loop_ends:
  "filter (\<lambda>r. r \<noteq> Interrupted) rs \<noteq> [] \<Longrightarrow> \<exists>out. fsync_loop rs = Some out"
  by (induction rs rule: fsync_loop.induct) auto

lemma aof_write_cases:
  assumes "aof_fd aof = Some path" "aof_write calls path bytes d aof = Some (d', aof', r)"
  shows "(\<exists>w l. bytes = w @ l \<and> contents d' path = contents d path @ w \<and> (r = Inr () \<longrightarrow> l = []))
     \<and> (\<forall>p. p \<noteq> path \<longrightarrow> hget d' p = hget d p)
     \<and> aof_fd aof' = Some path \<and> aof_files aof' = aof_files aof \<and> aof_fsync aof' = aof_fsync aof
     \<and> (r = Inr () \<longrightarrow> clean d' aof')
     \<and> (r = Inr () \<and> aof_dirty aof' \<longrightarrow> aof_fsync aof = ''no'' \<or> aof_fsync aof = ''everysec'')"
proof -
  obtain rs written wr where w: "write_loop (outcomes calls) (contents d path) bytes = Some (rs, written, wr)"
    using assms(2) by (auto simp: aof_write_def split: option.splits)
  from write_loop_appends [OF this] obtain w l where
    b: "bytes = w @ l" "written = contents d path @ w" "wr = Inr () \<longleftrightarrow> l = []" by blast
  show ?thesis
  proof (cases wr)
    case (Inl e)
    with assms w have "d' = hput path written d" "aof' = aof" "r = Inl e" by (simp_all add: aof_write_def Let_def)
    with b assms(1) show ?thesis by auto
  next
    case (Inr u)
    with assms w have s: "sync_if_due (calls\<lparr>outcomes := rs\<rparr>) (hput path written d) (aof\<lparr>aof_dirty := True\<rparr>) = Some (aof', r)"
        and d': "d' = hput path written d"
      by (auto simp: aof_write_def Let_def split: option.splits)
    have "contents d' path = contents d path @ bytes" using b Inr d' by simp
    with sync_if_due_cases [OF s] show ?thesis
      by (auto simp: d' assms(1) clean_def)
  qed
qed

lemma write_loop_rest:
  "length bytes < length (filter (\<lambda>r. r \<noteq> Interrupted) rs) \<Longrightarrow> write_loop rs old bytes = Some (rs', new, Inr u) \<Longrightarrow>
     filter (\<lambda>r. r \<noteq> Interrupted) rs' \<noteq> []"
  by (induction rs old bytes rule: write_loop.induct) (auto split: if_splits)

lemma sync_if_due_ends:
  "fsync_loop (outcomes calls) = Some out \<Longrightarrow> \<exists>aof' r. sync_if_due calls d aof = Some (aof', r)"
  by (cases out; cases "snd out") (auto simp: sync_if_due_def)

text \<open>The whole call ends when more system calls were answered than there are bytes.\<close>

lemma aof_write_ends:
  assumes "length bytes < length (filter (\<lambda>r. r \<noteq> Interrupted) (outcomes calls))"
  shows "\<exists>d' aof' r. aof_write calls path bytes d aof = Some (d', aof', r)"
proof -
  obtain rs written wr where w: "write_loop (outcomes calls) (contents d path) bytes = Some (rs, written, wr)"
    using write_loop_ends [of bytes "outcomes calls" "contents d path"] assms by auto
  show ?thesis
  proof (cases wr)
    case (Inr u)
    then obtain out where "fsync_loop rs = Some out"
      using write_loop_rest [OF assms] w fsync_loop_ends by blast
    with sync_if_due_ends [of "calls\<lparr>outcomes := rs\<rparr>"] obtain aof' r where
      "sync_if_due (calls\<lparr>outcomes := rs\<rparr>) (hput path written d) (aof\<lparr>aof_dirty := True\<rparr>) = Some (aof', r)"
      by fastforce
    with w Inr show ?thesis by (simp add: aof_write_def)
  qed (simp add: aof_write_def w Let_def)
qed

section \<open>Replay runs the logged commands in order\<close>

fun replay_commands :: "string \<Rightarrow> (nat \<Rightarrow> env) \<Rightarrow> args list \<Rightarrow> replay_state \<Rightarrow> replay_state res" where
  "replay_commands path envs [] st = Inr st"
| "replay_commands path envs (args # cmds) st =
     (case replay_step path envs args st of Inl e \<Rightarrow> Inl e | Inr st \<Rightarrow> replay_commands path envs cmds st)"

lemma replay_commands_append:
  "replay_commands path envs (cs @ ds) st =
     (case replay_commands path envs cs st of Inl e \<Rightarrow> Inl e | Inr st \<Rightarrow> replay_commands path envs ds st)"
  by (induction cs arbitrary: st) (simp_all split: sum.split)

lemma replay_drain_eq:
  "drain buffer = (cmds, rest, None) \<Longrightarrow>
     replay_drain path envs buffer st =
       (case replay_commands path envs cmds st of Inl e \<Rightarrow> Inl e | Inr st \<Rightarrow> Inr (rest, st))"
proof (induction buffer arbitrary: cmds st rule: drain.induct)
  case (1 buffer)
  show ?case
  proof (cases "parse_command buffer")
    case (Inl e)
    with 1(2) show ?thesis by (simp add: drain.simps [of buffer])
  next
    case (Inr x)
    show ?thesis
    proof (cases x)
      case None
      with 1(2) Inr have "cmds = []" "rest = buffer" by (simp_all add: drain.simps [of buffer])
      with None Inr show ?thesis by (subst replay_drain.simps) simp
    next
      case (Some p)
      obtain args n where p: "p = (args, n)" by fastforce
      with 1(2) Inr Some obtain cs where "drain (drop n buffer) = (cs, rest, None)" "cmds = args # cs"
        by (auto simp: drain.simps [of buffer] split: prod.splits)
      with 1(1) [OF Inr Some p [symmetric]] Inr Some p show ?thesis
        by (subst replay_drain.simps) (simp split: sum.split)
    qed
  qed
qed

lemma replay_chunks_eq:
  "feed_chunks buffer chunks = (cmds, rest, None) \<Longrightarrow>
     replay_chunks path envs chunks buffer st =
       (case replay_commands path envs cmds st of Inl e \<Rightarrow> Inl e | Inr st \<Rightarrow> Inr (rest, st))"
proof (induction chunks arbitrary: buffer cmds st)
  case (Cons c chunks)
  obtain cs r e where d: "drain (buffer @ c) = (cs, r, e)" by (metis prod_cases3)
  with Cons.prems have e: "e = None" by (cases e) auto
  obtain cs' r' e' where f: "feed_chunks r chunks = (cs', r', e')" by (metis prod_cases3)
  with Cons.prems d e have "cmds = cs @ cs'" "r' = rest" "e' = None" by auto
  with Cons.IH [of r cs'] f replay_drain_eq [of "buffer @ c" cs r path envs st] d e show ?case
    by (simp add: replay_commands_append split: sum.split)
qed simp

lemma concat_file_chunks [simp]: "concat (file_chunks b) = b"
  by (induction b rule: file_chunks.induct) (subst file_chunks.simps, simp)

section \<open>Properties\<close>

text \<open>C15: Appending a command to the log: whatever the partial and interrupted writes, the
  bytes added to the open file are the whole encoded command when the call succeeds, and a
  prefix of it when it throws; no other file changes. With \<open>appendfsync always\<close> a
  successful append has been synced in full before it returns. The call returns as soon as
  more system calls were answered than the command has bytes.\<close>

theorem append_command_logs_all_or_prefix:
  assumes "aof_fd aof = Some path"
    and "length (to_bytes (Array args)) < length (filter (\<lambda>r. r \<noteq> Interrupted) (outcomes calls))"
  shows "\<exists>d' aof' r w l. append_command calls args d aof = Some (d', aof', r)
     \<and> to_bytes (Array args) = w @ l \<and> contents d' path = contents d path @ w \<and> (r = Inr () \<longrightarrow> l = [])
     \<and> (\<forall>p. p \<noteq> path \<longrightarrow> hget d' p = hget d p)
     \<and> (r = Inr () \<and> aof_fsync aof = ''always'' \<longrightarrow> \<not> aof_dirty aof' \<and> synced aof' = length (contents d' path))"
proof -
  obtain d' aof' r where a: "append_command calls args d aof = Some (d', aof', r)"
    using aof_write_ends [OF assms(2), of path d aof] assms(1) by (auto simp: append_command_def)
  then have "aof_write calls path (to_bytes (Array args)) d aof = Some (d', aof', r)"
    using assms(1) by (simp add: append_command_def)
  from aof_write_cases [OF assms(1) this] a show ?thesis by (auto simp: clean_def)
qed

theorem append_command_logs_all_or_prefix_witness:
  "\<exists>d' aof' r w l. append_command \<lparr>outcomes = replicate 30 (Done 5), now_checked = 0, now_synced = 1\<rparr> [''PING''] []
       (new_Aof\<lparr>aof_fd := Some ''log'', aof_fsync := ''always''\<rparr>) = Some (d', aof', r)
     \<and> to_bytes (Array [''PING'']) = w @ l \<and> contents d' ''log'' = contents [] ''log'' @ w \<and> (r = Inr () \<longrightarrow> l = [])"
  using append_command_logs_all_or_prefix [of "new_Aof\<lparr>aof_fd := Some ''log'', aof_fsync := ''always''\<rparr>" "''log''"
      "[''PING'']" "\<lparr>outcomes = replicate 30 (Done 5), now_checked = 0, now_synced = 1\<rparr>" "[]"]
  by (force simp: to_bytes.simps bulk_bytes_def crlf_def to_string_nat.simps)

text \<open>C16: The \<open>everysec\<close> policy loses at most about a second: while bytes are unsynced, the
  timeout \<open>poll\<close> gets is at most one millisecond longer than what is left of the second
  since the last sync, and a check made once that timeout has elapsed calls \<open>fsync\<close>, after
  which, unless it throws, everything in the file is synced.\<close>

theorem everysec_syncs_after_timeout:
  assumes "aof_fsync aof = ''everysec''" "aof_dirty aof" "aof_fd aof = Some path"
    and "now + sync_timeout_ms now aof * 1000000 \<le> now_checked calls"
    and "sync_if_due calls d aof = Some (aof', Inr ())"
  shows "0 \<le> sync_timeout_ms now aof
     \<and> sync_timeout_ms now aof * 1000000 < max 0 (last_sync aof + second - now) + 1000000
     \<and> \<not> aof_dirty aof' \<and> synced aof' = length (contents d path) \<and> last_sync aof' = now_synced calls"
proof -
  define left where "left = last_sync aof + second - now"
  define t where "t = - ((- left) div 1000000)"
  have t: "left \<le> t * 1000000" "t * 1000000 < left + 1000000" unfolding t_def by linarith+
  have timeout: "sync_timeout_ms now aof = max 0 t"
    using assms(1,2) by (simp add: sync_timeout_ms_def t_def left_def Let_def)
  have "\<not> now_checked calls - last_sync aof < second"
    using assms(4) t(1) unfolding timeout left_def by (auto simp: max_def split: if_splits)
  moreover have "aof_fsync aof \<noteq> ''no''" using assms(1) by simp
  ultimately have "\<not> aof_dirty aof' \<and> synced aof' = length (contents d path) \<and> last_sync aof' = now_synced calls"
    using assms by (auto simp: sync_if_due_def split: option.splits sum.splits)
  moreover have "0 \<le> max 0 t \<and> max 0 t * 1000000 < max 0 left + 1000000"
    using t by (auto simp: max_def)
  ultimately show ?thesis unfolding timeout left_def by blast
qed

theorem everysec_syncs_after_timeout_witness:
  "sync_timeout_ms 700000001 (new_Aof\<lparr>aof_fsync := ''everysec'', aof_dirty := True, aof_fd := Some ''log''\<rparr>) = 300
   \<and> 0 \<le> sync_timeout_ms 700000001 (new_Aof\<lparr>aof_fsync := ''everysec'', aof_dirty := True, aof_fd := Some ''log''\<rparr>)"
  using everysec_syncs_after_timeout [of "new_Aof\<lparr>aof_fsync := ''everysec'', aof_dirty := True, aof_fd := Some ''log''\<rparr>"
      "''log''" 700000001 "\<lparr>outcomes = [Interrupted, Done 0], now_checked = 1000000001, now_synced = 1000000002\<rparr>" "[]"
      "new_Aof\<lparr>aof_fsync := ''everysec'', aof_dirty := False, aof_fd := Some ''log'', last_sync := 1000000002\<rparr>"]
  by (simp add: sync_timeout_ms_def sync_if_due_def second_def new_Aof_def contents_def hget_def)

lemma replay_file_commands:
  assumes "hget d path = Some (concat (map (\<lambda>args. to_bytes (Array args)) cmds) @ p)"
    and "strict_prefix p (to_bytes (Array torn))"
    and "\<forall>args \<in> set (torn # cmds). length args \<le> vector_max_size"
    and "length (concat (map (\<lambda>args. to_bytes (Array args)) (cmds @ [torn]))) < u64_modulus"
  shows "replay_file envs d path st =
     (case replay_commands path envs cmds st of
        Inl e \<Rightarrow> Inl e
      | Inr (n, s, client) \<Rightarrow>
          if p \<noteq> [] \<or> in_multi client then Inl (RuntimeError (''Incomplete AOF: '' @ path))
          else Inr (n, s, client))"
proof -
  let ?file = "concat (map (\<lambda>args. to_bytes (Array args)) cmds) @ p"
  have "feed_chunks [] (file_chunks ?file) = (cmds, p, None)"
    using assms(2-4) by (intro resp_framing.feed_torn [of cmds torn]) simp_all
  from replay_chunks_eq [OF this] show ?thesis
    using assms(1) by (simp add: replay_file_def split: sum.split)
qed

text \<open>C8: Replaying a log file runs exactly the commands logged in it, in order, whatever the
  4096-byte reads cut apart, and stops with the error of the first one that fails. A last
  command that was only partly written (a crash during the append) is never run: the file
  is reported as incomplete, as is one that ends inside a transaction.\<close>

theorem replay_file_runs_logged_commands:
  assumes "hget d path = Some (concat (map (\<lambda>args. to_bytes (Array args)) cmds) @ p)"
    and "strict_prefix p (to_bytes (Array torn))"
    and "\<forall>args \<in> set (torn # cmds). length args \<le> vector_max_size"
    and "length (concat (map (\<lambda>args. to_bytes (Array args)) (cmds @ [torn]))) < u64_modulus"
  shows "replay_file envs d path st =
     (case replay_commands path envs cmds st of
        Inl e \<Rightarrow> Inl e
      | Inr (n, s, client) \<Rightarrow>
          if p \<noteq> [] \<or> in_multi client then Inl (RuntimeError (''Incomplete AOF: '' @ path))
          else Inr (n, s, client))"
  using assms by (rule replay_file_commands)

theorem replay_file_runs_logged_commands_witness:
  "replay_file (\<lambda>_. sample_env) [(''log'', to_bytes (Array [''PING'']) @ ''*1'')] ''log'' (0, new_store, replay_client)
     = (case replay_commands ''log'' (\<lambda>_. sample_env) [[''PING'']] (0, new_store, replay_client) of
          Inl e \<Rightarrow> Inl e
        | Inr (n, s, client) \<Rightarrow> Inl (RuntimeError (''Incomplete AOF: log'')))"
proof -
  have "strict_prefix ''*1'' (to_bytes (Array [''EXEC'']))"
    by code_simp
  moreover have "length (concat (map (\<lambda>args. to_bytes (Array args)) ([[''PING'']] @ [[''EXEC'']]))) < u64_modulus"
    by (simp add: to_bytes.simps bulk_bytes_def to_string_nat.simps u64_modulus_def)
  ultimately show ?thesis
    using replay_file_runs_logged_commands [of "[(''log'', to_bytes (Array [''PING'']) @ ''*1'')]" "''log''"
        "[[''PING'']]" "''*1''" "[''EXEC'']" "\<lambda>_. sample_env" "(0, new_store, replay_client)"]
    by (simp add: hget_def vector_max_size_def split: sum.split)
qed

text \<open>Queueing the commands of a logged transaction, one by one.\<close>

definition steering :: "string list" where
  "steering = [''QUIT'', ''RESET'', ''MULTI'', ''WATCH'', ''UNWATCH'', ''DISCARD'', ''EXEC'']"

definition queueable :: "args \<Rightarrow> bool" where
  "queueable args \<longleftrightarrow> args \<noteq> [] \<and> \<not> List.member steering (to_upper (args ! 0))"

lemma status_not_error [simp]:
  "\<not> is_error_reply ok_reply" "\<not> is_error_reply (to_bytes (SimpleString t))"
  by (simp_all add: is_error_reply_def ok_reply_def to_bytes.simps)

text \<open>The state a replay starts a command in: nothing pending, a client with full rights.\<close>

definition replay_ready :: "store \<Rightarrow> ClientState \<Rightarrow> bool" where
  "replay_ready s client \<longleftrightarrow> pending_block s = None \<and> pending_propagations s = []
     \<and> authenticated client \<and> subscriptions client = []"

lemma take_nothing [simp]:
  "pending_block s = None \<Longrightarrow> s\<lparr>pending_block := None\<rparr> = s"
  "pending_propagations s = [] \<Longrightarrow> s\<lparr>pending_propagations := []\<rparr> = s"
  by simp_all

lemma replay_queues:
  assumes "list_all queueable cmds" "replay_ready s client" "in_multi client"
  shows "replay_commands path envs cmds (n, s, client)
     = Inr (n + length cmds, s, client\<lparr>queued := queued client @ cmds\<rparr>)"
  using assms
proof (induction cmds arbitrary: n client)
  case (Cons args cmds)
  have "handle_command (envs n) args s client
      = (s, client\<lparr>queued := queued client @ [args]\<rparr>, Inr (to_bytes (SimpleString ''QUEUED'')))"
    using Cons.prems by (simp add: queueable_def steering_def replay_ready_def handle_command_def)
  then have step: "replay_step path envs args (n, s, client)
      = Inr (Suc n, s, client\<lparr>queued := queued client @ [args]\<rparr>)"
    using Cons.prems(2) by (simp add: replay_step_def take_pending_block_def take_pending_propagations_def replay_ready_def)
  show ?case
    using Cons.prems Cons.IH [of "client\<lparr>queued := queued client @ [args]\<rparr>" "Suc n"]
    by (simp add: step replay_ready_def)
qed simp

lemma exec_commands_no_block:
  "pending_block s = None \<Longrightarrow> exec_commands env cmds s client reply = (s', client', Inr r) \<Longrightarrow> pending_block s' = None"
proof (induction cmds arbitrary: s client reply)
  case (Cons args cmds)
  obtain s1 c1 result where d: "dispatch_command env args s client = (s1, c1, Inr result)"
    using Cons.prems(2) by (auto split: prod.splits sum.splits)
  then obtain t reply' where "pending_block t = None" "exec_commands env cmds t c1 reply' = (s', client', Inr r)"
    using Cons.prems(2) that [of "s1\<lparr>pending_block := None\<rparr>"]
      that [of "queue_propagation args (s1\<lparr>pending_block := None\<rparr>)"]
    by (simp add: take_pending_block_def queue_propagation_def Let_def split: if_splits)
  then show ?case by (rule Cons.IH)
qed simp

text \<open>A transaction written to the log by \<open>append_transaction\<close> is replayed as one
  transaction: the commands run the way \<open>EXEC\<close> ran them, all at the environment of the
  logged \<open>EXEC\<close>, and leave nothing pending.\<close>

lemma replay_transaction:
  assumes "list_all queueable cmds" "replay_ready s client"
    and "\<not> in_multi client" "queued client = []" "watched client = []"
  shows "replay_commands path envs ([''MULTI''] # cmds @ [[''EXEC'']]) (n, s, client) =
     (case exec_commands (envs (n + length cmds + 1)) cmds s client (''*'' @ to_string_nat (length cmds) @ crlf) of
        (s, client, Inl e) \<Rightarrow> Inl e
      | (s, client, Inr reply) \<Rightarrow> Inr (n + length cmds + 2, s\<lparr>pending_propagations := []\<rparr>, client))"
proof -
  let ?m = "client\<lparr>in_multi := True\<rparr>"
  let ?q = "?m\<lparr>queued := cmds\<rparr>"
  let ?env = "envs (n + length cmds + 1)" and ?head = "''*'' @ to_string_nat (length cmds) @ crlf"
  have up: "to_upper ''MULTI'' = ''MULTI''" "to_upper ''EXEC'' = ''EXEC''" by code_simp+
  have multi: "replay_step path envs [''MULTI''] (n, s, client) = Inr (Suc n, s, ?m)"
    using assms(2,3) by (simp add: replay_step_def handle_command_def handle_multi_def up replay_ready_def
        take_pending_block_def take_pending_propagations_def)
  have queue: "replay_commands path envs cmds (Suc n, s, ?m) = Inr (Suc n + length cmds, s, ?q)"
    using replay_queues [OF assms(1), of s ?m path envs "Suc n"] assms(2,4) by (simp add: replay_ready_def)
  have reset: "reset_transaction ?q = client" using assms(3-5) by (simp add: reset_transaction_def)
  have exec: "handle_command ?env [''EXEC''] s ?q = exec_commands ?env cmds s client ?head"
    using assms(2,5) reset by (simp add: handle_command_def handle_exec_def up replay_ready_def)
  obtain s' client' r where e: "exec_commands ?env cmds s client ?head = (s', client', r)" by (metis prod_cases3)
  have "replay_step path envs [''EXEC''] (Suc n + length cmds, s, ?q) =
      (case r of Inl e \<Rightarrow> Inl e | Inr reply \<Rightarrow> Inr (n + length cmds + 2, s'\<lparr>pending_propagations := []\<rparr>, client'))"
  proof (cases r)
    case (Inl x)
    with e exec show ?thesis by (simp add: replay_step_def)
  next
    case (Inr reply)
    with e have "pending_block s' = None" using exec_commands_no_block assms(2) replay_ready_def by blast
    moreover have "\<not> is_error_reply reply"
      using exec_commands_replies [of ?env cmds s client ?head s' client' reply] e Inr
      by (auto simp: is_error_reply_def)
    ultimately show ?thesis
      using e exec Inr by (simp add: replay_step_def take_pending_block_def take_pending_propagations_def)
  qed
  with multi queue e show ?thesis by (simp add: replay_commands_append split: sum.split)
qed

end
