(* ===== verification/Net.thy ===== *)
theory Net
  imports Resp
begin

text \<open>
  The socket helpers of \<open>src/src/net/socket.cpp\<close>. The results of the system calls are an
  input list, consumed in order. \<open>send_all\<close> yields the bytes that went out and whether all
  did. It waits at most one second for a socket to become writable, so it always returns;
  a list that is exhausted stands for a socket that stays unwritable.
\<close>

section \<open>Sending\<close>

text \<open>One \<open>send\<close>: bytes taken, interrupted, would block (with the answer of the \<open>poll\<close> for
  writability that follows), or any other failure.\<close>

datatype send_result = Sent nat | SendInterrupted | WouldBlock bool | SendFailed

fun send_all :: "send_result list \<Rightarrow> bytes \<Rightarrow> bytes \<times> bool" where
  "send_all rs [] = ([], True)"
| "send_all [] (b # payload) = ([], False)"
| "send_all (Sent n # rs) (b # payload) =
     (if n = 0 then ([], False)
      else case send_all rs (drop n (b # payload)) of (out, ok) \<Rightarrow> (take n (b # payload) @ out, ok))"
| "send_all (SendInterrupted # rs) (b # payload) = send_all rs (b # payload)"
| "send_all (WouldBlock writable # rs) (b # payload) =
     (if writable then send_all rs (b # payload) else ([], False))"
| "send_all (SendFailed # rs) (b # payload) = ([], False)"

text \<open>Success means that exactly the payload went out; failure, that a proper prefix did.\<close>

lemma send_all_prefix:
  "send_all rs payload = (out, ok) \<Longrightarrow> \<exists>left. payload = out @ left \<and> (ok \<longleftrightarrow> left = [])"
proof (induction rs payload arbitrary: out rule: send_all.induct)
  case (3 n rs b payload)
  show ?case
  proof (cases "n = 0")
    case False
    with 3(2) obtain out' where o: "send_all rs (drop n (b # payload)) = (out', ok)"
        "out = take n (b # payload) @ out'"
      by (auto split: prod.splits)
    with 3(1) [OF False o(1)] obtain left where "drop n (b # payload) = out' @ left" "ok \<longleftrightarrow> left = []" by blast
    moreover from this(1) have "b # payload = out @ left"
      using append_take_drop_id [of n "b # payload"] o(2) by simp
    ultimately show ?thesis by blast
  qed (use 3 in auto)
qed (auto split: if_splits)

lemma send_all_ok: "send_all rs payload = (out, True) \<Longrightarrow> out = payload"
  using send_all_prefix [of rs payload out True] by auto

section \<open>Reading a line\<close>

text \<open>\<open>read_line\<close> takes the incoming bytes one at a time, through the first line end or until
  the connection ends or fails; the rest stays in the socket.\<close>

fun read_line_loop :: "bytes \<Rightarrow> bytes \<Rightarrow> bytes \<times> bytes" where
  "read_line_loop line [] = (line, [])"
| "read_line_loop line (ch # input) =
     (let line = line @ [ch]
      in if 2 \<le> length line \<and> line ! (length line - 2) = CR \<and> line ! (length line - 1) = LF
         then (line, input) else read_line_loop line input)"

definition read_line :: "bytes \<Rightarrow> bytes \<times> bytes" where
  "read_line input = read_line_loop [] input"

lemma read_line_loop_takes:
  "line' = line @ t @ crlf \<Longrightarrow> CR \<notin> set t \<Longrightarrow> (line = [] \<or> last line \<noteq> CR) \<Longrightarrow>
     read_line_loop line (t @ crlf @ rest) = (line', rest)"
proof (induction t arbitrary: line)
  case Nil
  then show ?case by (auto simp: crlf_def nth_append Let_def last_conv_nth)
next
  case (Cons c t)
  then have "read_line_loop (line @ [c]) (t @ crlf @ rest) = (line', rest)"
    by (intro Cons.IH) auto
  moreover have "\<not> (2 \<le> length (line @ [c]) \<and> (line @ [c]) ! (length (line @ [c]) - 2) = CR
      \<and> (line @ [c]) ! (length (line @ [c]) - 1) = LF)"
    using Cons.prems(3) by (cases "line = []") (auto simp: nth_append last_conv_nth)
  ultimately show ?case by (auto simp: Let_def)
qed

text \<open>A line without carriage returns is read up to its end.\<close>

lemma read_line_takes: "CR \<notin> set t \<Longrightarrow> read_line (t @ crlf @ rest) = (t @ crlf, rest)"
  by (simp add: read_line_def read_line_loop_takes)

end
