(* ===== verification/Rdb.thy ===== *)
theory Rdb
  imports Keyspace Replication
begin

text \<open>
  The RDB loader of \<open>src/src/rdb/rdb.cpp\<close>. The reader's state (\<open>data_\<close> from \<open>pos_\<close> on) is
  the list of bytes still to be read; every read is a result, because running out of bytes
  throws. Unsigned values read are natural numbers: at most eight bytes are combined, so
  shifting and or-ing them in is addition below \<open>2 ^ 64\<close>.
\<close>

section \<open>The reader\<close>

definition rdb_eof :: exn where
  "rdb_eof = RuntimeError ''unexpected end of RDB file''"

fun rdb_byte :: "string \<Rightarrow> (nat \<times> string) res" where
  "rdb_byte [] = Inl rdb_eof"
| "rdb_byte (c # rest) = Inr (of_char c, rest)"

text \<open>\<open>little_endian(width)\<close> from digit \<open>i\<close> on, with the value collected so far.\<close>

fun rdb_little_endian :: "nat \<Rightarrow> nat \<Rightarrow> nat \<Rightarrow> string \<Rightarrow> (nat \<times> string) res" where
  "rdb_little_endian i 0 v input = Inr (v, input)"
| "rdb_little_endian i (Suc n) v input =
     (case rdb_byte input of
        Inl e \<Rightarrow> Inl e
      | Inr (b, rest) \<Rightarrow> rdb_little_endian (Suc i) n (v + b * 2 ^ (8 * i)) rest)"

fun rdb_big_endian :: "nat \<Rightarrow> nat \<Rightarrow> string \<Rightarrow> (nat \<times> string) res" where
  "rdb_big_endian 0 v input = Inr (v, input)"
| "rdb_big_endian (Suc n) v input =
     (case rdb_byte input of
        Inl e \<Rightarrow> Inl e
      | Inr (b, rest) \<Rightarrow> rdb_big_endian n (v * 256 + b) rest)"

definition rdb_bytes :: "nat \<Rightarrow> string \<Rightarrow> (string \<times> string) res" where
  "rdb_bytes n input = (if length input < n then Inl rdb_eof else Inr (take n input, drop n input))"

definition rdb_length :: "string \<Rightarrow> (nat \<times> string) res" where
  "rdb_length input =
     (case rdb_byte input of
        Inl e \<Rightarrow> Inl e
      | Inr (first, rest) \<Rightarrow>
          if first div 64 = 0 then Inr (first mod 64, rest)
          else if first div 64 = 1 then
            (case rdb_byte rest of Inl e \<Rightarrow> Inl e | Inr (b, rest) \<Rightarrow> Inr ((first mod 64) * 256 + b, rest))
          else if first = 0x80 then rdb_big_endian 4 0 rest
          else if first = 0x81 then rdb_big_endian 8 0 rest
          else Inl (RuntimeError ''invalid RDB length encoding''))"

text \<open>A value of \<open>bits\<close> bits read as two's complement.\<close>

definition as_signed :: "nat \<Rightarrow> nat \<Rightarrow> int" where
  "as_signed bits v = (if 2 ^ (bits - 1) \<le> v then int v - 2 ^ bits else int v)"

definition rdb_string :: "string \<Rightarrow> (string \<times> string) res" where
  "rdb_string input =
     (case rdb_byte input of
        Inl e \<Rightarrow> Inl e
      | Inr (first, rest) \<Rightarrow>
          if first div 64 \<noteq> 3 then
            (case rdb_length input of Inl e \<Rightarrow> Inl e | Inr (n, rest) \<Rightarrow> rdb_bytes n rest)
          else if first = 0xC0 then
            (case rdb_byte rest of Inl e \<Rightarrow> Inl e | Inr (b, rest) \<Rightarrow> Inr (to_string_int (as_signed 8 b), rest))
          else if first = 0xC1 then
            (case rdb_little_endian 0 2 0 rest of
               Inl e \<Rightarrow> Inl e | Inr (v, rest) \<Rightarrow> Inr (to_string_int (as_signed 16 v), rest))
          else if first = 0xC2 then
            (case rdb_little_endian 0 4 0 rest of
               Inl e \<Rightarrow> Inl e | Inr (v, rest) \<Rightarrow> Inr (to_string_int (as_signed 32 v), rest))
          else Inl (RuntimeError ''unsupported RDB string encoding''))"

section \<open>Reads consume input\<close>

lemma rdb_byte_less: "rdb_byte input = Inr (b, rest) \<Longrightarrow> length rest < length input"
  by (cases input) auto

lemma rdb_little_endian_le: "rdb_little_endian i n v input = Inr (w, rest) \<Longrightarrow> length rest \<le> length input"
  by (induction i n v input rule: rdb_little_endian.induct) (fastforce dest: rdb_byte_less split: sum.splits)+

lemma rdb_big_endian_le: "rdb_big_endian n v input = Inr (w, rest) \<Longrightarrow> length rest \<le> length input"
  by (induction n v input rule: rdb_big_endian.induct) (fastforce dest: rdb_byte_less split: sum.splits)+

lemma rdb_bytes_le: "rdb_bytes n input = Inr (w, rest) \<Longrightarrow> length rest \<le> length input"
  by (auto simp: rdb_bytes_def split: if_splits)

lemma rdb_length_le: "rdb_length input = Inr (n, rest) \<Longrightarrow> length rest \<le> length input"
  by (fastforce simp: rdb_length_def dest: rdb_byte_less rdb_big_endian_le split: sum.splits if_splits prod.splits)

lemma rdb_string_le: "rdb_string input = Inr (t, rest) \<Longrightarrow> length rest \<le> length input"
  by (fastforce simp: rdb_string_def dest: rdb_byte_less rdb_little_endian_le rdb_bytes_le rdb_length_le
      split: sum.splits if_splits prod.splits)

section \<open>The loader\<close>

text \<open>
  The loop over opcodes, with the expiry read for the next entry and the entries so far.
  Every round reads at least its opcode.
\<close>

function rdb_loop :: "64 word option \<Rightarrow> RdbEntry list \<Rightarrow> string \<Rightarrow> RdbEntry list res" where
  "rdb_loop expire es [] = Inr es"
| "rdb_loop expire es (c # rest) =
     (let opcode = (of_char c :: nat)
      in if opcode = 0xFA then
           (case rdb_string rest of
              Inl e \<Rightarrow> Inl e
            | Inr (_, rest) \<Rightarrow> (case rdb_string rest of Inl e \<Rightarrow> Inl e | Inr (_, rest) \<Rightarrow> rdb_loop expire es rest))
         else if opcode = 0xFE then
           (case rdb_length rest of Inl e \<Rightarrow> Inl e | Inr (_, rest) \<Rightarrow> rdb_loop expire es rest)
         else if opcode = 0xFB then
           (case rdb_length rest of
              Inl e \<Rightarrow> Inl e
            | Inr (_, rest) \<Rightarrow> (case rdb_length rest of Inl e \<Rightarrow> Inl e | Inr (_, rest) \<Rightarrow> rdb_loop expire es rest))
         else if opcode = 0xFC then
           (case rdb_little_endian 0 8 0 rest of
              Inl e \<Rightarrow> Inl e | Inr (v, rest) \<Rightarrow> rdb_loop (Some (of_nat v)) es rest)
         else if opcode = 0xFD then
           (case rdb_little_endian 0 4 0 rest of
              Inl e \<Rightarrow> Inl e | Inr (v, rest) \<Rightarrow> rdb_loop (Some (of_nat (v * 1000))) es rest)
         else if opcode = 0 then
           (case rdb_string rest of
              Inl e \<Rightarrow> Inl e
            | Inr (key, rest) \<Rightarrow>
                (case rdb_string rest of
                   Inl e \<Rightarrow> Inl e
                 | Inr (text, rest) \<Rightarrow>
                     rdb_loop None (es @ [\<lparr>re_key = key, re_value = text, re_expire_at_ms = expire\<rparr>]) rest))
         else if opcode = 0xFF then Inr es
         else Inl (RuntimeError ''unsupported RDB opcode''))"
  by pat_completeness auto

termination
  by (relation "measure (\<lambda>(_, _, input). length input)")
    (auto dest!: rdb_string_le rdb_length_le rdb_little_endian_le)

text \<open>The file's bytes, or \<open>None\<close> when it cannot be opened.\<close>

definition load_rdb :: "string option \<Rightarrow> RdbEntry list res" where
  "load_rdb file =
     (case file of
        None \<Rightarrow> Inr []
      | Some data \<Rightarrow>
          (case rdb_bytes 9 data of
             Inl e \<Rightarrow> Inl e
           | Inr (magic, rest) \<Rightarrow>
               if take 5 magic \<noteq> ''REDIS'' then Inl (RuntimeError ''missing REDIS header'')
               else rdb_loop None [] rest))"

section \<open>The file format\<close>

text \<open>
  The files the loader documents, as a writer would print them: a string is raw bytes after
  its length in any of the four length encodings, or a number of 8, 16 or 32 bits; a file is a
  sequence of auxiliary fields, database selections, size hints, expiries in milliseconds or
  seconds for the entry that follows, and string entries.
\<close>

fun le_bytes :: "nat \<Rightarrow> nat \<Rightarrow> string" where
  "le_bytes 0 n = []"
| "le_bytes (Suc k) n = char_of (n mod 256) # le_bytes k (n div 256)"

definition be_bytes :: "nat \<Rightarrow> nat \<Rightarrow> string" where
  "be_bytes k n = rev (le_bytes k n)"

datatype rdb_width = Six | Fourteen | ThirtyTwo | SixtyFour

fun width_bits :: "rdb_width \<Rightarrow> nat" where
  "width_bits Six = 6"
| "width_bits Fourteen = 14"
| "width_bits ThirtyTwo = 32"
| "width_bits SixtyFour = 64"

fun put_length :: "rdb_width \<Rightarrow> nat \<Rightarrow> string" where
  "put_length Six n = [char_of n]"
| "put_length Fourteen n = [char_of (64 + n div 256), char_of (n mod 256)]"
| "put_length ThirtyTwo n = CHR 0x80 # be_bytes 4 n"
| "put_length SixtyFour n = CHR 0x81 # be_bytes 8 n"

datatype rdb_text = Raw rdb_width string | Int8 int | Int16 int | Int32 int

fun put_text :: "rdb_text \<Rightarrow> string" where
  "put_text (Raw w t) = put_length w (length t) @ t"
| "put_text (Int8 v) = CHR 0xC0 # le_bytes 1 (nat (v mod 2 ^ 8))"
| "put_text (Int16 v) = CHR 0xC1 # le_bytes 2 (nat (v mod 2 ^ 16))"
| "put_text (Int32 v) = CHR 0xC2 # le_bytes 4 (nat (v mod 2 ^ 32))"

fun text_of :: "rdb_text \<Rightarrow> string" where
  "text_of (Raw w t) = t"
| "text_of (Int8 v) = to_string_int v"
| "text_of (Int16 v) = to_string_int v"
| "text_of (Int32 v) = to_string_int v"

fun text_ok :: "rdb_text \<Rightarrow> bool" where
  "text_ok (Raw w t) \<longleftrightarrow> length t < 2 ^ width_bits w"
| "text_ok (Int8 v) \<longleftrightarrow> - (2 ^ 7) \<le> v \<and> v < 2 ^ 7"
| "text_ok (Int16 v) \<longleftrightarrow> - (2 ^ 15) \<le> v \<and> v < 2 ^ 15"
| "text_ok (Int32 v) \<longleftrightarrow> - (2 ^ 31) \<le> v \<and> v < 2 ^ 31"

datatype rdb_item =
    Aux rdb_text rdb_text
  | SelectDb rdb_width nat
  | ResizeDb rdb_width nat rdb_width nat
  | ExpireMs "64 word"
  | ExpireSeconds "32 word"
  | StringEntry rdb_text rdb_text

fun put_item :: "rdb_item \<Rightarrow> string" where
  "put_item (Aux k v) = CHR 0xFA # put_text k @ put_text v"
| "put_item (SelectDb w n) = CHR 0xFE # put_length w n"
| "put_item (ResizeDb w n w' n') = CHR 0xFB # put_length w n @ put_length w' n'"
| "put_item (ExpireMs t) = CHR 0xFC # le_bytes 8 (unat t)"
| "put_item (ExpireSeconds t) = CHR 0xFD # le_bytes 4 (unat t)"
| "put_item (StringEntry k v) = CHR 0x00 # put_text k @ put_text v"

fun item_ok :: "rdb_item \<Rightarrow> bool" where
  "item_ok (Aux k v) \<longleftrightarrow> text_ok k \<and> text_ok v"
| "item_ok (SelectDb w n) \<longleftrightarrow> n < 2 ^ width_bits w"
| "item_ok (ResizeDb w n w' n') \<longleftrightarrow> n < 2 ^ width_bits w \<and> n' < 2 ^ width_bits w'"
| "item_ok (ExpireMs t) \<longleftrightarrow> True"
| "item_ok (ExpireSeconds t) \<longleftrightarrow> True"
| "item_ok (StringEntry k v) \<longleftrightarrow> text_ok k \<and> text_ok v"

text \<open>What the items stand for: the entries, each with the last expiry given before it.\<close>

fun entries_of :: "64 word option \<Rightarrow> rdb_item list \<Rightarrow> RdbEntry list" where
  "entries_of expire [] = []"
| "entries_of expire (ExpireMs t # items) = entries_of (Some t) items"
| "entries_of expire (ExpireSeconds t # items) = entries_of (Some (of_nat (unat t * 1000))) items"
| "entries_of expire (StringEntry k v # items) =
     \<lparr>re_key = text_of k, re_value = text_of v, re_expire_at_ms = expire\<rparr> # entries_of None items"
| "entries_of expire (_ # items) = entries_of expire items"

lemma length_le_bytes [simp]: "length (le_bytes k n) = k"
  by (induction k arbitrary: n) simp_all

lemma rdb_little_endian_le_bytes:
  "rdb_little_endian i k v (le_bytes k n @ rest) = Inr (v + (n mod 256 ^ k) * 2 ^ (8 * i), rest)"
proof (induction k arbitrary: i v n)
  case (Suc k)
  have "n mod 256 ^ Suc k = n mod 256 + 256 * (n div 256 mod 256 ^ k)"
    by (simp add: mod_mult2_eq)
  then have "n mod 256 * 2 ^ (8 * i) + (n div 256 mod 256 ^ k) * 2 ^ (8 * Suc i) = (n mod 256 ^ Suc k) * 2 ^ (8 * i)"
    by (simp add: algebra_simps power_add)
  then show ?case using Suc by (simp add: add.assoc)
qed simp

lemma rdb_big_endian_val:
  "rdb_big_endian (length s) v (s @ rest) = Inr (v * 256 ^ length s + be_val s, rest)"
  by (induction s arbitrary: v) (simp_all add: algebra_simps)

lemma be_val_be_bytes: "be_val (be_bytes k n) = n mod 256 ^ k"
proof (induction k arbitrary: n)
  case (Suc k)
  have "n mod 256 ^ Suc k = n mod 256 + 256 * (n div 256 mod 256 ^ k)"
    by (simp add: mod_mult2_eq)
  with Suc show ?case by (simp add: be_bytes_def)
qed (simp add: be_bytes_def)

lemma rdb_big_endian_be_bytes: "n < 256 ^ k \<Longrightarrow> rdb_big_endian k 0 (be_bytes k n @ rest) = Inr (n, rest)"
  using rdb_big_endian_val [of "be_bytes k n" 0 rest] by (simp add: be_val_be_bytes) (simp add: be_bytes_def)

lemma rdb_length_put:
  assumes "n < 2 ^ width_bits w"
  shows "rdb_length (put_length w n @ rest) = Inr (n, rest)"
proof (cases w)
  case Fourteen
  then have "(64 + n div 256) mod 256 = 64 + n div 256" "(64 + n div 256) div 64 = 1" "(64 + n div 256) mod 64 = n div 256"
    using assms by auto
  with Fourteen show ?thesis by (simp add: rdb_length_def)
qed (use assms rdb_big_endian_be_bytes [of n 4 rest] rdb_big_endian_be_bytes [of n 8 rest] in \<open>auto simp: rdb_length_def\<close>)

lemma put_length_first:
  assumes "n < 2 ^ width_bits w"
  obtains c cs where "put_length w n = c # cs" "of_char c div 64 \<noteq> (3 :: nat)"
proof (cases w)
  case Fourteen
  then have "(64 + n div 256) mod 256 = 64 + n div 256" using assms by auto
  with Fourteen assms that show thesis by auto
qed (use assms that in auto)

lemma as_signed_mod:
  assumes "0 < bits" "- (2 ^ (bits - 1)) \<le> v" "v < 2 ^ (bits - 1)"
  shows "as_signed bits (nat (v mod 2 ^ bits)) = v"
proof -
  obtain m where bits: "bits = Suc m" using assms(1) by (cases bits) auto
  have signed: "as_signed bits (nat y) = (if 2 ^ (bits - 1) \<le> y then y - 2 ^ bits else y)" if "0 \<le> y" for y
    using that by (simp add: as_signed_def le_nat_iff)
  show ?thesis
  proof (cases "0 \<le> v")
    case True
    then have "v mod 2 ^ bits = v" using assms(3) bits by simp
    with True assms(3) show ?thesis by (simp add: signed)
  next
    case False
    have "v mod 2 ^ bits = v + 2 ^ bits"
      using False assms(2) bits by (intro mod_pos_pos_trivial [of "v + 2 ^ bits" "2 ^ bits", simplified]) auto
    with False assms(2) bits signed [of "v + 2 ^ bits"] show ?thesis by simp
  qed
qed

lemma rdb_little_endian_int:
  "rdb_little_endian 0 k 0 (le_bytes k (nat (v mod 2 ^ (8 * k))) @ rest) = Inr (nat (v mod 2 ^ (8 * k)), rest)"
proof -
  have "nat (v mod 2 ^ (8 * k)) < 256 ^ k"
    using pos_mod_bound [of "2 ^ (8 * k)" v] by (simp add: nat_less_iff power_mult)
  then show ?thesis by (simp add: rdb_little_endian_le_bytes)
qed

lemma rdb_string_put:
  assumes "text_ok x"
  shows "rdb_string (put_text x @ rest) = Inr (text_of x, rest)"
proof (cases x)
  case (Raw w t)
  then have n: "length t < 2 ^ width_bits w" using assms by simp
  obtain c cs where "put_length w (length t) = c # cs" "of_char c div 64 \<noteq> (3 :: nat)" using put_length_first [OF n] .
  with Raw rdb_length_put [OF n, of "t @ rest"] show ?thesis by (simp add: rdb_string_def rdb_bytes_def)
next
  case (Int8 v)
  with assms as_signed_mod [of 8 v] rdb_little_endian_int [of 1 v rest] show ?thesis
    by (simp add: rdb_string_def split: sum.splits)
next
  case (Int16 v)
  with assms as_signed_mod [of 16 v] rdb_little_endian_int [of 2 v rest] show ?thesis by (simp add: rdb_string_def)
next
  case (Int32 v)
  with assms as_signed_mod [of 32 v] rdb_little_endian_int [of 4 v rest] show ?thesis by (simp add: rdb_string_def)
qed

lemma rdb_loop_item:
  assumes "item_ok item"
  shows "rdb_loop x es (put_item item @ rest) =
     (case item of
        ExpireMs t \<Rightarrow> rdb_loop (Some t) es rest
      | ExpireSeconds t \<Rightarrow> rdb_loop (Some (of_nat (unat t * 1000))) es rest
      | StringEntry k v \<Rightarrow> rdb_loop None (es @ [\<lparr>re_key = text_of k, re_value = text_of v, re_expire_at_ms = x\<rparr>]) rest
      | _ \<Rightarrow> rdb_loop x es rest)"
proof (cases item)
  case (ExpireMs t)
  have "unat t mod 256 ^ 8 = unat t" using unat_less_2p64 [of t] by simp
  with ExpireMs show ?thesis by (simp add: rdb_little_endian_le_bytes)
next
  case (ExpireSeconds t)
  have "unat t mod 256 ^ 4 = unat t" using unsigned_less [of t, where ?'a = nat] by simp
  with ExpireSeconds show ?thesis by (simp add: rdb_little_endian_le_bytes)
qed (use assms in \<open>simp_all add: rdb_string_put rdb_length_put\<close>)

lemma rdb_loop_items:
  assumes "list_all item_ok items" "tail = [] \<or> (\<exists>rest. tail = CHR 0xFF # rest)"
  shows "rdb_loop x acc (concat (map put_item items) @ tail) = Inr (acc @ entries_of x items)"
  using assms(1)
proof (induction items arbitrary: x acc)
  case Nil
  with assms(2) show ?case by auto
next
  case (Cons item items)
  then show ?case
    using rdb_loop_item [of item x acc "concat (map put_item items) @ tail"] by (cases item) simp_all
qed

section \<open>Properties\<close>

text \<open>C18: The loader reads back every file of the format it documents: the REDIS header with any
  four version characters, then any sequence of auxiliary fields, database selections, size
  hints, expiries in milliseconds or in seconds, and string entries. Lengths are in any of the
  four length encodings that hold them, minimal or not, and strings are raw bytes or integers of
  8, 16 or 32 bits. The file ends there or with the end marker and anything after it (a
  checksum). The entries come back in order, integers in decimal, each with the last expiry
  given since the entry before it.\<close>

theorem rdb_file_roundtrip:
  assumes "list_all item_ok items" "length version = 4" "tail = [] \<or> (\<exists>rest. tail = CHR 0xFF # rest)"
  shows "load_rdb (Some (''REDIS'' @ version @ concat (map put_item items) @ tail)) = Inr (entries_of None items)"
proof -
  have "rdb_bytes 9 (''REDIS'' @ version @ body) = Inr (''REDIS'' @ version, body)" for body
    using assms(2) by (simp add: rdb_bytes_def)
  then show ?thesis
    using rdb_loop_items [OF assms(1,3), of None "[]"] by (simp add: load_rdb_def)
qed

theorem rdb_file_roundtrip_witness:
  "load_rdb (Some (''REDIS'' @ ''0011'' @ concat (map put_item
      [Aux (Raw Six ''redis-bits'') (Int8 64), SelectDb Fourteen 0, ExpireSeconds 7,
       StringEntry (Raw ThirtyTwo ''k'') (Int16 (- 300)), StringEntry (Raw Six ''m'') (Raw SixtyFour ''v'')]) @ CHR 0xFF # ''sum''))
     = Inr [\<lparr>re_key = ''k'', re_value = ''-300'', re_expire_at_ms = Some 7000\<rparr>,
            \<lparr>re_key = ''m'', re_value = ''v'', re_expire_at_ms = None\<rparr>]"
proof -
  let ?items = "[Aux (Raw Six ''redis-bits'') (Int8 64), SelectDb Fourteen 0, ExpireSeconds 7,
       StringEntry (Raw ThirtyTwo ''k'') (Int16 (- 300)), StringEntry (Raw Six ''m'') (Raw SixtyFour ''v'')]"
  have "entries_of None ?items = [\<lparr>re_key = ''k'', re_value = ''-300'', re_expire_at_ms = Some 7000\<rparr>,
            \<lparr>re_key = ''m'', re_value = ''v'', re_expire_at_ms = None\<rparr>]" by code_simp
  then show ?thesis using rdb_file_roundtrip [of ?items "''0011''" "CHR 0xFF # ''sum''"] by simp
qed

text \<open>The snapshot a master sends on \<open>PSYNC\<close> is a valid file for this loader and holds no
  entry: a full resynchronisation starts the replica from an empty data set.\<close>

lemma psync_snapshot_is_empty:
  "load_rdb (Some (hex_to_bytes kEmptyRdbHex)) = Inr []"
  by code_simp

end
