(* ===== verification/Server.thy ===== *)
theory Server
  imports Aof Net Rdb
begin

text \<open>
  The event loop of \<open>src/src/server/server.cpp\<close>: connections, blocked clients, replicas, the
  connection to a master and the log, around the command layer. One turn of the loop is
  \<open>poll_turn\<close>; the lambdas and loop bodies of \<open>Server::run\<close> are its parts, in the order of
  the code.

  What the system answers is an input: \<open>world\<close> gives the environment of the \<open>n\<close>-th command,
  the results of the system calls of the \<open>n\<close>-th \<open>send_all\<close> and of the \<open>n\<close>-th call of the log.
  A turn ends normally, or with an exception that leaves \<open>Server::run\<close> (and ends the
  process), or it waits for a system call of the log.
\<close>

section \<open>State\<close>

datatype stop = Threw exn | Waiting

type_synonym 'a run = "stop + 'a"

definition then_do :: "'a run \<Rightarrow> ('a \<Rightarrow> 'b run) \<Rightarrow> 'b run" where
  "then_do m f = (case m of Inl e \<Rightarrow> Inl e | Inr x \<Rightarrow> f x)"

lemma then_do_simps [simp]: "then_do (Inl e) f = Inl e" "then_do (Inr x) f = f x"
  by (simp_all add: then_do_def)

lemma then_do_Inr: "then_do m f = Inr y \<longleftrightarrow> (\<exists>x. m = Inr x \<and> f x = Inr y)"
  by (cases m) simp_all

record Waiter =
  w_fd :: int
  w_kind :: BlockKind
  w_keys :: "string list"
  w_ids :: "StreamID list"
  w_count :: nat
  w_has_deadline :: bool
  w_deadline :: int
  w_target_offset :: int

record world =
  world_env :: "nat \<Rightarrow> env"
  world_sends :: "nat \<Rightarrow> send_result list"
  world_log :: "nat \<Rightarrow> aof_calls"

text \<open>
  The bytes sent are recorded with their purpose: the answer to a command, a published
  message, or the replication stream. The three counters number the calls that \<open>world\<close>
  answers.
\<close>

datatype lane = Answer | Message | Replication

record server =
  db :: store
  aof :: Aof
  disk_of :: disk
  server_fd :: int
  master_fd :: int
  fds :: "int list"
  buffers :: "(int, bytes) hmap"
  clients :: "(int, ClientState) hmap"
  waiters :: "Waiter list"
  replicas :: "(int, int) hmap"
  replica_offset :: int
  outbox :: "(int \<times> lane \<times> bytes) list"
  n_commands :: nat
  n_sends :: nat
  n_logs :: nat

text \<open>\<open>operator[]\<close> of the maps: a missing entry is a default one.\<close>

definition client_at :: "server \<Rightarrow> int \<Rightarrow> ClientState" where
  "client_at sv c = (case hget (clients sv) c of None \<Rightarrow> new_client (- 1) | Some client \<Rightarrow> client)"

definition put_client :: "int \<Rightarrow> ClientState \<Rightarrow> server \<Rightarrow> server" where
  "put_client c client sv = sv\<lparr>clients := hput c client (clients sv)\<rparr>"

definition buffer_at :: "server \<Rightarrow> int \<Rightarrow> bytes" where
  "buffer_at sv c = (case hget (buffers sv) c of None \<Rightarrow> [] | Some b \<Rightarrow> b)"

definition put_buffer :: "int \<Rightarrow> bytes \<Rightarrow> server \<Rightarrow> server" where
  "put_buffer c b sv = sv\<lparr>buffers := hput c b (buffers sv)\<rparr>"

section \<open>Connections and sending\<close>

definition send_to :: "world \<Rightarrow> lane \<Rightarrow> int \<Rightarrow> bytes \<Rightarrow> server \<Rightarrow> bool \<times> server" where
  "send_to w lane c payload sv =
     (case send_all (world_sends w (n_sends sv)) payload of
        (out, ok) \<Rightarrow> (ok, sv\<lparr>n_sends := Suc (n_sends sv), outbox := outbox sv @ [(c, lane, out)]\<rparr>))"

definition close_client :: "nat \<Rightarrow> int \<Rightarrow> server \<Rightarrow> server" where
  "close_client i c sv = sv\<lparr>db := remove_subscriber c (db sv), fds := (fds sv)[i := - 1],
     buffers := herase c (buffers sv), clients := herase c (clients sv),
     waiters := filter (\<lambda>waiter. w_fd waiter \<noteq> c) (waiters sv), replicas := herase c (replicas sv)\<rparr>"

text \<open>The first slot after the listener that holds a descriptor.\<close>

definition slot_of :: "int \<Rightarrow> int list \<Rightarrow> nat option" where
  "slot_of c fs = (case filter (\<lambda>i. fs ! i = c) [1..<length fs] of [] \<Rightarrow> None | i # _ \<Rightarrow> Some i)"

fun deliver :: "world \<Rightarrow> (int \<times> string) list \<Rightarrow> server \<Rightarrow> server" where
  "deliver w [] sv = sv"
| "deliver w ((recipient, message) # rest) sv =
     deliver w rest
       (case slot_of recipient (fds sv) of
          None \<Rightarrow> sv
        | Some index \<Rightarrow>
            (case send_to w Message recipient message sv of
               (ok, sv) \<Rightarrow> if ok then sv else close_client index recipient sv))"

definition deliver_messages :: "world \<Rightarrow> server \<Rightarrow> server" where
  "deliver_messages w sv =
     (case take_pending_messages (db sv) of (messages, s) \<Rightarrow> deliver w messages (sv\<lparr>db := s\<rparr>))"

fun send_each :: "world \<Rightarrow> bytes \<Rightarrow> (int \<times> int) list \<Rightarrow> server \<Rightarrow> server" where
  "send_each w encoded [] sv = sv"
| "send_each w encoded ((c, offset) # rest) sv =
     send_each w encoded rest
       (case send_to w Replication c encoded sv of
          (ok, sv) \<Rightarrow> if ok then sv else sv\<lparr>replicas := herase c (replicas sv)\<rparr>)"

definition send_to_replicas :: "world \<Rightarrow> bytes \<Rightarrow> server \<Rightarrow> server" where
  "send_to_replicas w encoded sv =
     send_each w encoded (replicas sv) (sv\<lparr>db := bump_repl_offset (int (length encoded)) (db sv)\<rparr>)"

definition propagate_to_replicas :: "world \<Rightarrow> args \<Rightarrow> server \<Rightarrow> server" where
  "propagate_to_replicas w args sv = send_to_replicas w (to_bytes (Array args)) sv"

definition count_acked :: "int \<Rightarrow> server \<Rightarrow> nat" where
  "count_acked target_offset sv = length (filter (\<lambda>(c, offset). target_offset \<le> offset) (replicas sv))"

section \<open>The log\<close>

definition log_call :: "(aof_calls \<Rightarrow> disk \<Rightarrow> Aof \<Rightarrow> (disk \<times> Aof \<times> unit res) option) \<Rightarrow> world \<Rightarrow> server \<Rightarrow> server run" where
  "log_call operation w sv =
     (case operation (world_log w (n_logs sv)) (disk_of sv) (aof sv) of
        None \<Rightarrow> Inl Waiting
      | Some (d, a, Inl e) \<Rightarrow> Inl (Threw e)
      | Some (d, a, Inr _) \<Rightarrow> Inr (sv\<lparr>disk_of := d, aof := a, n_logs := Suc (n_logs sv)\<rparr>))"

definition log_command :: "world \<Rightarrow> args \<Rightarrow> server \<Rightarrow> server run" where
  "log_command w args = log_call (\<lambda>calls. append_command calls args) w"

definition log_transaction :: "world \<Rightarrow> args list \<Rightarrow> server \<Rightarrow> server run" where
  "log_transaction w commands = log_call (\<lambda>calls. append_transaction calls commands) w"

fun log_each :: "world \<Rightarrow> args list \<Rightarrow> server \<Rightarrow> server run" where
  "log_each w [] sv = Inr sv"
| "log_each w (args # rest) sv = then_do (log_command w args sv) (log_each w rest)"

definition log_pending :: "world \<Rightarrow> bool \<Rightarrow> args list \<Rightarrow> server \<Rightarrow> server run" where
  "log_pending w was_in_multi pending sv =
     (if was_in_multi then log_transaction w pending sv else log_each w pending sv)"

text \<open>Noting in the client how far the replication stream has to be acknowledged for it.\<close>

definition note_offset :: "int \<Rightarrow> server \<Rightarrow> server" where
  "note_offset c sv = put_client c ((client_at sv c)\<lparr>client_offset := master_repl_offset (db sv)\<rparr>) sv"

fun propagate_each :: "world \<Rightarrow> int \<Rightarrow> args list \<Rightarrow> server \<Rightarrow> server" where
  "propagate_each w c [] sv = sv"
| "propagate_each w c (args # rest) sv =
     propagate_each w c rest (note_offset c (propagate_to_replicas w args sv))"

section \<open>Blocked clients\<close>

text \<open>Popped elements are logged and propagated one by one.\<close>

fun record_each :: "world \<Rightarrow> int \<Rightarrow> args list \<Rightarrow> server \<Rightarrow> server run" where
  "record_each w c [] sv = Inr sv"
| "record_each w c (args # rest) sv =
     then_do (log_command w args sv)
       (\<lambda>sv. record_each w c rest (note_offset c (propagate_to_replicas w args sv)))"

text \<open>One retry of a blocked client: the reply, if it can be served now.\<close>

definition retry_waiter :: "world \<Rightarrow> Waiter \<Rightarrow> server \<Rightarrow> (server \<times> string option) run" where
  "retry_waiter w waiter sv =
     (case w_kind waiter of
        BlockWait \<Rightarrow>
          (let acked = count_acked (w_target_offset waiter) sv
           in Inr (sv, if w_count waiter \<le> acked then Some (to_bytes (Integer (int acked))) else None))
      | BlockList \<Rightarrow>
          (case try_blpop (w_keys waiter) (db sv) of
             (s, None) \<Rightarrow> Inr (sv\<lparr>db := s\<rparr>, None)
           | (s, Some (key, value)) \<Rightarrow>
               (case take_pending_propagations s of
                  (pending, s) \<Rightarrow>
                    then_do (record_each w (w_fd waiter) pending (sv\<lparr>db := s\<rparr>))
                      (\<lambda>sv. Inr (sv, Some (to_bytes (Array [key, value]))))))
      | BlockStream \<Rightarrow>
          (case try_xread (db sv) (w_keys waiter) (w_ids waiter) (w_count waiter) of
             Inl e \<Rightarrow> Inl (Threw e)
           | Inr reply \<Rightarrow> Inr (sv, reply)))"

fun serve_loop :: "world \<Rightarrow> Waiter list \<Rightarrow> server \<Rightarrow> (Waiter list \<times> server) run" where
  "serve_loop w [] sv = Inr ([], sv)"
| "serve_loop w (waiter # rest) sv =
     then_do (retry_waiter w waiter sv)
       (\<lambda>(sv, reply).
          case reply of
            None \<Rightarrow> then_do (serve_loop w rest sv) (\<lambda>(kept, sv). Inr (waiter # kept, sv))
          | Some response \<Rightarrow> serve_loop w rest (snd (send_to w Answer (w_fd waiter) response sv)))"

definition serve_waiters :: "world \<Rightarrow> server \<Rightarrow> server run" where
  "serve_waiters w sv =
     then_do (serve_loop w (waiters sv) sv) (\<lambda>(kept, sv). Inr (sv\<lparr>waiters := kept\<rparr>))"

definition overdue :: "int \<Rightarrow> Waiter \<Rightarrow> bool" where
  "overdue now waiter \<longleftrightarrow> w_has_deadline waiter \<and> w_deadline waiter \<le> now"

definition timeout_reply :: "Waiter \<Rightarrow> server \<Rightarrow> string" where
  "timeout_reply waiter sv =
     (if w_kind waiter = BlockWait then to_bytes (Integer (int (count_acked (w_target_offset waiter) sv)))
      else to_bytes NullArray)"

fun expire_loop :: "world \<Rightarrow> int \<Rightarrow> Waiter list \<Rightarrow> server \<Rightarrow> Waiter list \<times> server" where
  "expire_loop w now [] sv = ([], sv)"
| "expire_loop w now (waiter # rest) sv =
     (if overdue now waiter
      then expire_loop w now rest (snd (send_to w Answer (w_fd waiter) (timeout_reply waiter sv) sv))
      else case expire_loop w now rest sv of (kept, sv) \<Rightarrow> (waiter # kept, sv))"

definition expire_waiters :: "world \<Rightarrow> int \<Rightarrow> server \<Rightarrow> server" where
  "expire_waiters w now sv =
     (case expire_loop w now (waiters sv) sv of (kept, sv) \<Rightarrow> sv\<lparr>waiters := kept\<rparr>)"

text \<open>The time \<open>poll\<close> may sleep, in milliseconds; negative is no limit. The cast of a
  remaining time to \<open>int\<close> drops its upper bits.\<close>

definition remaining_ms :: "int \<Rightarrow> Waiter \<Rightarrow> int" where
  "remaining_ms now waiter =
     (let r = w_deadline waiter - now in if r < 0 then 0 else r div 1000000)"

fun timeout_loop :: "int \<Rightarrow> Waiter list \<Rightarrow> int \<Rightarrow> int" where
  "timeout_loop now [] timeout = timeout"
| "timeout_loop now (waiter # rest) timeout =
     timeout_loop now rest
       (if w_has_deadline waiter \<and> (timeout < 0 \<or> remaining_ms now waiter < timeout)
        then wrap_s32 (remaining_ms now waiter) else timeout)"

definition next_timeout :: "int \<Rightarrow> server \<Rightarrow> int" where
  "next_timeout now sv = timeout_loop now (waiters sv) (sync_timeout_ms now (aof sv))"

section \<open>One command of a client\<close>

definition internal_error :: string where
  "internal_error = simple_error ''ERR internal error''"

text \<open>Running a command for a connection: exceptions become an error reply.\<close>

definition run_command :: "world \<Rightarrow> int \<Rightarrow> args \<Rightarrow> server \<Rightarrow> server \<times> string" where
  "run_command w c args sv =
     (case handle_command (world_env w (n_commands sv)) args (db sv) (client_at sv c) of
        (s, client, r) \<Rightarrow>
          (put_client c client (sv\<lparr>db := s, n_commands := Suc (n_commands sv)\<rparr>),
           case r of Inl e \<Rightarrow> internal_error | Inr response \<Rightarrow> response))"

text \<open>An acknowledgement of a replica is consumed by the loop itself.\<close>

definition is_ack :: "int \<Rightarrow> args \<Rightarrow> server \<Rightarrow> bool" where
  "is_ack c args sv \<longleftrightarrow>
     (authenticated (client_at sv c) \<or> default_user_auto_auth (db sv)) \<and> subscriptions (client_at sv c) = []
     \<and> 3 \<le> length args \<and> to_upper (args ! 0) = ''REPLCONF'' \<and> to_upper (args ! 1) = ''ACK''"

definition note_ack :: "int \<Rightarrow> string \<Rightarrow> server \<Rightarrow> server" where
  "note_ack c text sv =
     (case hget (replicas sv) c of
        None \<Rightarrow> sv
      | Some _ \<Rightarrow> (case stoll text of Inl _ \<Rightarrow> sv | Inr v \<Rightarrow> sv\<lparr>replicas := hput c v (replicas sv)\<rparr>))"

definition register_replica :: "int \<Rightarrow> args \<Rightarrow> bool \<Rightarrow> string \<Rightarrow> server \<Rightarrow> server" where
  "register_replica c args was_in_multi response sv =
     (if args \<noteq> [] \<and> to_upper (args ! 0) = ''PSYNC'' \<and> \<not> was_in_multi \<and> response \<noteq> [] \<and> \<not> is_error_reply response
         \<and> \<not> hcontains (replicas sv) c
      then sv\<lparr>replicas := hput c (master_repl_offset (db sv)) (replicas sv)\<rparr> else sv)"

definition is_logged :: "args \<Rightarrow> bool \<Rightarrow> string \<Rightarrow> bool" where
  "is_logged args was_in_multi response \<longleftrightarrow>
     args \<noteq> [] \<and> \<not> was_in_multi \<and> is_write_command (to_upper (args ! 0)) \<and> \<not> is_error_reply response"

definition record_write :: "world \<Rightarrow> int \<Rightarrow> args \<Rightarrow> bool \<Rightarrow> string \<Rightarrow> server \<Rightarrow> server run" where
  "record_write w c args was_in_multi response sv =
     (if is_logged args was_in_multi response then record_each w c [args] sv else Inr sv)"

definition record_pending :: "world \<Rightarrow> int \<Rightarrow> bool \<Rightarrow> server \<Rightarrow> server run" where
  "record_pending w c was_in_multi sv =
     (case take_pending_propagations (db sv) of
        (pending, s) \<Rightarrow>
          then_do (log_pending w was_in_multi pending (sv\<lparr>db := s\<rparr>))
            (\<lambda>sv. Inr (propagate_each w c pending sv)))"

text \<open>
  The conversion of a \<open>double\<close> number of seconds to nanoseconds; out of the range of
  \<open>long long\<close> the language leaves it undefined, and the processor yields the smallest value.
\<close>

definition to_nanoseconds :: "env \<Rightarrow> double \<Rightarrow> int" where
  "to_nanoseconds env seconds =
     (let d = dbl_mul (round_double env) seconds (Fin 1000000000);
          v = (if 0 \<le> fin_val d then \<lfloor>fin_val d\<rfloor> else \<lceil>fin_val d\<rceil>)
      in if isfinite d \<and> - (2 ^ 63) \<le> v \<and> v < 2 ^ 63 then v else - (2 ^ 63))"

definition new_waiter :: "env \<Rightarrow> int \<Rightarrow> BlockRequest \<Rightarrow> int \<Rightarrow> Waiter" where
  "new_waiter env c block target_offset =
     \<lparr>w_fd = c, w_kind = br_kind block, w_keys = br_keys block, w_ids = br_ids block, w_count = br_count block,
      w_has_deadline = dbl_less (Fin 0) (br_timeout block),
      w_deadline = wrap_s64 (steady_now env + to_nanoseconds env (br_timeout block)),
      w_target_offset = target_offset\<rparr>"

definition getack :: bytes where
  "getack = to_bytes (Array [''REPLCONF'', ''GETACK'', ''*''])"

definition block_client :: "world \<Rightarrow> env \<Rightarrow> int \<Rightarrow> BlockRequest \<Rightarrow> server \<Rightarrow> server" where
  "block_client w env c block sv =
     (let target_offset = client_offset (client_at sv c);
          acked = count_acked target_offset sv
      in if br_kind block = BlockWait then
           (if replicas sv = [] \<or> br_count block \<le> acked
            then snd (send_to w Answer c (to_bytes (Integer (int acked))) sv)
            else let sv = send_to_replicas w getack sv
                 in sv\<lparr>waiters := waiters sv @ [new_waiter env c block target_offset]\<rparr>)
         else sv\<lparr>waiters := waiters sv @ [new_waiter env c block 0]\<rparr>)"

text \<open>
  The answer: block, or send the response. The flag is false when the connection was closed,
  by this client or because a message to it could not be delivered.
\<close>

definition finish_command :: "world \<Rightarrow> nat \<Rightarrow> int \<Rightarrow> server \<Rightarrow> server \<times> bool" where
  "finish_command w i c sv =
     (let sv = deliver_messages w sv
      in if fds sv ! i < 0 then (sv, False)
         else if close_after_reply (client_at sv c) then (close_client i c sv, False)
         else (sv, True))"

definition answer_command :: "world \<Rightarrow> env \<Rightarrow> nat \<Rightarrow> int \<Rightarrow> string \<Rightarrow> server \<Rightarrow> server \<times> bool" where
  "answer_command w env i c response sv =
     (case take_pending_block (db sv) of
        (Some block, s) \<Rightarrow> finish_command w i c (block_client w env c block (sv\<lparr>db := s\<rparr>))
      | (None, s) \<Rightarrow>
          if response = [] then finish_command w i c (sv\<lparr>db := s\<rparr>)
          else case send_to w Answer c response (sv\<lparr>db := s\<rparr>) of
            (ok, sv) \<Rightarrow> if ok then finish_command w i c sv else (close_client i c sv, False))"

definition client_command :: "world \<Rightarrow> nat \<Rightarrow> int \<Rightarrow> args \<Rightarrow> server \<Rightarrow> (server \<times> bool) run" where
  "client_command w i c args sv =
     (if is_ack c args sv then Inr (note_ack c (args ! 2) sv, True)
      else let was_in_multi = in_multi (client_at sv c); env = world_env w (n_commands sv)
        in case run_command w c args sv of
             (sv, response) \<Rightarrow>
               then_do (record_write w c args was_in_multi response
                          (register_replica c args was_in_multi response sv))
                 (\<lambda>sv. then_do (record_pending w c was_in_multi sv)
                    (\<lambda>sv. Inr (answer_command w env i c response sv))))"

section \<open>One command of the master\<close>

definition is_getack :: "args \<Rightarrow> bool" where
  "is_getack args \<longleftrightarrow> 2 \<le> length args \<and> to_upper (args ! 0) = ''REPLCONF'' \<and> to_upper (args ! 1) = ''GETACK''"

definition advance_offset :: "nat \<Rightarrow> server \<Rightarrow> server" where
  "advance_offset consumed sv = sv\<lparr>replica_offset := wrap_s64 (replica_offset sv + int consumed)\<rparr>"

definition log_write :: "world \<Rightarrow> args \<Rightarrow> bool \<Rightarrow> string \<Rightarrow> server \<Rightarrow> server run" where
  "log_write w args was_in_multi response sv =
     (if is_logged args was_in_multi response then log_command w args sv else Inr sv)"

definition master_command :: "world \<Rightarrow> int \<Rightarrow> args \<Rightarrow> nat \<Rightarrow> server \<Rightarrow> server run" where
  "master_command w c args consumed sv =
     (if is_getack args
      then Inr (advance_offset consumed
             (snd (send_to w Answer c
                (to_bytes (Array [''REPLCONF'', ''ACK'', to_string_int (replica_offset sv)])) sv)))
      else let was_in_multi = in_multi (client_at sv c)
        in case run_command w c args (advance_offset consumed sv) of
             (sv, response) \<Rightarrow>
               then_do (log_write w args was_in_multi response sv)
                 (\<lambda>sv. case take_pending_propagations (db sv) of
                    (pending, s) \<Rightarrow>
                      then_do (log_pending w was_in_multi pending (sv\<lparr>db := s\<rparr>))
                        (\<lambda>sv. Inr (sv\<lparr>db := snd (take_pending_block (db sv))\<rparr>))))"

section \<open>Frames of the operations\<close>

text \<open>
  The contract of the operations that send and log: what they preserve, if sending, losing
  a replica, counting the stream and a call of the log preserve it. Each invariant of the
  server instantiates it once.
\<close>

locale recording =
  fixes I :: "server \<Rightarrow> bool" and c :: int
  assumes sends: "I sv \<Longrightarrow> I (snd (send_to w Replication x payload sv))"
    and loses: "I sv \<Longrightarrow> I (sv\<lparr>replicas := herase x (replicas sv)\<rparr>)"
    and bumps: "I sv \<Longrightarrow> I (sv\<lparr>db := bump_repl_offset n (db sv)\<rparr>)"
    and marks: "I sv \<Longrightarrow> I (note_offset c sv)"
    and logs: "I sv \<Longrightarrow> I (sv\<lparr>disk_of := d, aof := a, n_logs := n\<rparr>)"
begin

lemma send_each: "I sv \<Longrightarrow> I (send_each w encoded rs sv)"
proof (induction rs arbitrary: sv)
  case (Cons r rs)
  obtain x offset where r: "r = (x, offset)" by fastforce
  obtain ok sv1 where s: "send_to w Replication x encoded sv = (ok, sv1)" by fastforce
  with sends [OF Cons.prems, of w x encoded] have "I sv1" by simp
  then show ?case using Cons.IH loses by (simp add: r s)
qed simp

lemma send_to_replicas: "I sv \<Longrightarrow> I (send_to_replicas w encoded sv)"
  by (simp add: send_to_replicas_def send_each bumps)

lemma propagate_to_replicas: "I sv \<Longrightarrow> I (propagate_to_replicas w args sv)"
  by (simp add: propagate_to_replicas_def send_to_replicas)

lemma propagate_each: "I sv \<Longrightarrow> I (propagate_each w c cmds sv)"
  by (induction cmds arbitrary: sv) (simp_all add: propagate_to_replicas marks)

lemma log_call: "I sv \<Longrightarrow> log_call operation w sv = Inr sv' \<Longrightarrow> I sv'"
  by (auto simp: log_call_def logs split: option.splits sum.splits)

lemma log_command: "I sv \<Longrightarrow> log_command w args sv = Inr sv' \<Longrightarrow> I sv'"
  unfolding log_command_def by (rule log_call)

lemma log_each: "I sv \<Longrightarrow> log_each w cmds sv = Inr sv' \<Longrightarrow> I sv'"
proof (induction cmds arbitrary: sv)
  case (Cons args cmds)
  then obtain sv1 where "log_command w args sv = Inr sv1" "log_each w cmds sv1 = Inr sv'"
    by (auto simp: then_do_Inr)
  with Cons log_command show ?case by blast
qed simp

lemma log_pending: "I sv \<Longrightarrow> log_pending w m cmds sv = Inr sv' \<Longrightarrow> I sv'"
  using log_each [of sv w cmds sv'] log_call [of sv _ w sv']
  by (auto simp: log_pending_def log_transaction_def split: if_splits)

lemma record_each: "I sv \<Longrightarrow> record_each w c cmds sv = Inr sv' \<Longrightarrow> I sv'"
proof (induction cmds arbitrary: sv)
  case (Cons args cmds)
  then obtain sv1 where "log_command w args sv = Inr sv1"
      "record_each w c cmds (note_offset c (propagate_to_replicas w args sv1)) = Inr sv'"
    by (auto simp: then_do_Inr)
  with Cons log_command marks propagate_to_replicas show ?case by blast
qed simp

lemma record_write: "I sv \<Longrightarrow> record_write w c args m response sv = Inr sv' \<Longrightarrow> I sv'"
  unfolding record_write_def by (metis record_each sum.inject(2))

end

text \<open>Invariants that also survive emptying the queue of pending writes.\<close>

locale queueing = recording I c for I :: "server \<Rightarrow> bool" and c +
  assumes takes: "I sv \<Longrightarrow> I (sv\<lparr>db := (db sv)\<lparr>pending_propagations := []\<rparr>\<rparr>)"
begin

lemma record_pending:
  assumes "I sv" "record_pending w c m sv = Inr sv'"
  shows "I sv'"
proof -
  from assms(2) obtain sv1 cmds where
    "log_pending w m cmds (sv\<lparr>db := (db sv)\<lparr>pending_propagations := []\<rparr>\<rparr>) = Inr sv1"
    "sv' = propagate_each w c cmds sv1"
    by (auto simp: record_pending_def take_pending_propagations_def then_do_Inr)
  with assms(1) takes log_pending propagate_each show ?thesis by blast
qed

end

text \<open>Answering a command, for invariants that also survive the end of a connection.\<close>

locale answering = queueing I c for I :: "server \<Rightarrow> bool" and c +
  fixes w :: world
  assumes talks: "I sv \<Longrightarrow> I (snd (send_to w lane x payload sv))"
    and closes: "I sv \<Longrightarrow> I (close_client i x sv)"
    and waits: "I sv \<Longrightarrow> I (sv\<lparr>waiters := ws\<rparr>)"
    and registers: "I sv \<Longrightarrow> I (sv\<lparr>replicas := rs\<rparr>)"
    and advances: "I sv \<Longrightarrow> I (sv\<lparr>replica_offset := n\<rparr>)"
    and takes_block: "I sv \<Longrightarrow> I (sv\<lparr>db := (db sv)\<lparr>pending_block := None\<rparr>\<rparr>)"
    and takes_messages: "I sv \<Longrightarrow> I (sv\<lparr>db := (db sv)\<lparr>pending_messages := []\<rparr>\<rparr>)"
begin

lemma deliver: "I sv \<Longrightarrow> I (deliver w ms sv)"
proof (induction ms arbitrary: sv)
  case (Cons m ms)
  obtain x message where m: "m = (x, message)" by fastforce
  obtain ok sv1 where s: "send_to w Message x message sv = (ok, sv1)" by fastforce
  with talks [OF Cons.prems, of Message x message] have "I sv1" by simp
  then show ?case using Cons closes by (simp add: m s split: option.split)
qed simp

lemma deliver_messages: "I sv \<Longrightarrow> I (deliver_messages w sv)"
  by (simp add: deliver_messages_def take_pending_messages_def deliver takes_messages)

lemma finish_command: "I sv \<Longrightarrow> I (fst (finish_command w i c sv))"
  by (simp add: finish_command_def Let_def deliver_messages closes)

lemma block_client: "I sv \<Longrightarrow> I (block_client w env c block sv)"
  by (simp add: block_client_def Let_def waits talks send_to_replicas)

lemma answer_taken:
  "I (sv\<lparr>db := (db sv)\<lparr>pending_block := None\<rparr>\<rparr>) \<Longrightarrow> I (fst (answer_command w env i c response sv))"
  using talks [of "sv\<lparr>db := (db sv)\<lparr>pending_block := None\<rparr>\<rparr>" Answer c response]
  by (auto simp: answer_command_def take_pending_block_def case_prod_beta finish_command block_client closes
      split: option.split)

lemma answer_command: "I sv \<Longrightarrow> I (fst (answer_command w env i c response sv))"
  by (rule answer_taken) (rule takes_block)

lemma advance_offset: "I sv \<Longrightarrow> I (advance_offset n sv)"
  by (simp add: advance_offset_def advances)

lemma log_write: "I sv \<Longrightarrow> log_write w args m response sv = Inr sv' \<Longrightarrow> I sv'"
  using log_command [of sv w args sv'] by (auto simp: log_write_def split: if_splits)

end

text \<open>A whole command, for invariants that running it preserves.\<close>

locale serving = answering I c w for I :: "server \<Rightarrow> bool" and c w +
  assumes runs: "I sv \<Longrightarrow> I (fst (run_command w c args sv))"
begin

lemma client_command:
  assumes "I sv" "client_command w i c args sv = Inr (sv', go)"
  shows "I sv'"
proof (cases "is_ack c args sv")
  case True
  with assms show ?thesis
    by (auto simp: client_command_def note_ack_def registers split: option.splits sum.splits)
next
  case False
  let ?m = "in_multi (client_at sv c)" and ?env = "world_env w (n_commands sv)"
  obtain sv1 response where r: "run_command w c args sv = (sv1, response)" by fastforce
  with runs [OF assms(1), of args] have 1: "I sv1" by simp
  then have 2: "I (register_replica c args ?m response sv1)" by (simp add: register_replica_def registers)
  obtain sv2 sv3 where 3: "record_write w c args ?m response (register_replica c args ?m response sv1) = Inr sv2"
      "record_pending w c ?m sv2 = Inr sv3" "(sv', go) = answer_command w ?env i c response sv3"
    using assms(2) False by (auto simp: client_command_def Let_def r then_do_Inr)
  from answer_command [OF record_pending [OF record_write [OF 2 3(1)] 3(2)]] 3(3) show ?thesis
    by (metis fst_conv)
qed

lemma master_command:
  assumes "I sv" "master_command w c args consumed sv = Inr sv'"
  shows "I sv'"
proof (cases "is_getack args")
  case True
  with assms show ?thesis by (auto simp: master_command_def talks advance_offset)
next
  case False
  let ?m = "in_multi (client_at sv c)"
  obtain sv1 response where r: "run_command w c args (advance_offset consumed sv) = (sv1, response)" by fastforce
  with runs [OF advance_offset [OF assms(1)], of args consumed] have 1: "I sv1" by simp
  obtain sv2 sv3 where 3: "log_write w args ?m response sv1 = Inr sv2"
      "log_pending w ?m (pending_propagations (db sv2)) (sv2\<lparr>db := (db sv2)\<lparr>pending_propagations := []\<rparr>\<rparr>) = Inr sv3"
      "sv' = sv3\<lparr>db := (db sv3)\<lparr>pending_block := None\<rparr>\<rparr>"
    using assms(2) False
    by (auto simp: master_command_def Let_def r then_do_Inr take_pending_propagations_def take_pending_block_def)
  from takes_block [OF log_pending [OF takes [OF log_write [OF 1 3(1)]] 3(2)]] 3(3) show ?thesis by simp
qed

end

section \<open>Receiving\<close>

text \<open>No command adds to a receive buffer.\<close>

lemma buffer_at_herase: "buffer_at (sv\<lparr>buffers := herase c (buffers sv)\<rparr>) x = (if x = c then [] else buffer_at sv x)"
  by (simp add: buffer_at_def)

definition buffers_below :: "(int \<Rightarrow> nat) \<Rightarrow> server \<Rightarrow> bool" where
  "buffers_below bound sv \<longleftrightarrow> (\<forall>c. length (buffer_at sv c) \<le> bound c)"

interpretation shrinking: serving "buffers_below bound" c w for bound c w
  by unfold_locales
    (auto simp: buffers_below_def buffer_at_def send_to_def note_offset_def put_client_def run_command_def
      close_client_def case_prod_beta split: option.splits prod.splits)

lemma client_command_buffer:
  "client_command w i c args sv = Inr (sv', go) \<Longrightarrow> length (buffer_at sv' x) \<le> length (buffer_at sv x)"
  using shrinking.client_command [of "\<lambda>x. length (buffer_at sv x)" sv w i c args sv' go]
  by (simp add: buffers_below_def)

lemma master_command_buffer:
  "master_command w c args consumed sv = Inr sv' \<Longrightarrow> length (buffer_at sv' x) \<le> length (buffer_at sv x)"
  using shrinking.master_command [of "\<lambda>x. length (buffer_at sv x)" sv w c args consumed sv']
  by (simp add: buffers_below_def)

lemma parse_next_shorter:
  assumes "parse_command (buffer_at sv c) = Inr (Some (args, consumed))"
    and "length (buffer_at sv' c) \<le> length (buffer_at (put_buffer c (drop consumed (buffer_at sv c)) sv) c)"
  shows "length (buffer_at sv' c) < length (buffer_at sv c)"
proof -
  have "4 \<le> consumed" "consumed \<le> length (buffer_at sv c)" by (rule parse_command_consumes [OF assms(1)])+
  with assms(2) show ?thesis by (simp add: put_buffer_def buffer_at_def)
qed

text \<open>
  The loop that runs the complete requests of a buffer. Only a \<open>RespError\<close> is caught; any
  other exception of the parser leaves the event loop.
\<close>

function client_drain :: "world \<Rightarrow> nat \<Rightarrow> int \<Rightarrow> server \<Rightarrow> (server \<times> bool) run" where
  "client_drain w i c sv =
     (case parse_command (buffer_at sv c) of
        Inl (RespError _) \<Rightarrow> Inr (close_client i c sv, False)
      | Inl e \<Rightarrow> Inl (Threw e)
      | Inr None \<Rightarrow> Inr (sv, True)
      | Inr (Some (args, consumed)) \<Rightarrow>
          (case client_command w i c args (put_buffer c (drop consumed (buffer_at sv c)) sv) of
             Inl e \<Rightarrow> Inl e
           | Inr (sv, go) \<Rightarrow> if go then client_drain w i c sv else Inr (sv, False)))"
  by pat_completeness auto
termination
  by (relation "measure (\<lambda>(w, i, c, sv). length (buffer_at sv c))")
    (auto intro: parse_next_shorter dest: client_command_buffer)

declare client_drain.simps [simp del]

definition lose_master :: "nat \<Rightarrow> int \<Rightarrow> server \<Rightarrow> server" where
  "lose_master i c sv = (close_client i c sv)\<lparr>master_fd := - 1\<rparr>"

function master_drain :: "world \<Rightarrow> nat \<Rightarrow> int \<Rightarrow> server \<Rightarrow> (server \<times> bool) run" where
  "master_drain w i c sv =
     (case parse_command (buffer_at sv c) of
        Inl (RespError _) \<Rightarrow> Inr (lose_master i c sv, False)
      | Inl e \<Rightarrow> Inl (Threw e)
      | Inr None \<Rightarrow> Inr (sv, True)
      | Inr (Some (args, consumed)) \<Rightarrow>
          (case master_command w c args consumed (put_buffer c (drop consumed (buffer_at sv c)) sv) of
             Inl e \<Rightarrow> Inl e
           | Inr sv \<Rightarrow> master_drain w i c sv))"
  by pat_completeness auto
termination
  by (relation "measure (\<lambda>(w, i, c, sv). length (buffer_at sv c))")
    (auto intro: parse_next_shorter dest: master_command_buffer)

declare master_drain.simps [simp del]

text \<open>
  The results of \<open>recv\<close> while a descriptor is readable, at most 4096 bytes each; the list
  ends where the next call would block.
\<close>

datatype recv_result = Received bytes | PeerClosed | RecvInterrupted | RecvFailed

fun client_recv :: "world \<Rightarrow> nat \<Rightarrow> int \<Rightarrow> recv_result list \<Rightarrow> server \<Rightarrow> server run" where
  "client_recv w i c [] sv = Inr sv"
| "client_recv w i c (Received chunk # rs) sv =
     then_do (client_drain w i c (put_buffer c (buffer_at sv c @ chunk) sv))
       (\<lambda>(sv, go). if go then client_recv w i c rs sv else Inr sv)"
| "client_recv w i c (PeerClosed # rs) sv = Inr (close_client i c sv)"
| "client_recv w i c (RecvInterrupted # rs) sv = client_recv w i c rs sv"
| "client_recv w i c (RecvFailed # rs) sv = Inr (close_client i c sv)"

definition publish_offset :: "server \<Rightarrow> server" where
  "publish_offset sv = sv\<lparr>db := set_repl_offset (replica_offset sv) (db sv)\<rparr>"

fun master_recv :: "world \<Rightarrow> nat \<Rightarrow> int \<Rightarrow> recv_result list \<Rightarrow> server \<Rightarrow> server run" where
  "master_recv w i c [] sv = Inr sv"
| "master_recv w i c (Received chunk # rs) sv =
     then_do (master_drain w i c (put_buffer c (buffer_at sv c @ chunk) sv))
       (\<lambda>(sv, go). if go then master_recv w i c rs (publish_offset sv) else Inr (publish_offset sv))"
| "master_recv w i c (PeerClosed # rs) sv = Inr (lose_master i c sv)"
| "master_recv w i c (RecvInterrupted # rs) sv = master_recv w i c rs sv"
| "master_recv w i c (RecvFailed # rs) sv = Inr (lose_master i c sv)"

text \<open>The listener: a descriptor and whether it could be made non-blocking.\<close>

datatype accept_result = Accepted int bool | AcceptInterrupted | AcceptFailed

definition MAX_FDS :: nat where
  "MAX_FDS = 200"

definition add_client :: "int \<Rightarrow> server \<Rightarrow> server" where
  "add_client c sv = put_client c
     ((client_at sv c)\<lparr>fd := c, authenticated := default_user_auto_auth (db sv)\<rparr>) (sv\<lparr>fds := fds sv @ [c]\<rparr>)"

fun accept_loop :: "accept_result list \<Rightarrow> server \<Rightarrow> server" where
  "accept_loop [] sv = sv"
| "accept_loop (AcceptInterrupted # rs) sv = accept_loop rs sv"
| "accept_loop (AcceptFailed # rs) sv = sv"
| "accept_loop (Accepted c nonblocking # rs) sv =
     (if \<not> nonblocking \<or> length (fds sv) = MAX_FDS then accept_loop rs sv
      else accept_loop rs (add_client c sv))"

section \<open>One turn of the loop\<close>

record event =
  ev_in :: bool
  ev_error :: bool
  ev_accepts :: "accept_result list"
  ev_recvs :: "recv_result list"

definition handle_event :: "world \<Rightarrow> nat \<Rightarrow> event \<Rightarrow> server \<Rightarrow> server run" where
  "handle_event w i ev sv =
     (let c = fds sv ! i
      in if c < 0 \<or> \<not> ev_in ev \<and> \<not> ev_error ev then Inr sv
         else then_do
           (if \<not> ev_in ev then Inr sv
            else if c = server_fd sv then Inr (accept_loop (ev_accepts ev) sv)
            else if c = master_fd sv then master_recv w i c (ev_recvs ev) sv
            else client_recv w i c (ev_recvs ev) sv)
           (\<lambda>sv. Inr (if ev_error ev \<and> c \<noteq> server_fd sv \<and> 0 \<le> fds sv ! i then close_client i c sv else sv)))"

fun handle_events :: "world \<Rightarrow> nat \<Rightarrow> event list \<Rightarrow> server \<Rightarrow> server run" where
  "handle_events w i [] sv = Inr sv"
| "handle_events w i (ev # evs) sv = then_do (handle_event w i ev sv) (handle_events w (Suc i) evs)"

text \<open>Closed slots are filled from the end of the array.\<close>

function compact_fds :: "nat \<Rightarrow> int list \<Rightarrow> int list" where
  "compact_fds i fs =
     (if i < length fs
      then if fs ! i = - 1 then compact_fds i (butlast (fs[i := last fs])) else compact_fds (Suc i) fs
      else fs)"
  by pat_completeness auto
termination
  by (relation "measure (\<lambda>(i, fs). length fs - i)") auto

declare compact_fds.simps [simp del]

definition log_sync :: "world \<Rightarrow> server \<Rightarrow> server run" where
  "log_sync w = log_call (\<lambda>calls d a. map_option (\<lambda>(a, r). (d, a, r)) (sync_if_due calls d a)) w"

text \<open>
  One turn: sync the log if due, handle the events \<open>poll\<close> reports (one entry per slot),
  serve and expire blocked clients, and compact the array. When \<open>poll\<close> is interrupted the
  turn ends after the sync.
\<close>

definition poll_turn :: "world \<Rightarrow> int \<Rightarrow> event list \<Rightarrow> server \<Rightarrow> server run" where
  "poll_turn w now evs sv =
     then_do (log_sync w sv)
       (\<lambda>sv. then_do (handle_events w 0 (take (length (fds sv)) evs) sv)
          (\<lambda>sv. then_do (serve_waiters w sv)
             (\<lambda>sv. let sv = expire_waiters w now sv in Inr (sv\<lparr>fds := compact_fds 1 (fds sv)\<rparr>))))"

section \<open>Start-up\<close>

record start_calls =
  socket_ok :: bool
  reuse_ok :: bool
  nonblocking_ok :: bool
  bind_ok :: bool
  listen_ok :: bool
  files_opened :: open_calls
  replay_envs :: "nat \<Rightarrow> env"
  start_env :: env
  random_draws :: "nat \<Rightarrow> nat"

text \<open>\<open>Server::start\<close>: the store, the log and the disk it leaves, when it returns true.\<close>

definition load_snapshot :: "start_calls \<Rightarrow> Config \<Rightarrow> disk \<Rightarrow> store \<Rightarrow> store" where
  "load_snapshot calls config d s =
     (if cfg_appendonly config \<noteq> ''yes'' \<and> cfg_dir config \<noteq> [] \<and> cfg_dbfilename config \<noteq> []
      then case load_rdb (hget d (cfg_dir config @ ''/'' @ cfg_dbfilename config)) of
             Inl _ \<Rightarrow> s
           | Inr loaded \<Rightarrow> load_entries (start_env calls) loaded s
      else s)"

definition server_start :: "start_calls \<Rightarrow> Config \<Rightarrow> disk \<Rightarrow> (store \<times> Aof \<times> disk) option" where
  "server_start calls config d =
     (if \<not> (socket_ok calls \<and> reuse_ok calls \<and> nonblocking_ok calls \<and> bind_ok calls) then None
      else let s = store_init (random_draws calls) config new_store
        in case aof_open (files_opened calls) config d new_Aof of
             (d, Inl _) \<Rightarrow> None
           | (d, Inr a) \<Rightarrow>
               (case replay (replay_envs calls) d a s of
                  Inl _ \<Rightarrow> None
                | Inr s \<Rightarrow>
                    if listen_ok calls then Some (load_snapshot calls config d s, a, d) else None))"

text \<open>The state \<open>Server::run\<close> enters its loop with; the master's descriptor is negative
  when there is no master connection.\<close>

definition run_start :: "int \<Rightarrow> int \<Rightarrow> int \<Rightarrow> store \<times> Aof \<times> disk \<Rightarrow> server" where
  "run_start listener master master_initial_offset started =
     (case started of
        (s, a, d) \<Rightarrow>
          \<lparr>db = s, aof = a, disk_of = d, server_fd = listener, master_fd = master,
           fds = (if 0 \<le> master then [listener, master] else [listener]), buffers = [],
           clients = (if 0 \<le> master then [(master, (new_client (- 1))\<lparr>authenticated := True\<rparr>)] else []),
           waiters = [], replicas = [], replica_offset = master_initial_offset, outbox = [],
           n_commands = 0, n_sends = 0, n_logs = 0\<rparr>)"

end
