(* ===== verification/Server_Safety.thy ===== *)
theory Server_Safety
  imports Server
begin

text \<open>
  Invariants of the event loop over every reachable state: the tables of connections
  describe the same set of open descriptors, the array of descriptors stays within its
  bounds, and the store stays well-formed. The commands of a connection are run with the
  connection attached to its slot; the loops carry that through.
\<close>

section \<open>Consistent connections\<close>

definition open_fds :: "server \<Rightarrow> int set" where
  "open_fds sv = set (tl (fds sv)) - {- 1}"

definition slots_ok :: "int \<Rightarrow> int list \<Rightarrow> bool" where
  "slots_ok listener fs \<longleftrightarrow> fs \<noteq> [] \<and> hd fs = listener \<and> 0 \<le> listener \<and> length fs \<le> MAX_FDS
     \<and> (\<forall>c \<in> set (tl fs). c \<noteq> listener \<and> - 1 \<le> c) \<and> distinct (filter (\<lambda>c. c \<noteq> - 1) (tl fs))"

definition tables_ok :: "server \<Rightarrow> bool" where
  "tables_ok sv \<longleftrightarrow> hmap_ok (replicas sv) \<and> (\<forall>c. hcontains (clients sv) c \<longleftrightarrow> c \<in> open_fds sv)
     \<and> (\<forall>c. hcontains (replicas sv) c \<longrightarrow> c \<in> open_fds sv) \<and> (\<forall>c. hcontains (buffers sv) c \<longrightarrow> c \<in> open_fds sv)"

definition waiters_ok :: "server \<Rightarrow> bool" where
  "waiters_ok sv \<longleftrightarrow> (\<forall>waiter \<in> set (waiters sv). w_fd waiter \<in> open_fds sv)"

definition conn_ok :: "server \<Rightarrow> bool" where
  "conn_ok sv \<longleftrightarrow> slots_ok (server_fd sv) (fds sv) \<and> tables_ok sv \<and> waiters_ok sv"

lemmas conn_defs = conn_ok_def tables_ok_def waiters_ok_def open_fds_def

text \<open>The connection in slot \<open>i\<close>, while a command of it runs.\<close>

definition attached :: "nat \<Rightarrow> int \<Rightarrow> server \<Rightarrow> bool" where
  "attached i c sv \<longleftrightarrow> conn_ok sv \<and> 1 \<le> i \<and> i < length (fds sv) \<and> fds sv ! i = c \<and> 0 \<le> c"

lemma slot_member: "1 \<le> i \<Longrightarrow> i < length fs \<Longrightarrow> fs ! i \<in> set (tl fs)"
  by (cases fs; cases i) auto

lemma attached_open: "attached i c sv \<Longrightarrow> c \<in> open_fds sv"
  using slot_member [of i "fds sv"] by (auto simp: attached_def open_fds_def)

text \<open>Freeing a slot removes exactly its descriptor.\<close>

lemma distinct_slot:
  assumes "distinct (filter P xs)" "i < length xs" "P (xs ! i)" "\<not> P y"
  shows "filter P (xs[i := y]) = remove1 (xs ! i) (filter P xs) \<and> xs ! i \<notin> set (xs[i := y])"
  using assms
proof (induction xs arbitrary: i)
  case (Cons x xs)
  show ?case
  proof (cases i)
    case 0
    with Cons.prems show ?thesis by (auto split: if_splits)
  next
    case (Suc j)
    with Cons.prems have "P (xs ! j)" "j < length xs" "distinct (filter P xs)" by (auto split: if_splits)
    moreover have "x \<noteq> xs ! j" using Cons.prems Suc by (auto split: if_splits)
    ultimately show ?thesis using Cons.IH [of j] Cons.prems(4) Suc by auto
  qed
qed simp

lemma set_update_slot:
  "distinct (filter (\<lambda>c. c \<noteq> - 1) xs) \<Longrightarrow> i < length xs \<Longrightarrow> xs ! i \<noteq> - 1 \<Longrightarrow>
     set (xs[i := - 1]) - {- 1 :: int} = set xs - {- 1} - {xs ! i}"
  using distinct_slot [of "\<lambda>c. c \<noteq> - 1" xs i "- 1"]
  by (auto dest: set_update_subset_insert [THEN subsetD] simp: set_conv_nth nth_list_update)

lemma slots_ok_free:
  assumes "slots_ok listener fs" "1 \<le> i" "i < length fs" "fs ! i \<noteq> - 1"
  shows "slots_ok listener (fs[i := - 1]) \<and> set (tl (fs[i := - 1])) - {- 1} = set (tl fs) - {- 1} - {fs ! i}"
proof -
  obtain x xs j where fs: "fs = x # xs" "i = Suc j" "j < length xs"
    using assms by (cases fs; cases i) auto
  have "set (xs[j := - 1]) - {- 1} = set xs - {- 1} - {xs ! j}"
    using assms fs by (intro set_update_slot) (auto simp: slots_ok_def)
  moreover have "distinct (filter (\<lambda>c. c \<noteq> - 1) (xs[j := - 1]))"
    using distinct_slot [of "\<lambda>c. c \<noteq> - 1" xs j "- 1"] assms fs by (simp add: slots_ok_def)
  moreover have "\<forall>c \<in> set (xs[j := - 1]). c \<noteq> listener \<and> - 1 \<le> c"
  proof
    fix c
    assume "c \<in> set (xs[j := - 1])"
    then have "c = - 1 \<or> c \<in> set xs" using set_update_subset_insert [of xs j "- 1"] by blast
    then show "c \<noteq> listener \<and> - 1 \<le> c" using assms(1) fs(1) by (auto simp: slots_ok_def)
  qed
  ultimately show ?thesis using assms(1) fs by (simp add: slots_ok_def)
qed

lemma fds_close_client [simp]: "fds (close_client i c sv) = (fds sv)[i := - 1]"
  by (simp add: close_client_def)

lemma close_client_conn:
  assumes "attached i c sv"
  shows "conn_ok (close_client i c sv)"
proof -
  have "slots_ok (server_fd sv) ((fds sv)[i := - 1])"
      "set (tl ((fds sv)[i := - 1])) - {- 1} = set (tl (fds sv)) - {- 1} - {c}"
    using slots_ok_free [of "server_fd sv" "fds sv" i] assms by (auto simp: attached_def conn_ok_def)
  then show ?thesis
    using assms by (auto simp: conn_defs attached_def close_client_def hcontains_def)
qed

section \<open>Commands of an attached connection\<close>

lemma open_frame [simp]:
  "open_fds (sv\<lparr>db := s\<rparr>) = open_fds sv" "open_fds (sv\<lparr>replicas := rs\<rparr>) = open_fds sv"
  "open_fds (sv\<lparr>clients := cs\<rparr>) = open_fds sv" "open_fds (sv\<lparr>buffers := bs\<rparr>) = open_fds sv"
  "open_fds (sv\<lparr>waiters := ws\<rparr>) = open_fds sv" "open_fds (sv\<lparr>n_commands := n\<rparr>) = open_fds sv"
  by (simp_all add: open_fds_def)

lemma conn_frame [simp]:
  "conn_ok (sv\<lparr>db := s\<rparr>) = conn_ok sv" "conn_ok (sv\<lparr>n_commands := n\<rparr>) = conn_ok sv"
  "conn_ok (sv\<lparr>disk_of := d, aof := a, n_logs := n\<rparr>) = conn_ok sv"
  "conn_ok (sv\<lparr>replica_offset := off\<rparr>) = conn_ok sv" "conn_ok (sv\<lparr>master_fd := m\<rparr>) = conn_ok sv"
  by (simp_all add: conn_defs)

lemma conn_put_client: "conn_ok sv \<Longrightarrow> c \<in> open_fds sv \<Longrightarrow> conn_ok (put_client c client sv)"
  by (auto simp: conn_defs put_client_def hcontains_def)

lemma conn_put_buffer: "conn_ok sv \<Longrightarrow> c \<in> open_fds sv \<Longrightarrow> conn_ok (put_buffer c b sv)"
  by (auto simp: conn_defs put_buffer_def hcontains_def)

lemma conn_send_to [simp]: "conn_ok (snd (send_to w lane c payload sv)) = conn_ok sv"
  by (simp add: conn_defs send_to_def case_prod_beta)

lemma fds_send_to [simp]: "fds (snd (send_to w lane c payload sv)) = fds sv"
  by (simp add: send_to_def case_prod_beta)

lemma open_send_to [simp]: "open_fds (snd (send_to w lane c payload sv)) = open_fds sv"
  by (simp add: open_fds_def)

text \<open>Recording a command for an open connection keeps the connections as they are.\<close>

definition keeps_slots :: "int list \<Rightarrow> int \<Rightarrow> server \<Rightarrow> bool" where
  "keeps_slots fs c sv \<longleftrightarrow> conn_ok sv \<and> c \<in> open_fds sv \<and> fds sv = fs"

lemma keeps_slots_send: "keeps_slots fs c sv \<Longrightarrow> keeps_slots fs c (snd (send_to w lane x payload sv))"
  by (simp add: keeps_slots_def)

interpretation conn_rec: queueing "keeps_slots fs c" c for fs c
proof unfold_locales
  fix sv w x payload
  assume I: "keeps_slots fs c sv"
  show "keeps_slots fs c (snd (send_to w Replication x payload sv))" using I by (rule keeps_slots_send)
  show "keeps_slots fs c (sv\<lparr>replicas := herase x (replicas sv)\<rparr>)"
    using I by (auto simp: keeps_slots_def conn_defs hcontains_def)
  show "keeps_slots fs c (sv\<lparr>db := bump_repl_offset n (db sv)\<rparr>)" for n using I by (simp add: keeps_slots_def)
  show "keeps_slots fs c (sv\<lparr>db := (db sv)\<lparr>pending_propagations := []\<rparr>\<rparr>)" using I by (simp add: keeps_slots_def)
  show "keeps_slots fs c (note_offset c sv)"
    using I by (simp add: keeps_slots_def note_offset_def conn_put_client) (simp add: put_client_def)
  show "keeps_slots fs c (sv\<lparr>disk_of := d, aof := a, n_logs := n\<rparr>)" for d a n
    using I by (auto simp: keeps_slots_def conn_defs)
qed

lemma run_command_conn:
  "keeps_slots fs c sv \<Longrightarrow> keeps_slots fs c (fst (run_command w c args sv))"
  using conn_put_client [of "sv\<lparr>db := s, n_commands := n\<rparr>" c for s n]
  by (auto simp: keeps_slots_def run_command_def put_client_def split: prod.split)

text \<open>Delivering messages may close connections; their slots become free.\<close>

definition slots_freed :: "int list \<Rightarrow> int list \<Rightarrow> bool" where
  "slots_freed fs fs' \<longleftrightarrow> length fs' = length fs \<and> (\<forall>j < length fs. fs' ! j = fs ! j \<or> fs' ! j = - 1)"

lemma slots_freed_refl [simp]: "slots_freed fs fs"
  by (simp add: slots_freed_def)

lemma slots_freed_trans: "slots_freed fs gs \<Longrightarrow> slots_freed gs hs \<Longrightarrow> slots_freed fs hs"
  unfolding slots_freed_def by metis

lemma slots_freed_update [simp]: "slots_freed fs (fs[i := - 1])"
  unfolding slots_freed_def by (simp, metis nth_list_update_eq nth_list_update_neq)

lemma slot_of_Some: "slot_of c fs = Some j \<Longrightarrow> 1 \<le> j \<and> j < length fs \<and> fs ! j = c"
proof -
  assume "slot_of c fs = Some j"
  then obtain rest where "filter (\<lambda>i. fs ! i = c) [1..<length fs] = j # rest"
    by (auto simp: slot_of_def split: list.splits)
  then have "j \<in> set (filter (\<lambda>i. fs ! i = c) [1..<length fs])" by simp
  then show ?thesis by simp
qed

lemma close_nobody:
  assumes "conn_ok sv" "j < length (fds sv)" "fds sv ! j = - 1"
  shows "conn_ok (close_client j (- 1) sv)"
proof -
  have "(fds sv)[j := - 1] = fds sv" using assms(2,3) by (metis list_update_id)
  with assms(1) show ?thesis by (auto simp: conn_defs close_client_def hcontains_def)
qed

lemma close_slot:
  assumes "conn_ok sv" "slot_of c (fds sv) = Some j"
  shows "conn_ok (close_client j c sv)"
proof (cases "0 \<le> c")
  case True
  with assms slot_of_Some show ?thesis by (intro close_client_conn) (auto simp: attached_def)
next
  case False
  have "c \<in> set (tl (fds sv))" using slot_of_Some [OF assms(2)] slot_member by blast
  with assms(1) have "- 1 \<le> c" by (simp add: conn_ok_def slots_ok_def)
  with False have "c = - 1" by simp
  with assms(1) slot_of_Some [OF assms(2)] show ?thesis by (simp add: close_nobody)
qed

lemma deliver_conn:
  "conn_ok sv \<Longrightarrow> conn_ok (deliver w ms sv) \<and> slots_freed (fds sv) (fds (deliver w ms sv))"
proof (induction ms arbitrary: sv)
  case (Cons m ms)
  obtain c message where m: "m = (c, message)" by fastforce
  obtain ok sv1 where s: "send_to w Message c message sv = (ok, sv1)" by fastforce
  then have sv1: "conn_ok sv1" "fds sv1 = fds sv"
    using Cons.prems conn_send_to [of w Message c message sv] fds_send_to [of w Message c message sv] by simp_all
  show ?case
  proof (cases "slot_of c (fds sv)")
    case None
    with Cons show ?thesis by (simp add: m)
  next
    case (Some j)
    with sv1 have closed: "conn_ok (close_client j c sv1)" by (simp add: close_slot)
    show ?thesis
    proof (cases ok)
      case True
      with Cons.IH [of sv1] sv1 Some show ?thesis by (simp add: m s)
    next
      case False
      with Cons.IH [OF closed] sv1 Some show ?thesis
        using slots_freed_trans [of "fds sv" "(fds sv)[j := - 1]"] by (simp add: m s)
    qed
  qed
qed simp

lemma deliver_messages_conn:
  "conn_ok sv \<Longrightarrow> conn_ok (deliver_messages w sv) \<and> slots_freed (fds sv) (fds (deliver_messages w sv))"
  using deliver_conn [of "sv\<lparr>db := s\<rparr>" w for s] by (simp add: deliver_messages_def take_pending_messages_def)

text \<open>The outcome of a command of the connection in slot \<open>i\<close>: when it goes on, it still has its slot.\<close>

definition outcome_ok :: "nat \<Rightarrow> int \<Rightarrow> int list \<Rightarrow> server \<times> bool \<Rightarrow> bool" where
  "outcome_ok i c fs out \<longleftrightarrow> conn_ok (fst out) \<and> slots_freed fs (fds (fst out)) \<and> (snd out \<longrightarrow> fds (fst out) ! i = c)"

lemma attached_keeps: "attached i c sv \<Longrightarrow> keeps_slots (fds sv) c sv"
  using attached_open [of i c sv] by (simp add: keeps_slots_def attached_def)

lemma keeps_attached: "keeps_slots (fds sv) c sv' \<Longrightarrow> attached i c sv \<Longrightarrow> attached i c sv'"
  by (simp add: keeps_slots_def attached_def)

lemma close_outcome: "attached i c sv \<Longrightarrow> fds sv = fs \<Longrightarrow> outcome_ok i c fs (close_client i c sv, False)"
  by (simp add: outcome_ok_def close_client_conn)

lemma finish_command_conn:
  assumes "attached i c sv"
  shows "outcome_ok i c (fds sv) (finish_command w i c sv)"
proof -
  let ?sv = "deliver_messages w sv"
  have d: "conn_ok ?sv" "slots_freed (fds sv) (fds ?sv)"
    using deliver_messages_conn assms by (simp_all add: attached_def)
  show ?thesis
  proof (cases "fds ?sv ! i < 0")
    case True
    with d show ?thesis by (simp add: finish_command_def Let_def outcome_ok_def)
  next
    case False
    with d assms have "fds ?sv ! i = c" "i < length (fds ?sv)" by (auto simp: slots_freed_def attached_def)
    with d(1) assms have "attached i c ?sv" by (simp add: attached_def)
    with d False show ?thesis
      by (auto simp: finish_command_def Let_def outcome_ok_def close_client_conn attached_def
          intro: slots_freed_trans)
  qed
qed

lemma block_client_conn:
  assumes "keeps_slots fs c sv"
  shows "keeps_slots fs c (block_client w env c block sv)"
proof -
  have "keeps_slots fs c (sv'\<lparr>waiters := waiters sv' @ [new_waiter env c block n]\<rparr>)"
    if "keeps_slots fs c sv'" for sv' n
    using that by (auto simp: keeps_slots_def conn_defs new_waiter_def)
  with assms keeps_slots_send conn_rec.send_to_replicas show ?thesis
    by (simp add: block_client_def Let_def)
qed

lemma answer_command_conn:
  assumes "attached i c sv"
  shows "outcome_ok i c (fds sv) (answer_command w env i c response sv)"
proof -
  let ?sv = "sv\<lparr>db := (db sv)\<lparr>pending_block := None\<rparr>\<rparr>"
  have a: "attached i c ?sv" using assms by (simp add: attached_def)
  have "attached i c (block_client w env c block ?sv)" for block
    using keeps_attached [OF _ a] block_client_conn [OF attached_keeps [OF a]] by simp
  moreover have "fds (block_client w env c block ?sv) = fds sv" for block
    using block_client_conn [OF attached_keeps [OF a]] by (simp add: keeps_slots_def)
  moreover obtain ok sv1 where s: "send_to w Answer c response ?sv = (ok, sv1)" by fastforce
  moreover have "attached i c sv1" "fds sv1 = fds sv"
    using keeps_slots_send [OF attached_keeps [OF a], of w Answer c response] keeps_attached [OF _ a]
    by (simp_all add: s) (simp add: keeps_slots_def)
  ultimately show ?thesis
    using finish_command_conn [OF a, of w] finish_command_conn [of i c "block_client w env c block ?sv" w for block]
      finish_command_conn [of i c sv1 w] close_outcome [of i c sv1 "fds sv"]
    by (auto simp: answer_command_def take_pending_block_def split: option.split)
qed

lemma note_ack_conn: "keeps_slots fs c sv \<Longrightarrow> keeps_slots fs c (note_ack c t sv)"
  by (auto simp: keeps_slots_def note_ack_def conn_defs hcontains_def split: option.split sum.split)

lemma register_replica_conn: "keeps_slots fs c sv \<Longrightarrow> keeps_slots fs c (register_replica c args m r sv)"
  by (auto simp: keeps_slots_def register_replica_def conn_defs hcontains_def)

lemma client_command_conn:
  assumes "attached i c sv" "client_command w i c args sv = Inr out"
  shows "outcome_ok i c (fds sv) out"
proof (cases "is_ack c args sv")
  case True
  with assms note_ack_conn [OF attached_keeps [OF assms(1)], of "args ! 2"] show ?thesis
    by (auto simp: client_command_def outcome_ok_def keeps_slots_def attached_def)
next
  case False
  let ?m = "in_multi (client_at sv c)" and ?env = "world_env w (n_commands sv)"
  obtain sv1 response where r: "run_command w c args sv = (sv1, response)" by fastforce
  have "keeps_slots (fds sv) c (register_replica c args ?m response sv1)"
    using run_command_conn [OF attached_keeps [OF assms(1)], of w args] r by (simp add: register_replica_conn)
  moreover obtain sv2 sv3 where 3: "record_write w c args ?m response (register_replica c args ?m response sv1) = Inr sv2"
      "record_pending w c ?m sv2 = Inr sv3" "out = answer_command w ?env i c response sv3"
    using assms(2) False by (auto simp: client_command_def Let_def r then_do_Inr)
  ultimately have k: "keeps_slots (fds sv) c sv3"
    using conn_rec.record_write conn_rec.record_pending by blast
  then have "attached i c sv3" "fds sv3 = fds sv" using keeps_attached assms(1) by (auto simp: keeps_slots_def)
  with answer_command_conn [of i c sv3] 3(3) show ?thesis by simp
qed

section \<open>The receive loops\<close>

lemma attached_put_buffer: "attached i c sv \<Longrightarrow> attached i c (put_buffer c b sv)"
  using conn_put_buffer [of sv c b] attached_open [of i c sv] by (simp add: attached_def) (simp add: put_buffer_def)

lemma fds_put_buffer [simp]: "fds (put_buffer c b sv) = fds sv"
  by (simp add: put_buffer_def)

lemma outcome_attached:
  "outcome_ok i c (fds sv) (sv', True) \<Longrightarrow> attached i c sv \<Longrightarrow> attached i c sv'"
  by (auto simp: outcome_ok_def attached_def slots_freed_def)

lemma outcome_trans:
  "slots_freed fs (fds sv) \<Longrightarrow> outcome_ok i c (fds sv) out \<Longrightarrow> outcome_ok i c fs out"
  by (auto simp: outcome_ok_def intro: slots_freed_trans)

lemma client_drain_conn:
  "attached i c sv \<Longrightarrow> client_drain w i c sv = Inr out \<Longrightarrow> outcome_ok i c (fds sv) out"
proof (induction w i c sv rule: client_drain.induct)
  case (1 w i c sv)
  show ?case
  proof (cases "parse_command (buffer_at sv c)")
    case (Inl e)
    with 1(2,3) show ?thesis by (cases e) (auto simp: client_drain.simps [of w i c sv] close_outcome)
  next
    case (Inr x)
    show ?thesis
    proof (cases x)
      case None
      with Inr 1(2,3) show ?thesis by (auto simp: client_drain.simps [of w i c sv] outcome_ok_def attached_def)
    next
      case (Some p)
      obtain args consumed where p: "p = (args, consumed)" by fastforce
      let ?sv = "put_buffer c (drop consumed (buffer_at sv c)) sv"
      obtain sv1 go where cc: "client_command w i c args ?sv = Inr (sv1, go)"
        using 1(3) Inr Some p by (auto simp: client_drain.simps [of w i c sv] split: sum.splits)
      have o: "outcome_ok i c (fds sv) (sv1, go)"
        using client_command_conn [OF attached_put_buffer [OF 1(2)] cc] by simp
      show ?thesis
      proof (cases go)
        case True
        then have "attached i c sv1" using outcome_attached [of i c sv sv1] o 1(2) by simp
        moreover have "client_drain w i c sv1 = Inr out"
          using 1(3) Inr Some p cc True by (simp add: client_drain.simps [of w i c sv])
        ultimately have "outcome_ok i c (fds sv1) out"
          by (rule 1(1) [OF Inr Some p [symmetric] cc refl True])
        moreover have "slots_freed (fds sv) (fds sv1)" using o by (simp add: outcome_ok_def)
        ultimately show ?thesis using outcome_trans by blast
      next
        case False
        with 1(3) Inr Some p cc o show ?thesis by (simp add: client_drain.simps [of w i c sv])
      qed
    qed
  qed
qed

lemma master_command_conn:
  assumes "keeps_slots fs c sv" "master_command w c args consumed sv = Inr sv'"
  shows "keeps_slots fs c sv'"
proof -
  have adv: "keeps_slots fs c (advance_offset n sv)" if "keeps_slots fs c sv" for n sv
    using that by (auto simp: keeps_slots_def advance_offset_def open_fds_def)
  show ?thesis
  proof (cases "is_getack args")
    case True
    with assms show ?thesis by (auto simp: master_command_def adv keeps_slots_send)
  next
    case False
    let ?m = "in_multi (client_at sv c)"
    obtain sv1 response where r: "run_command w c args (advance_offset consumed sv) = (sv1, response)" by fastforce
    with run_command_conn [OF adv [OF assms(1)], of w args consumed] have 1: "keeps_slots fs c sv1" by simp
    obtain sv2 sv3 where 3: "log_write w args ?m response sv1 = Inr sv2"
        "log_pending w ?m (pending_propagations (db sv2)) (sv2\<lparr>db := (db sv2)\<lparr>pending_propagations := []\<rparr>\<rparr>) = Inr sv3"
        "sv' = sv3\<lparr>db := (db sv3)\<lparr>pending_block := None\<rparr>\<rparr>"
      using assms(2) False
      by (auto simp: master_command_def Let_def r then_do_Inr take_pending_propagations_def take_pending_block_def)
    have "keeps_slots fs c sv2"
      using 3(1) conn_rec.log_command [OF 1] 1 by (auto simp: log_write_def split: if_splits)
    from conn_rec.log_pending [OF conn_rec.takes [OF this] 3(2)] 3(3) show ?thesis by (simp add: keeps_slots_def)
  qed
qed

lemma lose_master_conn: "attached i c sv \<Longrightarrow> fds sv = fs \<Longrightarrow> outcome_ok i c fs (lose_master i c sv, False)"
  using close_outcome [of i c sv fs] by (simp add: lose_master_def outcome_ok_def)

lemma master_drain_conn:
  "attached i c sv \<Longrightarrow> master_drain w i c sv = Inr out \<Longrightarrow> outcome_ok i c (fds sv) out"
proof (induction w i c sv rule: master_drain.induct)
  case (1 w i c sv)
  show ?case
  proof (cases "parse_command (buffer_at sv c)")
    case (Inl e)
    with 1(2,3) show ?thesis by (cases e) (auto simp: master_drain.simps [of w i c sv] lose_master_conn)
  next
    case (Inr x)
    show ?thesis
    proof (cases x)
      case None
      with Inr 1(2,3) show ?thesis by (auto simp: master_drain.simps [of w i c sv] outcome_ok_def attached_def)
    next
      case (Some p)
      obtain args consumed where p: "p = (args, consumed)" by fastforce
      let ?sv = "put_buffer c (drop consumed (buffer_at sv c)) sv"
      obtain sv1 where mc: "master_command w c args consumed ?sv = Inr sv1" "master_drain w i c sv1 = Inr out"
        using 1(3) Inr Some p by (auto simp: master_drain.simps [of w i c sv] split: sum.splits)
      have k: "keeps_slots (fds sv) c sv1"
        using master_command_conn [OF attached_keeps [OF attached_put_buffer [OF 1(2)]] mc(1)] by simp
      then have "attached i c sv1" "fds sv1 = fds sv" using keeps_attached 1(2) by (auto simp: keeps_slots_def)
      with 1(1) [OF Inr Some p [symmetric] mc(1)] mc(2) show ?thesis by simp
    qed
  qed
qed

lemma client_recv_conn:
  "attached i c sv \<Longrightarrow> client_recv w i c rs sv = Inr sv' \<Longrightarrow> conn_ok sv' \<and> slots_freed (fds sv) (fds sv')"
proof (induction rs arbitrary: sv)
  case Nil
  then show ?case by (simp add: attached_def)
next
  case (Cons r rs)
  show ?case
  proof (cases r)
    case (Received chunk)
    let ?sv = "put_buffer c (buffer_at sv c @ chunk) sv"
    obtain sv1 go where d: "client_drain w i c ?sv = Inr (sv1, go)" "(if go then client_recv w i c rs sv1 else Inr sv1) = Inr sv'"
      using Cons.prems(2) Received by (auto simp: then_do_Inr)
    have o: "outcome_ok i c (fds sv) (sv1, go)"
      using client_drain_conn [OF attached_put_buffer [OF Cons.prems(1)] d(1)] by simp
    show ?thesis
    proof (cases go)
      case True
      then have "attached i c sv1" using outcome_attached [of i c sv sv1] o Cons.prems(1) by simp
      with Cons.IH [of sv1] d(2) True o show ?thesis
        by (auto simp: outcome_ok_def intro: slots_freed_trans)
    qed (use d o in \<open>auto simp: outcome_ok_def\<close>)
  qed (use Cons close_client_conn in \<open>auto simp: attached_def\<close>)
qed

lemma publish_offset_frame [simp]: "conn_ok (publish_offset sv) = conn_ok sv" "fds (publish_offset sv) = fds sv"
  by (simp_all add: publish_offset_def)

lemma attached_publish_offset [simp]: "attached i c (publish_offset sv) = attached i c sv"
  by (simp add: attached_def)

lemma master_recv_conn:
  "attached i c sv \<Longrightarrow> master_recv w i c rs sv = Inr sv' \<Longrightarrow> conn_ok sv' \<and> slots_freed (fds sv) (fds sv')"
proof (induction rs arbitrary: sv)
  case Nil
  then show ?case by (simp add: attached_def)
next
  case (Cons r rs)
  show ?case
  proof (cases r)
    case (Received chunk)
    let ?sv = "put_buffer c (buffer_at sv c @ chunk) sv"
    obtain sv1 go where d: "master_drain w i c ?sv = Inr (sv1, go)"
        "(if go then master_recv w i c rs (publish_offset sv1) else Inr (publish_offset sv1)) = Inr sv'"
      using Cons.prems(2) Received by (auto simp: then_do_Inr)
    have o: "outcome_ok i c (fds sv) (sv1, go)"
      using master_drain_conn [OF attached_put_buffer [OF Cons.prems(1)] d(1)] by simp
    show ?thesis
    proof (cases go)
      case True
      then have "attached i c sv1" using outcome_attached [of i c sv sv1] o Cons.prems(1) by simp
      with Cons.IH [of "publish_offset sv1"] d(2) True o show ?thesis
        by (auto simp: outcome_ok_def intro: slots_freed_trans)
    qed (use d o in \<open>auto simp: outcome_ok_def\<close>)
  qed (use Cons lose_master_conn [of i c sv "fds sv"] in \<open>auto simp: outcome_ok_def\<close>)
qed

section \<open>Accepting connections\<close>

text \<open>
  The system gives out descriptors that are not in use: when a connection is accepted its
  descriptor is none of those in the array.
\<close>

fun fresh_accepts :: "accept_result list \<Rightarrow> int list \<Rightarrow> bool" where
  "fresh_accepts [] fs = True"
| "fresh_accepts (AcceptInterrupted # rs) fs = fresh_accepts rs fs"
| "fresh_accepts (AcceptFailed # rs) fs = True"
| "fresh_accepts (Accepted c nonblocking # rs) fs \<longleftrightarrow> 0 \<le> c \<and> c \<notin> set fs
     \<and> (if \<not> nonblocking \<or> length fs = MAX_FDS then fresh_accepts rs fs else fresh_accepts rs (fs @ [c]))"

lemma add_client_conn:
  assumes "conn_ok sv" "0 \<le> c" "c \<notin> set (fds sv)" "length (fds sv) \<noteq> MAX_FDS"
  shows "conn_ok (add_client c sv)" "fds (add_client c sv) = fds sv @ [c]"
proof -
  obtain x xs where fs: "fds sv = x # xs" using assms(1) by (cases "fds sv") (auto simp: conn_ok_def slots_ok_def)
  show "conn_ok (add_client c sv)"
    using assms by (auto simp: conn_defs slots_ok_def add_client_def put_client_def hcontains_def fs)
  show "fds (add_client c sv) = fds sv @ [c]" by (simp add: add_client_def put_client_def)
qed

lemma accept_loop_conn:
  "conn_ok sv \<Longrightarrow> fresh_accepts rs (fds sv) \<Longrightarrow>
     conn_ok (accept_loop rs sv) \<and> (\<exists>new. fds (accept_loop rs sv) = fds sv @ new)"
proof (induction rs sv rule: accept_loop.induct)
  case (4 c nonblocking rs sv)
  show ?case
  proof (cases "\<not> nonblocking \<or> length (fds sv) = MAX_FDS")
    case True
    with 4 show ?thesis by auto
  next
    case False
    with 4 have "conn_ok (add_client c sv)" "fds (add_client c sv) = fds sv @ [c]"
      using add_client_conn by auto
    with 4 False show ?thesis by auto
  qed
qed auto

section \<open>Compaction\<close>

lemma mset_fill_slot:
  assumes "j < length xs" "xs ! j = a"
  shows "mset (butlast (xs[j := last xs])) = mset xs - {#a#}"
proof -
  let ?ys = "xs[j := last xs]"
  have ne: "xs \<noteq> []" "?ys \<noteq> []" using assms(1) by auto
  have l: "last ?ys = last xs" using ne assms(1) by (simp add: last_conv_nth nth_list_update)
  have "mset (butlast ?ys) = mset ?ys - {#last ?ys#}"
    using append_butlast_last_id [OF ne(2)] by (metis add_diff_cancel_right' mset_append mset_single_iff_right mset.simps)
  with l assms show ?thesis by (simp add: mset_update)
qed

lemma compact_open:
  "1 \<le> i \<Longrightarrow> slots_ok listener fs \<Longrightarrow>
     slots_ok listener (compact_fds i fs) \<and> set (tl (compact_fds i fs)) - {- 1} = set (tl fs) - {- 1}"
proof (induction i fs rule: compact_fds.induct)
  case (1 i fs)
  show ?case
  proof (cases "i < length fs \<and> fs ! i = - 1")
    case True
    obtain x xs j where fs: "fs = x # xs" "i = Suc j" "j < length xs" "xs ! j = - 1"
      using True 1(3) by (cases fs; cases i) auto
    define ys where "ys = butlast (xs[j := last xs])"
    have gs: "butlast (fs[i := last fs]) = x # ys" using fs by (auto simp: ys_def)
    have m: "mset ys = mset xs - {#- 1#}" unfolding ys_def by (rule mset_fill_slot [OF fs(3,4)])
    have sub: "set ys \<subseteq> set xs" using m by (metis in_diffD set_mset_mset subsetI)
    have f: "mset (filter (\<lambda>c. c \<noteq> - 1) ys) = mset (filter (\<lambda>c. c \<noteq> - 1) xs)"
      by (simp add: mset_filter m)
    then have "set (filter (\<lambda>c. c \<noteq> - 1) ys) = set (filter (\<lambda>c. c \<noteq> - 1) xs)" by (rule mset_eq_setD)
    then have s: "set ys - {- 1} = set xs - {- 1}" by auto
    have "length ys \<le> length xs" by (simp add: ys_def)
    with 1(4) fs sub f have "slots_ok listener (x # ys)"
      using mset_eq_imp_distinct_iff [OF f] by (auto simp: slots_ok_def)
    moreover have "compact_fds i fs = compact_fds i (x # ys)"
      using True gs by (simp add: compact_fds.simps [of i fs])
    ultimately show ?thesis using 1(1) [unfolded gs] True 1(3) s fs(1) by simp
  next
    case False
    with 1 show ?thesis by (auto simp: compact_fds.simps [of i fs])
  qed
qed

text \<open>Afterwards no slot is free.\<close>

lemma compact_full:
  "(\<forall>j. 1 \<le> j \<and> j < i \<and> j < length fs \<longrightarrow> fs ! j \<noteq> - 1) \<Longrightarrow> 1 \<le> i \<Longrightarrow>
     1 \<le> j \<Longrightarrow> j < length (compact_fds i fs) \<Longrightarrow> compact_fds i fs ! j \<noteq> - 1"
proof (induction i fs rule: compact_fds.induct)
  case (1 i fs)
  show ?case
  proof (cases "i < length fs \<and> fs ! i = - 1")
    case True
    have "\<forall>k. 1 \<le> k \<and> k < i \<and> k < length (butlast (fs[i := last fs])) \<longrightarrow> butlast (fs[i := last fs]) ! k \<noteq> - 1"
      using 1(3) True by (auto simp: nth_butlast nth_list_update)
    moreover have "compact_fds i fs = compact_fds i (butlast (fs[i := last fs]))" using True by (simp add: compact_fds.simps [of i fs])
    ultimately show ?thesis using 1(1) True 1(4,5,6) by simp
  next
    case False
    show ?thesis
    proof (cases "i < length fs")
      case True
      with False 1(3) have "\<forall>k. 1 \<le> k \<and> k < Suc i \<and> k < length fs \<longrightarrow> fs ! k \<noteq> - 1" by (auto simp: less_Suc_eq)
      with 1(2) True False 1(4,5,6) show ?thesis by (simp add: compact_fds.simps [of i fs])
    next
      case False
      with 1(3,5,6) show ?thesis by (simp add: compact_fds.simps [of i fs])
    qed
  qed
qed

section \<open>A whole turn keeps the connections consistent\<close>

lemma slot_attached:
  "conn_ok sv \<Longrightarrow> 1 \<le> i \<Longrightarrow> i < length (fds sv) \<Longrightarrow> 0 \<le> fds sv ! i \<Longrightarrow> attached i (fds sv ! i) sv"
  by (simp add: attached_def)

lemma slot_not_listener:
  "conn_ok sv \<Longrightarrow> 1 \<le> i \<Longrightarrow> i < length (fds sv) \<Longrightarrow> fds sv ! i \<noteq> server_fd sv"
  using slot_member [of i "fds sv"] by (auto simp: conn_ok_def slots_ok_def)

lemma listener_slot: "conn_ok sv \<Longrightarrow> fds sv ! 0 = server_fd sv \<and> 0 \<le> server_fd sv"
  by (auto simp: conn_ok_def slots_ok_def hd_conv_nth)

lemma server_fd_accept [simp]: "server_fd (accept_loop rs sv) = server_fd sv"
  by (induction rs sv rule: accept_loop.induct) (simp_all add: add_client_def put_client_def)

lemma handle_event_conn:
  assumes "conn_ok sv" "i < length (fds sv)" "i = 0 \<longrightarrow> fresh_accepts (ev_accepts ev) (fds sv)"
    and "handle_event w i ev sv = Inr sv'"
  shows "conn_ok sv' \<and> length (fds sv) \<le> length (fds sv')"
proof (cases "i = 0")
  case True
  have "accept_loop (ev_accepts ev) sv = sv' \<or> sv' = sv"
    using assms(4) True listener_slot [OF assms(1)]
      listener_slot [of "accept_loop (ev_accepts ev) sv"] accept_loop_conn [OF assms(1)] assms(3)
    by (auto simp: handle_event_def Let_def nth_append then_do_def split: if_splits)
  with accept_loop_conn [OF assms(1)] assms(1,3) True show ?thesis by (metis le_add1 length_append order_refl)
next
  case False
  let ?c = "fds sv ! i"
  show ?thesis
  proof (cases "?c < 0 \<or> \<not> ev_in ev \<and> \<not> ev_error ev")
    case True
    with assms show ?thesis by (simp add: handle_event_def Let_def)
  next
    case open_slot: False
    with False assms have a: "attached i ?c sv" by (intro slot_attached) auto
    have nl: "?c \<noteq> server_fd sv" using slot_not_listener [of sv i] assms(1,2) False by simp
    let ?recv = "if \<not> ev_in ev then Inr sv else if ?c = server_fd sv then Inr (accept_loop (ev_accepts ev) sv)
        else if ?c = master_fd sv then master_recv w i ?c (ev_recvs ev) sv
        else client_recv w i ?c (ev_recvs ev) sv"
    let ?close = "\<lambda>sv. Inr (if ev_error ev \<and> ?c \<noteq> server_fd sv \<and> 0 \<le> fds sv ! i then close_client i ?c sv else sv)"
    have "then_do ?recv ?close = Inr sv'"
      using assms(4) unfolding handle_event_def Let_def if_not_P [OF open_slot] .
    then obtain sv1 where sv1: "?recv = Inr sv1"
      "sv' = (if ev_error ev \<and> ?c \<noteq> server_fd sv1 \<and> 0 \<le> fds sv1 ! i then close_client i ?c sv1 else sv1)"
      unfolding then_do_Inr sum.inject by blast
    have 1: "conn_ok sv1" "slots_freed (fds sv) (fds sv1)"
      using sv1(1) client_recv_conn [OF a] master_recv_conn [OF a] assms(1) nl by (auto split: if_splits)
    then have "0 \<le> fds sv1 ! i \<Longrightarrow> attached i ?c sv1"
      using assms(2) False open_slot by (auto simp: slots_freed_def attached_def)
    with 1 sv1(2) close_client_conn [of i ?c sv1] show ?thesis by (auto simp: slots_freed_def)
  qed
qed

lemma handle_events_conn:
  "conn_ok sv \<Longrightarrow> i + length evs \<le> length (fds sv) \<Longrightarrow>
     (i = 0 \<and> evs \<noteq> [] \<longrightarrow> fresh_accepts (ev_accepts (hd evs)) (fds sv)) \<Longrightarrow>
     handle_events w i evs sv = Inr sv' \<Longrightarrow> conn_ok sv'"
proof (induction evs arbitrary: i sv)
  case (Cons ev evs)
  obtain sv1 where h: "handle_event w i ev sv = Inr sv1" "handle_events w (Suc i) evs sv1 = Inr sv'"
    using Cons.prems(4) by (auto simp: then_do_Inr)
  have "conn_ok sv1 \<and> length (fds sv) \<le> length (fds sv1)"
    using Cons.prems h(1) by (intro handle_event_conn [of sv i ev w]) auto
  with Cons.IH [of sv1 "Suc i"] Cons.prems(2) h(2) show ?case by simp
qed simp

lemma retry_waiter_conn:
  assumes "keeps_slots fs (w_fd waiter) sv" "retry_waiter w waiter sv = Inr (sv', reply)"
  shows "keeps_slots fs (w_fd waiter) sv'"
proof (cases "w_kind waiter")
  case BlockList
  obtain s popped where t: "try_blpop (w_keys waiter) (db sv) = (s, popped)" by fastforce
  have k: "keeps_slots fs (w_fd waiter) (sv\<lparr>db := s\<rparr>)" for s using assms(1) by (simp add: keeps_slots_def)
  show ?thesis
  proof (cases popped)
    case None
    with assms(2) BlockList t k show ?thesis by (auto simp: retry_waiter_def)
  next
    case (Some kv)
    obtain key v where kv: "kv = (key, v)" by fastforce
    with assms(2) BlockList t Some obtain cmds s' where
      "record_each w (w_fd waiter) cmds (sv\<lparr>db := s'\<rparr>) = Inr sv'"
      by (auto simp: retry_waiter_def take_pending_propagations_def then_do_Inr)
    then show ?thesis by (rule conn_rec.record_each [OF k])
  qed
qed (use assms in \<open>auto simp: retry_waiter_def Let_def split: sum.splits\<close>)

lemma serve_loop_conn:
  "conn_ok sv \<Longrightarrow> \<forall>x \<in> set ws. w_fd x \<in> open_fds sv \<Longrightarrow> serve_loop w ws sv = Inr (kept, sv') \<Longrightarrow>
     conn_ok sv' \<and> fds sv' = fds sv \<and> set kept \<subseteq> set ws"
proof (induction ws arbitrary: sv kept)
  case (Cons x ws)
  obtain sv1 reply where r: "retry_waiter w x sv = Inr (sv1, reply)"
    using Cons.prems(3) by (auto simp: then_do_Inr)
  have "keeps_slots (fds sv) (w_fd x) sv1"
    using retry_waiter_conn [OF _ r] Cons.prems(1,2) by (simp add: keeps_slots_def)
  then have 1: "conn_ok sv1" "fds sv1 = fds sv" "open_fds sv1 = open_fds sv"
    by (simp_all add: keeps_slots_def open_fds_def)
  show ?case
  proof (cases reply)
    case None
    with Cons.prems(3) r obtain kept' where "serve_loop w ws sv1 = Inr (kept', sv')" "kept = x # kept'"
      by (auto simp: then_do_Inr)
    with Cons.IH [of sv1 kept'] 1 Cons.prems(2) show ?thesis by auto
  next
    case (Some response)
    let ?sv = "snd (send_to w Answer (w_fd x) response sv1)"
    have "serve_loop w ws ?sv = Inr (kept, sv')" using Cons.prems(3) r Some by simp
    with Cons.IH [of ?sv kept] 1 Cons.prems(2) show ?thesis by auto
  qed
qed simp

lemma expire_loop_conn:
  "conn_ok sv \<Longrightarrow> expire_loop w now ws sv = (kept, sv') \<Longrightarrow>
     conn_ok sv' \<and> fds sv' = fds sv \<and> set kept \<subseteq> set ws \<and> waiters sv' = waiters sv"
proof (induction ws arbitrary: sv kept)
  case (Cons x ws)
  show ?case
  proof (cases "overdue now x")
    case True
    let ?sv = "snd (send_to w Answer (w_fd x) (timeout_reply x sv) sv)"
    have "waiters ?sv = waiters sv" by (simp add: send_to_def case_prod_beta)
    with Cons.IH [of ?sv kept] Cons.prems True show ?thesis by auto
  next
    case False
    with Cons.prems obtain kept' where "expire_loop w now ws sv = (kept', sv')" "kept = x # kept'"
      by (auto split: prod.splits)
    with Cons.IH [of sv kept'] Cons.prems(1) show ?thesis by auto
  qed
qed simp

lemma conn_fewer_waiters:
  "conn_ok sv \<Longrightarrow> fds sv = fs \<Longrightarrow> \<forall>x \<in> set ws. w_fd x \<in> set (tl fs) - {- 1} \<Longrightarrow> conn_ok (sv\<lparr>waiters := ws\<rparr>)"
  by (auto simp: conn_defs)

lemma log_call_frame: "log_call operation w sv = Inr sv' \<Longrightarrow> conn_ok sv' = conn_ok sv \<and> fds sv' = fds sv \<and> db sv' = db sv"
  by (auto simp: log_call_def split: option.splits sum.splits)

definition events_ok :: "event list \<Rightarrow> server \<Rightarrow> bool" where
  "events_ok evs sv \<longleftrightarrow> (evs \<noteq> [] \<longrightarrow> fresh_accepts (ev_accepts (hd evs)) (fds sv))"

lemma poll_turn_conn:
  assumes "conn_ok sv" "events_ok evs sv" "poll_turn w now evs sv = Inr sv'"
  shows "conn_ok sv' \<and> (\<forall>c \<in> set (tl (fds sv')). 0 \<le> c)"
proof -
  obtain sv1 sv2 sv3 where t: "log_sync w sv = Inr sv1"
      "handle_events w 0 (take (length (fds sv1)) evs) sv1 = Inr sv2" "serve_waiters w sv2 = Inr sv3"
      "sv' = (expire_waiters w now sv3)\<lparr>fds := compact_fds 1 (fds (expire_waiters w now sv3))\<rparr>"
    using assms(3) by (auto simp: poll_turn_def Let_def then_do_Inr)
  have 1: "conn_ok sv1" "fds sv1 = fds sv"
    using log_call_frame [OF t(1) [unfolded log_sync_def]] assms(1) by simp_all
  have 2: "conn_ok sv2"
    by (rule handle_events_conn [OF 1(1) _ _ t(2)]) (use 1(2) assms(2) in \<open>auto simp: events_ok_def hd_take\<close>)
  obtain kept sv2' where s: "serve_loop w (waiters sv2) sv2 = Inr (kept, sv2')" "sv3 = sv2'\<lparr>waiters := kept\<rparr>"
    using t(3) by (auto simp: serve_waiters_def then_do_Inr)
  have open2: "\<forall>x \<in> set (waiters sv2). w_fd x \<in> open_fds sv2" using 2 by (simp add: conn_ok_def waiters_ok_def)
  have 3: "conn_ok sv3"
    unfolding s(2) using serve_loop_conn [OF 2 open2 s(1)] open2
    by (intro conn_fewer_waiters [of sv2' "fds sv2" kept]) (auto simp: open_fds_def)
  obtain kept' sv4 where e: "expire_loop w now (waiters sv3) sv3 = (kept', sv4)" by fastforce
  have open3: "\<forall>x \<in> set (waiters sv3). w_fd x \<in> open_fds sv3" using 3 by (simp add: conn_ok_def waiters_ok_def)
  have 4: "conn_ok (expire_waiters w now sv3)"
    unfolding expire_waiters_def e prod.case using expire_loop_conn [OF 3 e] open3
    by (intro conn_fewer_waiters [of sv4 "fds sv3" kept']) (auto simp: open_fds_def)
  let ?sv = "expire_waiters w now sv3"
  have c: "slots_ok (server_fd ?sv) (compact_fds 1 (fds ?sv))"
      "set (tl (compact_fds 1 (fds ?sv))) - {- 1} = set (tl (fds ?sv)) - {- 1}"
    using compact_open [of 1 "server_fd ?sv" "fds ?sv"] 4 by (simp_all add: conn_ok_def)
  with 4 have "conn_ok sv'" by (simp add: t(4) conn_defs)
  moreover have "0 \<le> x" if "x \<in> set (tl (fds sv'))" for x
  proof -
    from that obtain j where "j < length (tl (fds sv'))" "tl (fds sv') ! j = x" by (auto simp: in_set_conv_nth)
    then have "Suc j < length (compact_fds 1 (fds ?sv))" "compact_fds 1 (fds ?sv) ! Suc j = x"
      by (simp_all add: t(4) nth_tl)
    then have "x \<noteq> - 1" using compact_full [of 1 "fds ?sv" "Suc j"] by auto
    moreover have "- 1 \<le> x" using c(1) that by (simp add: slots_ok_def t(4))
    ultimately show ?thesis by simp
  qed
  ultimately show ?thesis by blast
qed

section \<open>Invariants of the whole loop\<close>

text \<open>
  The contract of the loop towards its clients: an invariant that whole commands, retries of
  blocked clients and syncs of the log keep, and that the bookkeeping of the loop does not
  touch.
\<close>

locale client_loop =
  fixes I :: "server \<Rightarrow> bool" and w :: world
  assumes commands: "I sv \<Longrightarrow> client_command w i c args sv = Inr (sv', go) \<Longrightarrow> I sv'"
    and retries: "I sv \<Longrightarrow> retry_waiter w waiter sv = Inr (sv', reply) \<Longrightarrow> I sv'"
    and syncs: "I sv \<Longrightarrow> log_sync w sv = Inr sv' \<Longrightarrow> I sv'"
    and talks: "I sv \<Longrightarrow> I (snd (send_to w Answer x payload sv))"
    and closes: "I sv \<Longrightarrow> I (close_client i x sv)"
    and waits: "I sv \<Longrightarrow> I (sv\<lparr>waiters := ws\<rparr>)"
    and buffers: "I sv \<Longrightarrow> I (put_buffer c b sv)"
    and admits: "I sv \<Longrightarrow> I (add_client c sv)"
    and compacts: "I sv \<Longrightarrow> I (sv\<lparr>fds := fs\<rparr>)"
begin

lemma client_drain: "I sv \<Longrightarrow> client_drain w i c sv = Inr (sv', go) \<Longrightarrow> I sv'"
proof (induction "length (buffer_at sv c)" arbitrary: sv rule: less_induct)
  case less
  show ?case
  proof (cases "parse_command (buffer_at sv c)")
    case (Inl e)
    with less.prems show ?thesis by (cases e) (auto simp: client_drain.simps [of w i c sv] closes)
  next
    case (Inr x)
    show ?thesis
    proof (cases x)
      case None
      with Inr less.prems show ?thesis by (auto simp: client_drain.simps [of w i c sv])
    next
      case (Some p)
      obtain args consumed where p: "p = (args, consumed)" by fastforce
      let ?sv = "put_buffer c (drop consumed (buffer_at sv c)) sv"
      obtain sv1 go1 where cc: "client_command w i c args ?sv = Inr (sv1, go1)"
        using less.prems(2) Inr Some p by (auto simp: client_drain.simps [of w i c sv] split: sum.splits)
      have 1: "I sv1" by (rule commands [OF buffers [OF less.prems(1)] cc])
      have "length (buffer_at sv1 c) < length (buffer_at sv c)"
        using parse_next_shorter [of sv c args consumed sv1] client_command_buffer [OF cc, of c] Inr Some p by simp
      with less.hyps [of sv1] 1 less.prems(2) Inr Some p cc show ?thesis
        by (auto simp: client_drain.simps [of w i c sv] split: if_splits)
    qed
  qed
qed

lemma client_recv: "I sv \<Longrightarrow> client_recv w i c rs sv = Inr sv' \<Longrightarrow> I sv'"
proof (induction rs arbitrary: sv)
  case (Cons r rs)
  show ?case
  proof (cases r)
    case (Received chunk)
    obtain sv1 go where d: "client_drain w i c (put_buffer c (buffer_at sv c @ chunk) sv) = Inr (sv1, go)"
        "(if go then client_recv w i c rs sv1 else Inr sv1) = Inr sv'"
      using Cons.prems(2) Received by (auto simp: then_do_Inr)
    from client_drain [OF buffers [OF Cons.prems(1)] d(1)] Cons.IH [of sv1] d(2) show ?thesis
      by (cases go) auto
  qed (use Cons closes in auto)
qed simp

lemma accept_loop: "I sv \<Longrightarrow> I (accept_loop rs sv)"
  by (induction rs sv rule: accept_loop.induct) (simp_all add: admits)

lemma serve_loop: "I sv \<Longrightarrow> serve_loop w ws sv = Inr (kept, sv') \<Longrightarrow> I sv'"
proof (induction ws arbitrary: sv kept)
  case (Cons x ws)
  obtain sv1 reply where r: "retry_waiter w x sv = Inr (sv1, reply)"
    using Cons.prems(2) by (auto simp: then_do_Inr)
  have 1: "I sv1" by (rule retries [OF Cons.prems(1) r])
  show ?case
  proof (cases reply)
    case None
    with Cons.prems(2) r obtain kept' where "serve_loop w ws sv1 = Inr (kept', sv')" by (auto simp: then_do_Inr)
    with Cons.IH 1 show ?thesis by blast
  next
    case (Some response)
    with Cons.prems(2) r have "serve_loop w ws (snd (send_to w Answer (w_fd x) response sv1)) = Inr (kept, sv')" by simp
    with Cons.IH talks [OF 1] show ?thesis by blast
  qed
qed simp

lemma expire_loop: "I sv \<Longrightarrow> I (snd (expire_loop w now ws sv))"
  by (induction ws arbitrary: sv) (simp_all add: talks case_prod_beta)

end

text \<open>With what the bytes of a master do, it is an invariant of the turn.\<close>

locale turning = client_loop +
  assumes from_master: "I sv \<Longrightarrow> 0 \<le> c \<Longrightarrow> c = master_fd sv \<Longrightarrow> master_recv w i c rs sv = Inr sv' \<Longrightarrow> I sv'"
begin

lemma handle_event:
  assumes "I sv" "handle_event w i ev sv = Inr sv'"
  shows "I sv'"
proof (cases "fds sv ! i < 0 \<or> \<not> ev_in ev \<and> \<not> ev_error ev")
  case True
  with assms show ?thesis by (simp add: handle_event_def Let_def)
next
  case False
  let ?c = "fds sv ! i"
  from assms(2) obtain sv1 where sv1: "(if \<not> ev_in ev then Inr sv
        else if ?c = server_fd sv then Inr (accept_loop (ev_accepts ev) sv)
        else if ?c = master_fd sv then master_recv w i ?c (ev_recvs ev) sv
        else client_recv w i ?c (ev_recvs ev) sv) = Inr sv1"
      "sv' = (if ev_error ev \<and> ?c \<noteq> server_fd sv1 \<and> 0 \<le> fds sv1 ! i then close_client i ?c sv1 else sv1)"
    unfolding handle_event_def Let_def if_not_P [OF False] then_do_Inr sum.inject by blast
  have "I sv1"
    using sv1(1) assms(1) client_recv [OF assms(1)] from_master [OF assms(1)] False by (auto simp: accept_loop split: if_splits)
  with sv1(2) show ?thesis by (simp add: closes)
qed

lemma handle_events: "I sv \<Longrightarrow> handle_events w i evs sv = Inr sv' \<Longrightarrow> I sv'"
proof (induction evs arbitrary: i sv)
  case (Cons ev evs)
  then obtain sv1 where "handle_event w i ev sv = Inr sv1" "handle_events w (Suc i) evs sv1 = Inr sv'"
    by (auto simp: then_do_Inr)
  with Cons handle_event show ?case by blast
qed simp

lemma poll_turn:
  assumes "I sv" "poll_turn w now evs sv = Inr sv'"
  shows "I sv'"
proof -
  obtain sv1 sv2 sv3 kept where t: "log_sync w sv = Inr sv1"
      "handle_events w 0 (take (length (fds sv1)) evs) sv1 = Inr sv2" "serve_loop w (waiters sv2) sv2 = Inr (kept, sv3)"
      "sv' = (expire_waiters w now (sv3\<lparr>waiters := kept\<rparr>))
         \<lparr>fds := compact_fds 1 (fds (expire_waiters w now (sv3\<lparr>waiters := kept\<rparr>)))\<rparr>"
    using assms(2) by (auto simp: poll_turn_def serve_waiters_def Let_def then_do_Inr)
  have "I sv3" by (rule serve_loop [OF handle_events [OF syncs [OF assms(1) t(1)] t(2)] t(3)])
  then have "I (expire_waiters w now (sv3\<lparr>waiters := kept\<rparr>))"
    using expire_loop waits by (simp add: expire_waiters_def case_prod_beta)
  then show ?thesis using t(4) compacts by simp
qed

end

text \<open>The commands of a master keep it, too, or there is no master.\<close>

locale driving = client_loop +
  assumes masters: "I sv \<Longrightarrow> master_command w c args consumed sv = Inr sv' \<Longrightarrow> I sv'"
    and forgets: "I sv \<Longrightarrow> I (sv\<lparr>master_fd := n\<rparr>)"
    and offsets: "I sv \<Longrightarrow> I (publish_offset sv)"
begin

lemma lose_master: "I sv \<Longrightarrow> I (lose_master i c sv)"
  by (simp add: lose_master_def forgets closes)

lemma master_drain: "I sv \<Longrightarrow> master_drain w i c sv = Inr (sv', go) \<Longrightarrow> I sv'"
proof (induction "length (buffer_at sv c)" arbitrary: sv rule: less_induct)
  case less
  show ?case
  proof (cases "parse_command (buffer_at sv c)")
    case (Inl e)
    with less.prems show ?thesis by (cases e) (auto simp: master_drain.simps [of w i c sv] lose_master)
  next
    case (Inr x)
    show ?thesis
    proof (cases x)
      case None
      with Inr less.prems show ?thesis by (auto simp: master_drain.simps [of w i c sv])
    next
      case (Some p)
      obtain args consumed where p: "p = (args, consumed)" by fastforce
      let ?sv = "put_buffer c (drop consumed (buffer_at sv c)) sv"
      obtain sv1 where mc: "master_command w c args consumed ?sv = Inr sv1" "master_drain w i c sv1 = Inr (sv', go)"
        using less.prems(2) Inr Some p by (auto simp: master_drain.simps [of w i c sv] split: sum.splits)
      have 1: "I sv1" by (rule masters [OF buffers [OF less.prems(1)] mc(1)])
      have "length (buffer_at sv1 c) < length (buffer_at sv c)"
        using parse_next_shorter [of sv c args consumed sv1] master_command_buffer [OF mc(1), of c] Inr Some p by simp
      with less.hyps [of sv1] 1 mc(2) show ?thesis by simp
    qed
  qed
qed

lemma master_recv: "I sv \<Longrightarrow> master_recv w i c rs sv = Inr sv' \<Longrightarrow> I sv'"
proof (induction rs arbitrary: sv)
  case (Cons r rs)
  show ?case
  proof (cases r)
    case (Received chunk)
    obtain sv1 go where d: "master_drain w i c (put_buffer c (buffer_at sv c @ chunk) sv) = Inr (sv1, go)"
        "(if go then master_recv w i c rs (publish_offset sv1) else Inr (publish_offset sv1)) = Inr sv'"
      using Cons.prems(2) Received by (auto simp: then_do_Inr)
    from master_drain [OF buffers [OF Cons.prems(1)] d(1)] Cons.IH [of "publish_offset sv1"] d(2) offsets
    show ?thesis by (cases go) auto
  qed (use Cons lose_master in auto)
qed simp

end

sublocale driving \<subseteq> turning
  by unfold_locales (rule master_recv)

locale primary = client_loop +
  assumes alone: "I sv \<Longrightarrow> master_fd sv < 0"

sublocale primary \<subseteq> turning
  by unfold_locales (use alone in fastforce)

text \<open>
  The same for an invariant that every single operation of a command keeps, whatever
  connection the command comes from.
\<close>

locale looping =
  fixes I :: "server \<Rightarrow> bool" and w :: world
  assumes serve: "serving I c w"
    and buffers: "I sv \<Longrightarrow> I (put_buffer c b sv)"
    and admits: "I sv \<Longrightarrow> I (add_client c sv)"
    and forgets: "I sv \<Longrightarrow> I (sv\<lparr>master_fd := n\<rparr>)"
    and offsets: "I sv \<Longrightarrow> I (publish_offset sv)"
    and pops: "I sv \<Longrightarrow> I (sv\<lparr>db := (fst (try_blpop keys (db sv)))\<lparr>pending_propagations := []\<rparr>\<rparr>)"
    and misses: "I sv \<Longrightarrow> I (sv\<lparr>db := fst (try_blpop keys (db sv))\<rparr>)"
    and compacts: "I sv \<Longrightarrow> I (sv\<lparr>fds := fs\<rparr>)"

sublocale looping \<subseteq> conn: serving I c w for c
  by (rule serve)

context looping
begin

lemma retry_waiter:
  assumes "I sv" "retry_waiter w waiter sv = Inr (sv', reply)"
  shows "I sv'"
proof (cases "w_kind waiter")
  case BlockList
  obtain s popped where t: "try_blpop (w_keys waiter) (db sv) = (s, popped)" by fastforce
  show ?thesis
  proof (cases popped)
    case None
    with assms BlockList t misses [of sv "w_keys waiter"] show ?thesis by (auto simp: retry_waiter_def)
  next
    case (Some kv)
    with assms(2) BlockList t obtain cmds where
      "record_each w (w_fd waiter) cmds (sv\<lparr>db := s\<lparr>pending_propagations := []\<rparr>\<rparr>) = Inr sv'"
      by (cases kv) (auto simp: retry_waiter_def take_pending_propagations_def then_do_Inr)
    then show ?thesis using conn.record_each pops [OF assms(1), of "w_keys waiter"] t by simp
  qed
qed (use assms in \<open>auto simp: retry_waiter_def Let_def split: sum.splits\<close>)

lemma log_sync: "I sv \<Longrightarrow> log_sync w sv = Inr sv' \<Longrightarrow> I sv'"
  unfolding log_sync_def by (rule conn.log_call)

end

sublocale looping \<subseteq> loop: driving I w
  by unfold_locales
    (rule conn.client_command conn.master_command retry_waiter log_sync conn.talks conn.closes conn.waits
      buffers admits forgets offsets compacts; assumption)+

section \<open>The store stays well-formed\<close>

definition world_ok :: "world \<Rightarrow> bool" where
  "world_ok w \<longleftrightarrow> (\<forall>n. env_ok (world_env w n))"

lemma db_frame [simp]:
  "db (snd (send_to w lane c payload sv)) = db sv" "db (put_client c client sv) = db sv"
  "db (note_offset c sv) = db sv" "db (put_buffer c b sv) = db sv" "db (add_client c sv) = db sv"
  by (simp_all add: send_to_def put_client_def note_offset_def put_buffer_def add_client_def case_prod_beta)

lemma run_command_wf:
  "world_ok w \<Longrightarrow> store_wf (db sv) \<Longrightarrow> store_wf (db (fst (run_command w c args sv)))"
  using handle_command_wf [of "world_env w (n_commands sv)" "db sv" args "client_at sv c"]
  by (simp add: run_command_def world_ok_def case_prod_beta)

interpretation wf_serving: serving "\<lambda>sv. world_ok w \<and> store_wf (db sv)" c w for c w
  by unfold_locales
    (auto simp: run_command_wf close_client_def bump_repl_offset_def intro: remove_subscriber_wf)

interpretation wf_loop: looping "\<lambda>sv. world_ok w \<and> store_wf (db sv)" w for w
  by unfold_locales
    (auto simp: run_command_wf close_client_def bump_repl_offset_def publish_offset_def set_repl_offset_def
      intro: remove_subscriber_wf try_blpop_wf)

section \<open>Start-up\<close>

lemma load_entries_wf: "store_wf s \<Longrightarrow> store_wf (load_entries env es s)"
proof (induction es arbitrary: s)
  case (Cons e es)
  have "store_wf (s\<lparr>Storage := hput k v (Storage s)\<rparr>)"
      "store_wf (s\<lparr>Expirations := hput k t (Expirations s), Storage := hput k v (Storage s)\<rparr>)" for k v t
    using Cons.prems by (auto simp: store_wf_defs hcontains_def)
  with Cons show ?case by (simp split: option.split)
qed simp

text \<open>What a replay keeps: any property of the store that every command keeps.\<close>

definition replay_wf :: "replay_state \<Rightarrow> bool" where
  "replay_wf st \<longleftrightarrow> store_wf (fst (snd st))"

lemma replay_step_wf:
  assumes "\<forall>n. env_ok (envs n)" "replay_wf st" "replay_step path envs args st = Inr st'"
  shows "replay_wf st'"
proof -
  obtain n s client where st: "st = (n, s, client)" by (metis prod_cases3)
  with assms have "store_wf (fst (handle_command (envs n) args s client))"
    using handle_command_wf by (simp add: replay_wf_def)
  with assms(3) st show ?thesis
    by (auto simp: replay_wf_def replay_step_def take_pending_block_def take_pending_propagations_def
        split: prod.splits sum.splits if_splits)
qed

lemma replay_drain_wf:
  "\<forall>n. env_ok (envs n) \<Longrightarrow> replay_wf st \<Longrightarrow> replay_drain path envs buffer st = Inr (rest, st') \<Longrightarrow> replay_wf st'"
proof (induction path envs buffer st rule: replay_drain.induct)
  case (1 path envs buffer st)
  then show ?case
    using replay_step_wf [of envs st path]
    by (auto simp: replay_drain.simps [of path envs buffer st] split: sum.splits option.splits prod.splits)
qed

lemma replay_chunks_wf:
  "\<forall>n. env_ok (envs n) \<Longrightarrow> replay_wf st \<Longrightarrow> replay_chunks path envs chunks buffer st = Inr (rest, st') \<Longrightarrow> replay_wf st'"
proof (induction chunks arbitrary: buffer st)
  case (Cons chunk chunks)
  then obtain b st1 where "replay_drain path envs (buffer @ chunk) st = Inr (b, st1)"
      "replay_chunks path envs chunks b st1 = Inr (rest, st')"
    by (auto split: sum.splits)
  with Cons replay_drain_wf show ?case by blast
qed simp

lemma replay_files_wf:
  "\<forall>n. env_ok (envs n) \<Longrightarrow> replay_wf st \<Longrightarrow> replay_files envs d paths st = Inr st' \<Longrightarrow> replay_wf st'"
proof (induction paths arbitrary: st)
  case (Cons path paths)
  then obtain st1 where f: "replay_file envs d path st = Inr st1" "replay_files envs d paths st1 = Inr st'"
    by (auto split: sum.splits)
  then obtain b where "replay_chunks path envs (file_chunks (contents d path)) [] st = Inr (b, st1)"
    by (auto simp: replay_file_def contents_def split: option.splits sum.splits prod.splits if_splits)
  with Cons replay_chunks_wf f(2) show ?case by blast
qed simp

lemma server_start_wf:
  assumes "server_start calls config d = Some (s, a, d')" "\<forall>n. env_ok (replay_envs calls n)"
  shows "store_wf s"
proof -
  let ?s = "store_init (random_draws calls) config new_store"
  obtain a1 d1 s1 where r: "replay (replay_envs calls) d1 a1 ?s = Inr s1" "s = load_snapshot calls config d1 s1"
    using assms(1) by (auto simp: server_start_def Let_def split: if_splits prod.splits sum.splits)
  then obtain n client where "replay_files (replay_envs calls) d1 (aof_files a1) (0, ?s, replay_client) = Inr (n, s1, client)"
    by (auto simp: replay_def split: sum.splits)
  from replay_files_wf [OF assms(2) _ this] have "store_wf s1"
    by (simp add: replay_wf_def store_init_wf)
  then show ?thesis using r(2) by (auto simp: load_snapshot_def load_entries_wf split: sum.split)
qed

section \<open>Reachable states\<close>

text \<open>
  The states the server can be in at the head of its loop: after start-up, and after any
  number of turns in which \<open>poll\<close> was interrupted or reported events. Accepted descriptors
  are fresh, which the operating system guarantees.
\<close>

inductive reachable :: "world \<Rightarrow> server \<Rightarrow> bool" for w where
  started: "server_start calls config d = Some booted \<Longrightarrow> \<forall>n. env_ok (replay_envs calls n) \<Longrightarrow>
     0 \<le> listener \<Longrightarrow> - 1 \<le> master \<Longrightarrow> master \<noteq> listener \<Longrightarrow>
     reachable w (run_start listener master initial_offset booted)"
| interrupted: "reachable w sv \<Longrightarrow> log_sync w sv = Inr sv' \<Longrightarrow> reachable w sv'"
| polled: "reachable w sv \<Longrightarrow> events_ok evs sv \<Longrightarrow> poll_turn w now evs sv = Inr sv' \<Longrightarrow> reachable w sv'"

lemma run_start_conn:
  "0 \<le> listener \<Longrightarrow> - 1 \<le> master \<Longrightarrow> master \<noteq> listener \<Longrightarrow> conn_ok (run_start listener master initial_offset booted)"
  by (auto simp: run_start_def conn_defs slots_ok_def MAX_FDS_def hcontains_def hget_def split: prod.split)

text \<open>C1: Invariant of the running server. In every state the event loop can reach, whatever
  clients, replicas and a master send, however sends and receives fail and connections come
  and go, the store is well-formed and the connection tables are consistent: the array of
  descriptors never exceeds its 200 slots and no descriptor occurs twice, the client table
  has exactly the open connections, receive buffers and replicas belong to open connections,
  and every blocked client is an open connection, so no answer can go to a descriptor that
  was closed and given to somebody else.\<close>

theorem reachable_server_consistent:
  assumes "reachable w sv" "world_ok w"
  shows "store_wf (db sv) \<and> conn_ok sv"
  using assms(1)
proof (induction rule: reachable.induct)
  case (started calls config d booted listener master initial_offset)
  obtain s a d' where b: "booted = (s, a, d')" by (metis prod_cases3)
  have "store_wf s" using server_start_wf started(1,2) b by blast
  then have "store_wf (db (run_start listener master initial_offset booted))" by (simp add: b run_start_def)
  with run_start_conn started(3-5) show ?case by blast
next
  case (interrupted sv sv')
  with log_call_frame [of _ w sv sv'] show ?case by (simp add: log_sync_def)
next
  case (polled sv evs now sv')
  then show ?case using wf_loop.loop.poll_turn [of w sv now evs sv'] poll_turn_conn [of sv evs w now sv'] assms(2) by blast
qed

definition sample_calls :: start_calls where
  "sample_calls = \<lparr>socket_ok = True, reuse_ok = True, nonblocking_ok = True, bind_ok = True, listen_ok = True,
     files_opened = \<lparr>directories_ok = True, initial_ok = True, manifest_ok = True, rename_ok = True,
        descriptor_ok = True, opened_at = 0\<rparr>,
     replay_envs = (\<lambda>_. sample_env), start_env = sample_env, random_draws = (\<lambda>_. 0)\<rparr>"

definition sample_world :: world where
  "sample_world = \<lparr>world_env = (\<lambda>_. sample_env), world_sends = (\<lambda>_. [Sent 4096]),
     world_log = (\<lambda>_. \<lparr>outcomes = [Done 4096, Done 0], now_checked = 0, now_synced = 0\<rparr>)\<rparr>"

definition sample_started :: "store \<times> Aof \<times> disk" where
  "sample_started = (store_init (\<lambda>_. 0) (default_config ''/data'') new_store, new_Aof, [])"

lemma sample_start: "server_start sample_calls (default_config ''/data'') [] = Some sample_started"
  by (simp add: server_start_def sample_calls_def sample_started_def aof_open_def default_config_def replay_def
      new_Aof_def load_snapshot_def)

lemma sample_reachable: "reachable sample_world (run_start 3 (- 1) 0 sample_started)"
  by (rule reachable.started [OF sample_start]) (simp_all add: sample_calls_def)

text \<open>One turn in which a client connects on descriptor 5.\<close>

definition sample_connect :: "event list" where
  "sample_connect = [\<lparr>ev_in = True, ev_error = False, ev_accepts = [Accepted 5 True], ev_recvs = []\<rparr>]"

definition sample_server :: server where
  "sample_server = (add_client 5 (run_start 3 (- 1) 0 sample_started))\<lparr>n_logs := 1\<rparr>"

lemma sample_turn:
  "poll_turn sample_world 0 sample_connect (run_start 3 (- 1) 0 sample_started) = Inr sample_server"
  by (simp add: poll_turn_def log_sync_def log_call_def sync_if_due_def run_start_def sample_started_def new_Aof_def
      sample_connect_def handle_event_def serve_waiters_def expire_waiters_def sample_server_def add_client_def
      put_client_def client_at_def MAX_FDS_def compact_fds.simps default_user_auto_auth_def)

lemma sample_server_reachable: "reachable sample_world sample_server"
  by (rule reachable.polled [OF sample_reachable _ sample_turn])
    (simp add: events_ok_def sample_connect_def run_start_def sample_started_def MAX_FDS_def)

theorem reachable_server_consistent_witness:
  "store_wf (db sample_server) \<and> conn_ok sample_server"
  by (rule reachable_server_consistent [OF sample_server_reachable]) (simp add: world_ok_def sample_world_def)

end
