(* ===== verification/Server_Access.thy ===== *)
theory Server_Access
  imports Server_Safety
begin

text \<open>
  Access control over a whole connection: what a client can do that has not given the
  password, whatever bytes it sends.
\<close>

section \<open>What the gate lets through\<close>

text \<open>No password of the default user has the hash of what an \<open>AUTH\<close> offers.\<close>

definition wrong_guess :: "(nat \<Rightarrow> env) \<Rightarrow> store \<Rightarrow> args \<Rightarrow> bool" where
  "wrong_guess envs s args \<longleftrightarrow> (args \<noteq> [] \<and> to_upper (args ! 0) = ''AUTH'' \<longrightarrow>
     (\<forall>n h. password_hash (envs n) (last args) = Inr h \<longrightarrow> \<not> list_ex (memcmp_equal h) (default_user_passwords s)))"

text \<open>The replies at the gate; none of them depends on the data.\<close>

definition gate_reply :: "string \<Rightarrow> bool" where
  "gate_reply r \<longleftrightarrow> r \<in> {noauth_error, simple_error ''ERR empty command'', arity_error ''auth'', nopass_error, wrongpass_error,
       internal_error, simple_error ''ERR wrong number of arguments'', to_bytes (SimpleString ''OK''),
       to_bytes (SimpleString ''RESET''), to_bytes (SimpleString ''QUEUED'')} \<or> (\<exists>name. r = subscribed_error name)"

lemma gate_reply_nonempty: "gate_reply r \<Longrightarrow> r \<noteq> []"
  by (auto simp: gate_reply_def noauth_error_def simple_error_def arity_error_def nopass_error_def wrongpass_error_def
      internal_error_def subscribed_error_def to_bytes.simps)

lemma handle_auth_wrong:
  assumes "\<not> default_user_auto_auth s" "wrong_guess envs s args" "args \<noteq> []" "to_upper (args ! 0) = ''AUTH''"
  obtains r where "handle_auth (envs n) args s client = (client, r)" "gate_reply (case r of Inl _ \<Rightarrow> internal_error | Inr x \<Rightarrow> x)"
proof (cases "length args \<noteq> 2 \<and> length args \<noteq> 3 \<or> length args = 2 \<and> default_user_nopass s")
  case True
  with that show thesis by (auto simp: handle_auth_def gate_reply_def)
next
  case False
  show thesis
  proof (cases "password_hash (envs n) (last args)")
    case (Inl e)
    with False that show thesis by (auto simp: handle_auth_def gate_reply_def)
  next
    case (Inr h)
    then have "\<not> list_ex (memcmp_equal h) (default_user_passwords s)" using assms by (auto simp: wrong_guess_def)
    then have "handle_auth (envs n) args s client = (client, Inr wrongpass_error)"
      using Inr False assms(1) by (auto simp: handle_auth_def default_user_auto_auth_def)
    with that show thesis by (simp add: gate_reply_def)
  qed
qed

text \<open>A command of a client that is not authenticated: at most its own subscriptions end.\<close>

lemma gate_command:
  assumes "\<not> authenticated client" "\<not> default_user_auto_auth s" "wrong_guess envs s args"
  obtains s' client' r where "handle_command (envs n) args s client = (s', client', r)"
    "s' = s \<or> s' = remove_subscriber (fd client) s" "\<not> authenticated client'" "fd client' = fd client"
    "gate_reply (case r of Inl _ \<Rightarrow> internal_error | Inr x \<Rightarrow> x)"
    "is_error_reply (case r of Inl _ \<Rightarrow> internal_error | Inr x \<Rightarrow> x) \<or> args \<noteq> [] \<and> to_upper (args ! 0) \<in> {''AUTH'', ''QUIT'', ''RESET''}"
proof -
  let ?c = "to_upper (args ! 0)"
  have err: "is_error_reply noauth_error" "is_error_reply (simple_error m)" for m
    by (simp_all add: is_error_reply_def noauth_error_def simple_error_def to_bytes.simps)
  consider "args = []" | "args \<noteq> []" "?c \<notin> {''AUTH'', ''QUIT'', ''RESET''}" | "args \<noteq> []" "?c \<in> {''QUIT'', ''RESET''}"
    | "args \<noteq> []" "?c = ''AUTH''" by blast
  then show thesis
  proof cases
    case 1
    with that [of s client "Inr (simple_error ''ERR empty command'')"] assms err show thesis
      by (simp add: handle_command_def gate_reply_def)
  next
    case 2
    with that [of s client "Inr noauth_error"] assms err show thesis
      by (simp add: unauthenticated_commands_refused gate_reply_def)
  next
    case 3
    obtain s' client' r where r: "handle_reset args s client = (s', client', r)" by (metis prod_cases3)
    have "handle_command (envs n) args s client = (s', client', Inr r)"
      using 3 r by (auto simp: handle_command_def subscribed_allowed_def Let_def)
    moreover have "\<not> default_user_auto_auth (remove_subscriber (fd client) s)"
      using assms(2) by (simp add: default_user_auto_auth_def remove_subscriber_def)
    then have "(s' = s \<or> s' = remove_subscriber (fd client) s) \<and> \<not> authenticated client' \<and> fd client' = fd client \<and> gate_reply r"
      using r assms(1) by (auto simp: handle_reset_def reset_transaction_def gate_reply_def Let_def split: if_splits)
    ultimately show thesis using that 3 by auto
  next
    case 4
    obtain r where r: "handle_auth (envs n) args s client = (client, r)" "gate_reply (case r of Inl _ \<Rightarrow> internal_error | Inr x \<Rightarrow> x)"
      using handle_auth_wrong [OF assms(2,3) 4] .
    have "\<not> List.member subscribed_allowed ''AUTH''" by code_simp
    then have "handle_command (envs n) args s client =
       (s, if subscriptions client = [] \<and> in_multi client then client\<lparr>queued := queued client @ [args]\<rparr> else client,
        if subscriptions client \<noteq> [] then Inr (subscribed_error (args ! 0))
        else if in_multi client then Inr (to_bytes (SimpleString ''QUEUED'')) else r)"
      using 4 r(1) by (simp add: handle_command_def dispatch_command_def Let_def)
    then show thesis by (rule that) (use 4 assms(1) r(2) in \<open>auto simp: gate_reply_def\<close>)
  qed
qed

section \<open>What the loop does for such a client\<close>

text \<open>From one state to another only the connection \<open>c\<close> itself changed: its subscriptions may
  have ended, and it was sent replies of the gate.\<close>

definition harmless :: "int \<Rightarrow> server \<Rightarrow> server \<Rightarrow> bool" where
  "harmless c sv0 sv \<longleftrightarrow>
     (db sv = db sv0 \<or> db sv = remove_subscriber c (db sv0)) \<and> disk_of sv = disk_of sv0 \<and> aof sv = aof sv0
     \<and> (\<forall>x. x \<noteq> c \<longrightarrow> client_at sv x = client_at sv0 x \<and> hget (replicas sv) x = hget (replicas sv0) x)
     \<and> (hcontains (replicas sv) c \<longrightarrow> hcontains (replicas sv0) c)
     \<and> filter (\<lambda>waiter. w_fd waiter \<noteq> c) (waiters sv) = filter (\<lambda>waiter. w_fd waiter \<noteq> c) (waiters sv0)
     \<and> \<not> authenticated (client_at sv c)
     \<and> (\<exists>new. outbox sv = outbox sv0 @ new \<and>
          (\<forall>(x, lane, b) \<in> set new. x = c \<and> lane = Answer \<and> (\<exists>r. gate_reply r \<and> prefix b r)))"

text \<open>The connection waits at the gate and nothing is pending.\<close>

definition at_gate :: "int \<Rightarrow> server \<Rightarrow> bool" where
  "at_gate c sv \<longleftrightarrow> fd (client_at sv c) = c \<and> \<not> default_user_auto_auth (db sv) \<and> pending_block (db sv) = None
     \<and> pending_propagations (db sv) = [] \<and> pending_messages (db sv) = []"

lemma remove_subscriber_twice [simp]: "remove_subscriber c (remove_subscriber c s) = remove_subscriber c s"
proof -
  have "filter (\<lambda>p. snd p \<noteq> []) (map f (filter (\<lambda>p. snd p \<noteq> []) (map f xs))) = filter (\<lambda>p. snd p \<noteq> []) (map f xs)"
    if "\<And>p. f (f p) = f p" for f :: "string \<times> int oset \<Rightarrow> string \<times> int oset" and xs
    using that by (induction xs) auto
  from this [of "\<lambda>p. (fst p, oset_erase c (snd p))" "subscribers s"] show ?thesis
    by (simp add: remove_subscriber_def oset_erase_def)
qed

lemma remove_subscriber_fields [simp]:
  "pending_block (remove_subscriber c s) = pending_block s" "pending_propagations (remove_subscriber c s) = pending_propagations s"
  "pending_messages (remove_subscriber c s) = pending_messages s" "default_user_auto_auth (remove_subscriber c s) = default_user_auto_auth s"
  "default_user_passwords (remove_subscriber c s) = default_user_passwords s"
  by (simp_all add: remove_subscriber_def default_user_auto_auth_def)

lemma idle_fields [simp]:
  "pending_block s = None \<Longrightarrow> s\<lparr>pending_block := None\<rparr> = s" "pending_propagations s = [] \<Longrightarrow> s\<lparr>pending_propagations := []\<rparr> = s"
  "pending_messages s = [] \<Longrightarrow> s\<lparr>pending_messages := []\<rparr> = s"
  by (cases s, simp)+

lemma db_again [simp]: "sv\<lparr>db := db sv\<rparr> = sv"
  by (cases sv) simp

lemma nothing_taken:
  assumes "at_gate c sv"
  shows "take_pending_block (db sv) = (None, db sv)" "take_pending_propagations (db sv) = ([], db sv)"
    "take_pending_messages (db sv) = ([], db sv)"
  using assms by (simp_all add: at_gate_def take_pending_block_def take_pending_propagations_def take_pending_messages_def)

lemma harmless_close: "harmless c sv0 sv \<Longrightarrow> harmless c sv0 (close_client i c sv)"
  by (auto simp: harmless_def close_client_def client_at_def new_client_def hcontains_def)

lemma harmless_buffer: "harmless c sv0 (put_buffer c b sv) = harmless c sv0 sv" "at_gate c (put_buffer c b sv) = at_gate c sv"
  by (simp_all add: harmless_def at_gate_def put_buffer_def client_at_def)

lemma harmless_wrong: "harmless c sv0 sv \<Longrightarrow> wrong_guess envs (db sv) args = wrong_guess envs (db sv0) args"
  by (auto simp: harmless_def wrong_guess_def)

lemma finish_at_gate:
  assumes "harmless c sv0 sv" "at_gate c sv" "finish_command w i c sv = (sv', go)"
  shows "harmless c sv0 sv' \<and> (go \<longrightarrow> at_gate c sv' \<and> buffers sv' = buffers sv)"
proof -
  have "deliver_messages w sv = sv" using assms(2) by (simp add: deliver_messages_def nothing_taken)
  with assms harmless_close show ?thesis by (auto simp: finish_command_def Let_def split: if_splits)
qed

lemma answer_at_gate:
  assumes "harmless c sv0 sv" "at_gate c sv" "gate_reply r" "answer_command w env i c r sv = (sv', go)"
  shows "harmless c sv0 sv' \<and> (go \<longrightarrow> at_gate c sv' \<and> buffers sv' = buffers sv)"
proof -
  obtain b ok where s: "send_all (world_sends w (n_sends sv)) r = (b, ok)" by fastforce
  let ?sv = "sv\<lparr>n_sends := Suc (n_sends sv), outbox := outbox sv @ [(c, Answer, b)]\<rparr>"
  have "(if ok then finish_command w i c ?sv else (close_client i c ?sv, False)) = (sv', go)"
    using assms(4) s gate_reply_nonempty [OF assms(3)]
    unfolding answer_command_def nothing_taken [OF assms(2)] prod.case option.case db_again by (simp add: send_to_def)
  moreover have "prefix b r" using send_all_prefix [OF s] by (auto simp: prefix_def)
  then have "harmless c sv0 ?sv" "at_gate c ?sv"
    using assms(1-3) by (auto simp: harmless_def at_gate_def client_at_def)
  ultimately show ?thesis using finish_at_gate [of c sv0 ?sv] harmless_close [of c sv0 ?sv] by (auto split: if_splits)
qed

lemma log_nothing: "log_pending w m [] sv = Inr sv' \<Longrightarrow> \<exists>n. sv' = sv\<lparr>n_logs := n\<rparr>"
  by (auto simp: log_pending_def log_transaction_def log_call_def append_transaction_def intro: exI [of _ "n_logs sv"]
      split: if_splits option.splits)

lemma command_at_gate:
  assumes "harmless c sv0 sv" "at_gate c sv" "wrong_guess (world_env w) (db sv0) args"
    and "client_command w i c args sv = Inr (sv', go)"
  shows "harmless c sv0 sv' \<and> (go \<longrightarrow> at_gate c sv' \<and> buffers sv' = buffers sv)"
proof -
  let ?m = "in_multi (client_at sv c)" and ?env = "world_env w (n_commands sv)"
  have out: "\<not> authenticated (client_at sv c)" using assms(1) by (simp add: harmless_def)
  have gate: "\<not> default_user_auto_auth (db sv)" "fd (client_at sv c) = c" using assms(2) by (simp_all add: at_gate_def)
  obtain s client r where h: "handle_command ?env args (db sv) (client_at sv c) = (s, client, r)"
      "s = db sv \<or> s = remove_subscriber c (db sv)" "\<not> authenticated client" "fd client = c"
      "gate_reply (case r of Inl _ \<Rightarrow> internal_error | Inr x \<Rightarrow> x)"
      "is_error_reply (case r of Inl _ \<Rightarrow> internal_error | Inr x \<Rightarrow> x) \<or> args \<noteq> [] \<and> to_upper (args ! 0) \<in> {''AUTH'', ''QUIT'', ''RESET''}"
    using gate_command [OF out gate(1), of "world_env w" args "n_commands sv"] assms(3) harmless_wrong [OF assms(1)] gate(2) by metis
  let ?r = "case r of Inl _ \<Rightarrow> internal_error | Inr x \<Rightarrow> x"
  let ?sv = "put_client c client (sv\<lparr>db := s, n_commands := Suc (n_commands sv)\<rparr>)"
  have sv: "harmless c sv0 ?sv" "at_gate c ?sv"
    using assms(1,2) h(2-4) by (auto simp: harmless_def at_gate_def put_client_def client_at_def)
  have "\<not> is_write_command ''AUTH''" "\<not> is_write_command ''QUIT''" "\<not> is_write_command ''RESET''" by code_simp+
  then have "register_replica c args ?m ?r ?sv = ?sv" "record_write w c args ?m ?r ?sv = Inr ?sv"
    using h(6) by (auto simp: register_replica_def record_write_def is_logged_def)
  moreover have "\<not> is_ack c args sv" using out gate(1) by (simp add: is_ack_def)
  ultimately obtain sv2 where sv2: "record_pending w c ?m ?sv = Inr sv2" "answer_command w ?env i c ?r sv2 = (sv', go)"
    using assms(4) h(1) by (auto simp: client_command_def run_command_def Let_def then_do_Inr)
  then obtain n where n: "sv2 = ?sv\<lparr>n_logs := n\<rparr>"
    using log_nothing [of w ?m ?sv] unfolding record_pending_def nothing_taken [OF sv(2)] prod.case db_again then_do_Inr
    by auto
  have "harmless c sv0 sv2" "at_gate c sv2" using sv by (auto simp: n harmless_def at_gate_def client_at_def)
  moreover have "buffers sv2 = buffers sv" by (simp add: n put_client_def)
  ultimately show ?thesis using answer_at_gate [OF _ _ h(5) sv2(2)] by metis
qed

lemma drain_at_gate:
  assumes "harmless c sv0 sv" "at_gate c sv" "drain (buffer_at sv c) = (cmds, rest, e)"
    and "list_all (wrong_guess (world_env w) (db sv0)) cmds" "client_drain w i c sv = Inr (sv', go)"
  shows "harmless c sv0 sv' \<and> (go \<longrightarrow> at_gate c sv' \<and> e = None \<and> buffer_at sv' c = rest)"
  using assms
proof (induction cmds arbitrary: sv)
  case Nil
  then consider e' where "parse_command (buffer_at sv c) = Inl e'" | "parse_command (buffer_at sv c) = Inr None"
    by (auto simp: drain.simps [of "buffer_at sv c"] split: sum.splits option.splits prod.splits)
  then show ?case
  proof cases
    case 1
    with Nil.prems(1,5) harmless_close show ?thesis
      by (cases e') (auto simp: client_drain.simps [of w i c sv])
  next
    case 2
    with Nil.prems show ?thesis
      by (auto simp: client_drain.simps [of w i c sv] drain.simps [of "buffer_at sv c"])
  qed
next
  case (Cons args cmds)
  obtain n where p: "parse_command (buffer_at sv c) = Inr (Some (args, n))" "drain (drop n (buffer_at sv c)) = (cmds, rest, e)"
    using Cons.prems(3) by (auto simp: drain.simps [of "buffer_at sv c"] split: sum.splits option.splits prod.splits)
  let ?sv = "put_buffer c (drop n (buffer_at sv c)) sv"
  obtain sv1 go1 where cc: "client_command w i c args ?sv = Inr (sv1, go1)"
      "(if go1 then client_drain w i c sv1 else Inr (sv1, False)) = Inr (sv', go)"
    using Cons.prems(5) p(1) by (auto simp: client_drain.simps [of w i c sv] split: sum.splits)
  have step: "harmless c sv0 sv1 \<and> (go1 \<longrightarrow> at_gate c sv1 \<and> buffers sv1 = buffers ?sv)"
    by (rule command_at_gate [OF _ _ _ cc(1)]) (use Cons.prems in \<open>simp_all add: harmless_buffer\<close>)
  show ?case
  proof (cases go1)
    case True
    have "buffer_at sv1 c = drop n (buffer_at sv c)"
      using step True by (simp add: buffer_at_def put_buffer_def)
    then show ?thesis using Cons.IH [of sv1] Cons.prems(4) cc(2) step True p(2) by simp
  qed (use cc(2) step in simp)
qed

text \<open>What a sequence of reads brings.\<close>

fun received :: "recv_result list \<Rightarrow> bytes list" where
  "received [] = []"
| "received (Received chunk # rs) = chunk # received rs"
| "received (PeerClosed # rs) = []"
| "received (RecvInterrupted # rs) = received rs"
| "received (RecvFailed # rs) = []"

lemma recv_at_gate:
  assumes "harmless c sv0 sv" "at_gate c sv" "feed_chunks (buffer_at sv c) (received rs) = (cmds, rest, e)"
    and "list_all (wrong_guess (world_env w) (db sv0)) cmds" "client_recv w i c rs sv = Inr sv'"
  shows "harmless c sv0 sv'"
  using assms
proof (induction rs arbitrary: sv cmds rule: received.induct)
  case (2 chunk rs)
  let ?sv = "put_buffer c (buffer_at sv c @ chunk) sv"
  obtain cs b e1 where d: "drain (buffer_at sv c @ chunk) = (cs, b, e1)" by (metis prod_cases3)
  obtain sv1 go where c: "client_drain w i c ?sv = Inr (sv1, go)" "(if go then client_recv w i c rs sv1 else Inr sv1) = Inr sv'"
    using "2.prems"(5) by (auto simp: then_do_Inr)
  have "drain (buffer_at ?sv c) = (cs, b, e1)" using d by (simp add: buffer_at_def put_buffer_def)
  moreover have "list_all (wrong_guess (world_env w) (db sv0)) cs"
    using "2.prems"(3,4) d by (auto split: option.splits prod.splits)
  ultimately have 1: "harmless c sv0 sv1 \<and> (go \<longrightarrow> at_gate c sv1 \<and> e1 = None \<and> buffer_at sv1 c = b)"
    using "2.prems"(1,2) c(1) by (intro drain_at_gate [of c sv0 ?sv]) (simp_all add: harmless_buffer)
  show ?case
  proof (cases go)
    case True
    with 1 "2.prems"(3) d obtain ds where "feed_chunks (buffer_at sv1 c) (received rs) = (ds, rest, e)" "cmds = cs @ ds"
      by (auto split: prod.splits)
    with "2.IH" [of sv1 ds] "2.prems"(4) 1 c(2) True show ?thesis by simp
  qed (use 1 c(2) in simp)
qed (use harmless_close in auto)

section \<open>Properties\<close>

text \<open>C11: Nothing without the password. A connection that has not authenticated, on a server whose
  default user needs a password, can send any bytes in any pieces: as long as no \<open>AUTH\<close> among
  its requests offers a password of the default user, handling its input leaves the store, the
  log file, the other clients, their blocked requests and the replicas as they were, except
  that its own subscriptions may end; it stays unauthenticated, does not become a replica, and
  every byte sent goes to itself and is part of a fixed reply that does not depend on the data.
  (An input on which the parser throws ends the whole loop; see theory \<open>Resp\<close>.)\<close>

theorem locked_out_client_is_harmless:
  assumes "fds sv ! i = c" "c \<noteq> server_fd sv" "c \<noteq> master_fd sv"
    and "\<not> authenticated (client_at sv c)" "at_gate c sv"
    and "feed_chunks (buffer_at sv c) (received (ev_recvs ev)) = (cmds, rest, e)"
    and "list_all (wrong_guess (world_env w) (db sv)) cmds"
    and "handle_event w i ev sv = Inr sv'"
  shows "harmless c sv sv'"
proof -
  have here: "harmless c sv sv" using assms(4) by (simp add: harmless_def)
  show ?thesis
  proof (cases "c < 0 \<or> \<not> ev_in ev \<and> \<not> ev_error ev")
    case True
    with here assms(1,8) show ?thesis by (simp add: handle_event_def Let_def)
  next
    case False
    then obtain sv1 where "(if \<not> ev_in ev then Inr sv else client_recv w i c (ev_recvs ev) sv) = Inr sv1"
        "sv' = sv1 \<or> sv' = close_client i c sv1"
      using assms(1-3,8) by (auto simp: handle_event_def Let_def then_do_Inr split: if_splits)
    moreover from this(1) have "harmless c sv sv1"
      using recv_at_gate [OF here assms(5-7)] here by (auto split: if_splits)
    ultimately show ?thesis using harmless_close by blast
  qed
qed

text \<open>A server with a password, and a client that writes, guesses a password and reads.\<close>

definition sample_gate_world :: world where
  "sample_gate_world = sample_world\<lparr>world_env := (\<lambda>_. auth_env)\<rparr>"

definition sample_locked :: server where
  "sample_locked = sample_server\<lparr>clients := [(5, new_client 5)],
     db := (db sample_server)\<lparr>Storage := [(''k'', ''v'')], default_user_nopass := False,
       default_user_passwords := [hex_bytes (the (pad_digest ''secret''))]\<rparr>\<rparr>"

definition sample_attack :: event where
  "sample_attack = \<lparr>ev_in = True, ev_error = False, ev_accepts = [],
     ev_recvs = [Received (to_bytes (Array [''SET'', ''k'', ''x'']) @ to_bytes (Array [''AUTH'', ''guess'']) @ to_bytes (Array [''GET'', ''k'']))]\<rparr>"

lemma sample_attack_facts:
  "feed_chunks (buffer_at sample_locked 5) (received (ev_recvs sample_attack)) = ([[''SET'', ''k'', ''x''], [''AUTH'', ''guess''], [''GET'', ''k'']], [], None)"
  "list_all (\<lambda>args. to_upper (args ! 0) = ''AUTH'' \<longrightarrow> (case password_hash auth_env (last args) of Inl _ \<Rightarrow> True
     | Inr h \<Rightarrow> \<not> list_ex (memcmp_equal h) (default_user_passwords (db sample_locked)))) [[''SET'', ''k'', ''x''], [''AUTH'', ''guess''], [''GET'', ''k'']]"
  "\<not> isl (handle_event sample_gate_world 1 sample_attack sample_locked)"
  "fds sample_locked ! 1 = 5" "server_fd sample_locked = 3" "master_fd sample_locked = - 1" "client_at sample_locked 5 = new_client 5"
  "\<not> default_user_auto_auth (db sample_locked)" "pending_block (db sample_locked) = None" "pending_propagations (db sample_locked) = []"
  "pending_messages (db sample_locked) = []"
  by code_simp+

theorem locked_out_client_is_harmless_witness:
  "\<exists>sv'. handle_event sample_gate_world 1 sample_attack sample_locked = Inr sv' \<and> harmless 5 sample_locked sv'"
proof -
  let ?cmds = "[[''SET'', ''k'', ''x''], [''AUTH'', ''guess''], [''GET'', ''k'']]"
  note f = sample_attack_facts
  obtain sv' where sv': "handle_event sample_gate_world 1 sample_attack sample_locked = Inr sv'"
    using f(3) by (cases "handle_event sample_gate_world 1 sample_attack sample_locked") auto
  have "list_all (wrong_guess (world_env sample_gate_world) (db sample_locked)) ?cmds"
    using f(2) by (auto simp: list_all_iff wrong_guess_def sample_gate_world_def)
  moreover have "\<not> authenticated (client_at sample_locked 5)" "at_gate 5 sample_locked"
    using f(7-) by (simp_all add: at_gate_def new_client_def)
  ultimately have "harmless 5 sample_locked sv'"
    using f(4-6) by (intro locked_out_client_is_harmless [OF _ _ _ _ _ f(1) _ sv']) simp_all
  with sv' show ?thesis by blast
qed

end
