(* ===== verification/Server_Messages.thy ===== *)
theory Server_Messages
  imports Server_Access
begin

text \<open>
  Publishing, from the request to the wire: the messages that \<open>PUBLISH\<close> queues in the store
  are sent by the event loop as part of the same command.
\<close>

section \<open>Delivery\<close>

lemma slot_of_freed: "n \<noteq> - 1 \<Longrightarrow> fs ! j \<noteq> n \<Longrightarrow> slot_of n (fs[j := - 1]) = slot_of n fs"
proof -
  assume n: "n \<noteq> - 1" "fs ! j \<noteq> n"
  then have "fs[j := - 1] ! i = n \<longleftrightarrow> fs ! i = n" for i
    by (cases "i = j"; cases "j < length fs") (auto simp: list_update_beyond)
  then show ?thesis by (simp add: slot_of_def)
qed

lemma deliver_clients: "hcontains (clients (deliver w ms sv)) n \<Longrightarrow> hcontains (clients sv) n"
proof (induction ms arbitrary: sv)
  case (Cons m ms)
  obtain x msg where m: "m = (x, msg)" by fastforce
  let ?sv = "case slot_of x (fds sv) of None \<Rightarrow> sv
    | Some index \<Rightarrow> (case send_to w Message x msg sv of (ok, sv) \<Rightarrow> if ok then sv else close_client index x sv)"
  have "hcontains (clients ?sv) n" using Cons m by simp
  then show ?case by (auto simp: send_to_def close_client_def hcontains_def split: option.splits prod.splits if_splits)
qed simp

text \<open>Every message goes out once, to the recipients that are connected, in order. What is cut off
  by a failing send is lost with its connection.\<close>

lemma deliver_sends:
  assumes "distinct (map fst ms)" "- 1 \<notin> set (map fst ms)"
  shows "\<exists>sent. outbox (deliver w ms sv) = outbox sv @ sent
     \<and> map fst sent = filter (\<lambda>n. slot_of n (fds sv) \<noteq> None) (map fst ms)
     \<and> (\<forall>(n, lane, b) \<in> set sent. lane = Message \<and> (\<exists>msg. (n, msg) \<in> set ms \<and> prefix b msg
          \<and> (b = msg \<or> \<not> hcontains (clients (deliver w ms sv)) n)))"
  using assms
proof (induction ms arbitrary: sv)
  case (Cons m ms)
  obtain x msg where m: "m = (x, msg)" by fastforce
  have x: "x \<notin> set (map fst ms)" "x \<noteq> - 1" using Cons.prems m by auto
  show ?case
  proof (cases "slot_of x (fds sv)")
    case None
    with Cons.IH [of sv] Cons.prems m show ?thesis by (fastforce simp: m)
  next
    case (Some j)
    obtain b ok where b: "send_all (world_sends w (n_sends sv)) msg = (b, ok)" by fastforce
    define sv1 where "sv1 = (if ok then snd (send_to w Message x msg sv) else close_client j x (snd (send_to w Message x msg sv)))"
    have d: "deliver w (m # ms) sv = deliver w ms sv1" using Some b by (simp add: m sv1_def send_to_def)
    have out: "outbox sv1 = outbox sv @ [(x, Message, b)]" using b by (simp add: sv1_def send_to_def close_client_def)
    have "slot_of n (fds sv1) = slot_of n (fds sv)" if "n \<in> set (map fst ms)" for n
    proof -
      have "n \<noteq> - 1" "n \<noteq> x" using that x Cons.prems(2) by (metis list.set_intros(2) list.simps(9), blast)
      then show ?thesis using slot_of_Some [OF Some] slot_of_freed [of n "fds sv" j] by (auto simp: sv1_def)
    qed
    then have "filter (\<lambda>n. slot_of n (fds sv1) \<noteq> None) (map fst ms) = filter (\<lambda>n. slot_of n (fds sv) \<noteq> None) (map fst ms)"
      by (intro filter_cong) auto
    with Cons.IH [of sv1] Cons.prems obtain sent where
      sent: "outbox (deliver w ms sv1) = outbox sv1 @ sent"
        "map fst sent = filter (\<lambda>n. slot_of n (fds sv) \<noteq> None) (map fst ms)"
        "\<forall>(n, lane, b) \<in> set sent. lane = Message \<and> (\<exists>msg. (n, msg) \<in> set ms \<and> prefix b msg
          \<and> (b = msg \<or> \<not> hcontains (clients (deliver w ms sv1)) n))" by auto
    have "prefix b msg" "ok \<longrightarrow> b = msg" using send_all_prefix [OF b] by auto
    moreover have "ok \<or> \<not> hcontains (clients sv1) x" by (simp add: sv1_def close_client_def hcontains_def)
    then have "ok \<or> \<not> hcontains (clients (deliver w ms sv1)) x" using deliver_clients [of w ms sv1 x] by blast
    ultimately show ?thesis
      using sent out Some unfolding d by (intro exI [of _ "(x, Message, b) # sent"]) (fastforce simp: m)
  qed
qed simp

lemma finish_delivers:
  assumes "finish_command w i c sv = (sv', go)" "distinct (map fst (pending_messages (db sv)))"
    and "- 1 \<notin> set (map fst (pending_messages (db sv)))"
  shows "\<exists>sent. outbox sv' = outbox sv @ sent
     \<and> map fst sent = filter (\<lambda>n. slot_of n (fds sv) \<noteq> None) (map fst (pending_messages (db sv)))
     \<and> (\<forall>(n, lane, b) \<in> set sent. lane = Message \<and> (\<exists>msg. (n, msg) \<in> set (pending_messages (db sv)) \<and> prefix b msg
          \<and> (b = msg \<or> \<not> hcontains (clients sv') n)))"
proof -
  let ?d = "deliver_messages w sv" and ?sv = "sv\<lparr>db := (db sv)\<lparr>pending_messages := []\<rparr>\<rparr>"
  have d: "?d = deliver w (pending_messages (db sv)) ?sv" by (simp add: deliver_messages_def take_pending_messages_def)
  have "sv' = ?d \<or> sv' = close_client i c ?d" using assms(1) by (auto simp: finish_command_def Let_def split: if_splits)
  then have "outbox sv' = outbox ?d" "hcontains (clients sv') n \<Longrightarrow> hcontains (clients ?d) n" for n
    by (auto simp: close_client_def hcontains_def split: if_splits)
  then show ?thesis using deliver_sends [OF assms(2,3), of w ?sv] unfolding d by simp blast
qed

section \<open>Properties\<close>

lemma handle_publish_command:
  assumes "to_upper cmd = ''PUBLISH''" "authenticated client" "subscriptions client = []" "\<not> in_multi client"
  shows "handle_command env [cmd, ch, txt'] s client
     = (case handle_publish s [cmd, ch, txt'] of (s', r) \<Rightarrow> (s', client, Inr r))"
  using assms
  by (simp add: handle_command_def dispatch_command_def dispatch_data_def front_commands_def plain_def Let_def case_prod_beta)

text \<open>C28: Publishing reaches the wire. When the loop runs \<open>PUBLISH channel message\<close> of a client
  that has authenticated, is not subscribed itself and is not in a transaction, and nothing is
  left pending in the store, the reply is the number of subscribers of the channel, and once it is sent, the message is sent
  exactly once to every subscriber that is connected and to nobody else, in increasing order
  of connection number; a subscriber that gets only a part of it has been disconnected.\<close>

theorem published_message_reaches_subscribers:
  fixes message :: string
  assumes "client_command w i c [cmd, ch, message] sv = Inr (sv', go)" "to_upper cmd = ''PUBLISH''"
    and "authenticated (client_at sv c)" "subscriptions (client_at sv c) = []" "\<not> in_multi (client_at sv c)"
    and "store_wf (db sv)" "pending_block (db sv) = None" "pending_propagations (db sv) = []" "pending_messages (db sv) = []"
    and "(ch, - 1) \<notin> subs (db sv)" "snd (send_all (world_sends w (n_sends sv)) (to_bytes (Integer (int (card {n. (ch, n) \<in> subs (db sv)})))))"
  shows "\<exists>recipients sent. set recipients = {n. (ch, n) \<in> subs (db sv)} \<and> sorted_wrt (<) recipients
     \<and> outbox sv' = outbox sv @ (c, Answer, to_bytes (Integer (int (length recipients)))) # sent
     \<and> map fst sent = filter (\<lambda>n. slot_of n (fds sv) \<noteq> None) recipients
     \<and> (\<forall>(n, lane, b) \<in> set sent. lane = Message \<and> prefix b (to_bytes (Array [''message'', ch, message]))
          \<and> (b = to_bytes (Array [''message'', ch, message]) \<or> \<not> hcontains (clients sv') n))"
proof -
  define msg where "msg = to_bytes (Array [''message'', ch, message])"
  let ?env = "world_env w (n_commands sv)"
  obtain ns where ns: "set ns = {n. (ch, n) \<in> subs (db sv)}" "sorted_wrt (<) ns"
      "handle_publish (db sv) [cmd, ch, message] = ((db sv)\<lparr>pending_messages := map (\<lambda>n. (n, msg)) ns\<rparr>, to_bytes (Integer (int (length ns))))"
    using publish_reaches_subscribers_once [OF assms(6), of ch cmd message, folded msg_def] assms(9) by auto
  let ?r = "to_bytes (Integer (int (length ns)))" and ?ms = "map (\<lambda>n. (n, msg)) ns"
  let ?sv = "put_client c (client_at sv c) (sv\<lparr>db := (db sv)\<lparr>pending_messages := ?ms\<rparr>, n_commands := Suc (n_commands sv)\<rparr>)"
  have "distinct ns" using ns(2) by (simp add: strict_sorted_iff)
  then have "card {n. (ch, n) \<in> subs (db sv)} = length ns" using ns(1) distinct_card by metis
  then obtain b where b: "send_all (world_sends w (n_sends sv)) ?r = (b, True)" using assms(11) by (metis prod.collapse)
  then have "b = ?r" by (rule send_all_ok)
  let ?sent = "?sv\<lparr>n_sends := Suc (n_sends sv), outbox := outbox sv @ [(c, Answer, ?r)]\<rparr>"
  have "run_command w c [cmd, ch, message] sv = (?sv, ?r)"
    using handle_publish_command [OF assms(2-5)] ns(3) by (simp add: run_command_def)
  moreover have "\<not> is_write_command ''PUBLISH''" by code_simp
  moreover have "\<not> is_ack c [cmd, ch, message] sv" using assms(2) by (simp add: is_ack_def)
  ultimately have "then_do (record_pending w c False ?sv) (\<lambda>sv. Inr (answer_command w ?env i c ?r sv)) = Inr (sv', go)"
    using assms(1,2,5) by (simp add: client_command_def record_write_def is_logged_def register_replica_def)
  moreover have "db ?sv = (db sv)\<lparr>pending_messages := ?ms\<rparr>" by (simp add: put_client_def)
  then have taken: "take_pending_propagations (db ?sv) = ([], db ?sv)" "take_pending_block (db ?sv) = (None, db ?sv)"
    using assms(7,8) by (simp_all add: take_pending_propagations_def take_pending_block_def)
  then have "record_pending w c False ?sv = Inr ?sv"
    unfolding record_pending_def taken prod.case db_again by (simp add: log_pending_def)
  ultimately have "answer_command w ?env i c ?r ?sv = (sv', go)" by simp
  moreover have "send_to w Answer c ?r ?sv = (True, ?sent)"
    using b \<open>b = ?r\<close> by (simp add: send_to_def put_client_def)
  moreover have "?r \<noteq> []" by (simp add: to_bytes.simps)
  ultimately have "finish_command w i c ?sent = (sv', go)"
    unfolding answer_command_def taken prod.case option.case db_again by simp
  moreover have "pending_messages (db ?sent) = ?ms" "fds ?sent = fds sv" "outbox ?sent = outbox sv @ [(c, Answer, ?r)]" "map fst ?ms = ns"
    by (simp_all add: put_client_def comp_def)
  ultimately obtain sent where sent: "outbox sv' = (outbox sv @ [(c, Answer, ?r)]) @ sent" "map fst sent = filter (\<lambda>n. slot_of n (fds sv) \<noteq> None) ns"
      "\<forall>(n, lane, b) \<in> set sent. lane = Message \<and> (\<exists>msg. (n, msg) \<in> set ?ms \<and> prefix b msg \<and> (b = msg \<or> \<not> hcontains (clients sv') n))"
    using finish_delivers [of w i c ?sent sv' go] \<open>distinct ns\<close> ns(1) assms(10) by auto
  have "\<forall>(n, lane, b) \<in> set sent. lane = Message \<and> prefix b msg \<and> (b = msg \<or> \<not> hcontains (clients sv') n)"
    using sent(3) by fastforce
  with sent(1,2) ns(1,2) show ?thesis
    unfolding msg_def [symmetric] by (intro exI [of _ ns] exI [of _ sent]) simp
qed

text \<open>Two connections subscribed to a channel, one of which is gone, and a third that publishes.\<close>

definition sample_board :: server where
  "sample_board = (add_client 7 sample_server)
     \<lparr>db := (db sample_server)\<lparr>subscribers := [(''news'', [7, 9])]\<rparr>\<rparr>"

lemma sample_board_facts:
  "\<not> isl (client_command sample_world 1 5 [''publish'', ''news'', ''hi''] sample_board)" "to_upper ''publish'' = ''PUBLISH''"
  "authenticated (client_at sample_board 5)" "subscriptions (client_at sample_board 5) = []" "\<not> in_multi (client_at sample_board 5)"
  "pending_block (db sample_board) = None" "pending_propagations (db sample_board) = []" "pending_messages (db sample_board) = []"
  "subscribers_at (db sample_board) ''news'' = [7, 9]" "map (\<lambda>n. slot_of n (fds sample_board)) [7, 9] = [Some 2, None]"
  "send_all (world_sends sample_world (n_sends sample_board)) (to_bytes (Integer 2)) = (to_bytes (Integer 2), True)"
  "outbox sample_board = []"
  by code_simp+

lemma sample_board_wf: "store_wf (db sample_board)"
proof -
  have "store_wf (db sample_server)" unfolding sample_server_def sample_started_def
    by (simp add: add_client_def run_start_def put_client_def store_init_wf store_wf_new)
  then have "store_wf ((db sample_server)\<lparr>subscribers := [(''news'', [7, 9])]\<rparr>)"
    by (rule replace_subscribers_wf) (auto simp: hmap_ok_def oset_ok_def hget_def split: if_splits)
  then show ?thesis by (simp add: sample_board_def)
qed

theorem published_message_reaches_subscribers_witness:
  "\<exists>sv' go b. client_command sample_world 1 5 [''publish'', ''news'', ''hi''] sample_board = Inr (sv', go)
     \<and> outbox sv' = [(5, Answer, to_bytes (Integer 2)), (7, Message, b)]"
proof -
  note f = sample_board_facts
  obtain sv' go where cc: "client_command sample_world 1 5 [''publish'', ''news'', ''hi''] sample_board = Inr (sv', go)"
    using f(1) by (cases "client_command sample_world 1 5 [''publish'', ''news'', ''hi''] sample_board") auto
  have subs: "{n. (''news'', n) \<in> subs (db sample_board)} = {7, 9}" "(''news'', - 1) \<notin> subs (db sample_board)"
    using f(9) by (auto simp: subs_def)
  have "snd (send_all (world_sends sample_world (n_sends sample_board)) (to_bytes (Integer (int (card {n. (''news'', n) \<in> subs (db sample_board)})))))"
    using f(11) unfolding subs(1) by simp
  from published_message_reaches_subscribers [OF cc f(2-5) sample_board_wf f(6-8) subs(2) this] obtain recipients sent where
    r: "set recipients = {7, 9}" "sorted_wrt (<) recipients" "outbox sv' = (5, Answer, to_bytes (Integer (int (length recipients)))) # sent"
      "map fst sent = filter (\<lambda>n. slot_of n (fds sample_board) \<noteq> None) recipients"
      "\<forall>(n, lane, b) \<in> set sent. lane = Message"
    unfolding subs(1) f(12) by fastforce
  have "recipients = [7, 9]" by (rule strict_sorted_equal) (use r(1,2) in simp_all)
  with f(10) r(3-5) cc show ?thesis by (auto simp: map_eq_Cons_conv)
qed

end
