(* ===== verification/Server_Records.thy ===== *)
theory Server_Records
  imports Server_Safety
begin

text \<open>
  What the event loop records of the commands it runs: the log file and the replication
  stream. A command adds to the stream of every replica that stays connected exactly the
  encodings of the commands it logs, and the replication offset counts those bytes, so an
  offset acknowledged by a replica identifies the commands it has received.
\<close>

section \<open>The replication stream of a connection\<close>

definition stream_to :: "int \<Rightarrow> server \<Rightarrow> bytes" where
  "stream_to r sv = concat (map (\<lambda>(c, lane, b). if c = r \<and> lane = Replication then b else []) (outbox sv))"

text \<open>
  From one state to another the stream of every remaining replica grew by the same bytes,
  and the offset by their number (modulo the width of the counter).
\<close>

definition streamed :: "bytes \<Rightarrow> server \<Rightarrow> server \<Rightarrow> bool" where
  "streamed x sv sv' \<longleftrightarrow>
     (master_repl_offset (db sv') - master_repl_offset (db sv) - int (length x)) mod 2 ^ 64 = 0
     \<and> (\<forall>r. hcontains (replicas sv') r \<longrightarrow> hcontains (replicas sv) r \<and> stream_to r sv' = stream_to r sv @ x)"

lemma streamed_refl [simp]: "streamed [] sv sv"
  by (simp add: streamed_def)

lemma streamed_trans: "streamed x sv sv1 \<Longrightarrow> streamed y sv1 sv2 \<Longrightarrow> streamed (x @ y) sv sv2"
  unfolding streamed_def by (auto simp: mod_eq_0_iff_dvd) (smt (verit) dvd_add dvd_diff)

lemma streamed_same:
  "master_repl_offset (db sv') = master_repl_offset (db sv) \<Longrightarrow> outbox sv' = outbox sv \<Longrightarrow>
     (\<And>r. hcontains (replicas sv') r \<Longrightarrow> hcontains (replicas sv) r) \<Longrightarrow> streamed [] sv sv'"
  by (simp add: streamed_def stream_to_def)

lemma streamed_send: "lane \<noteq> Replication \<Longrightarrow> streamed [] sv (snd (send_to w lane c payload sv))"
  by (auto simp: streamed_def stream_to_def send_to_def case_prod_beta)

lemma stream_to_send [simp]:
  "stream_to r (snd (send_to w Replication c payload sv))
     = stream_to r sv @ (if c = r then fst (send_all (world_sends w (n_sends sv)) payload) else [])"
  by (simp add: stream_to_def send_to_def case_prod_beta)

lemma replicas_send_to [simp]: "replicas (snd (send_to w lane c payload sv)) = replicas sv"
  by (simp add: send_to_def case_prod_beta)

lemma send_each_stream:
  "distinct (map fst rs) \<Longrightarrow>
     db (send_each w encoded rs sv) = db sv
     \<and> (\<forall>r. hcontains (replicas (send_each w encoded rs sv)) r \<longrightarrow> hcontains (replicas sv) r
          \<and> stream_to r (send_each w encoded rs sv) = stream_to r sv @ (if r \<in> fst ` set rs then encoded else []))"
proof (induction rs arbitrary: sv)
  case (Cons x rs)
  obtain c off where x: "x = (c, off)" by fastforce
  obtain ok sv1 where s: "send_to w Replication c encoded sv = (ok, sv1)" by fastforce
  obtain out where o: "send_all (world_sends w (n_sends sv)) encoded = (out, ok)"
    using s by (cases "send_all (world_sends w (n_sends sv)) encoded") (simp add: send_to_def)
  define sv2 where "sv2 = (if ok then sv1 else sv1\<lparr>replicas := herase c (replicas sv1)\<rparr>)"
  have sv1: "db sv1 = db sv" "replicas sv1 = replicas sv"
      "stream_to r sv1 = stream_to r sv @ (if c = r then out else [])" for r
    using db_frame(1) [of w Replication c encoded sv] replicas_send_to [of w Replication c encoded sv]
      stream_to_send [of r w c encoded sv] s o by simp_all
  have sv2: "db sv2 = db sv" "stream_to r sv2 = stream_to r sv1"
      "hcontains (replicas sv2) r \<longleftrightarrow> hcontains (replicas sv) r \<and> (r = c \<longrightarrow> ok)" for r
    using sv1 by (auto simp: sv2_def stream_to_def hcontains_def)
  have "send_each w encoded (x # rs) sv = send_each w encoded rs sv2" by (simp add: x s sv2_def)
  moreover have "out = encoded" if ok using o send_all_ok that by auto
  ultimately show ?case
    using Cons.IH [of sv2] Cons.prems sv1 sv2 by (auto simp: x)
qed simp

lemma wrap_s64_mod: "(wrap_s64 v - v) mod 2 ^ 64 = 0"
  by (simp add: wrap_s64_def mod_eq_0_iff_dvd mod_eq_dvd_iff [symmetric] mod_diff_left_eq)

lemma send_to_replicas_streamed:
  assumes "hmap_ok (replicas sv)"
  shows "streamed encoded sv (send_to_replicas w encoded sv)"
proof -
  let ?sv = "sv\<lparr>db := bump_repl_offset (int (length encoded)) (db sv)\<rparr>"
  have "distinct (map fst (replicas sv))" using assms by (simp add: hmap_ok_def)
  from send_each_stream [OF this, of w encoded ?sv]
  have *: "db (send_to_replicas w encoded sv) = db ?sv"
      "\<And>r. hcontains (replicas (send_to_replicas w encoded sv)) r \<Longrightarrow> hcontains (replicas sv) r
         \<and> stream_to r (send_to_replicas w encoded sv)
            = stream_to r sv @ (if r \<in> fst ` set (replicas sv) then encoded else [])"
    by (auto simp: send_to_replicas_def stream_to_def)
  have "r \<in> fst ` set (replicas sv)" if "hcontains (replicas sv) r" for r
    using that dom_map_of_conv_image_fst [of "replicas sv"] by (auto simp: hcontains_def hget_def)
  with * show ?thesis
    using wrap_s64_mod [of "master_repl_offset (db sv) + int (length encoded)"]
    by (auto simp: streamed_def bump_repl_offset_def algebra_simps)
qed

lemma hmap_ok_send_each: "hmap_ok (replicas sv) \<Longrightarrow> hmap_ok (replicas (send_each w encoded rs sv))"
proof (induction rs arbitrary: sv)
  case (Cons x rs)
  obtain c off where x: "x = (c, off)" by fastforce
  obtain ok sv1 where s: "send_to w Replication c encoded sv = (ok, sv1)" by fastforce
  with replicas_send_to [of w Replication c encoded sv] have "replicas sv1 = replicas sv" by simp
  with Cons show ?case by (simp add: x s)
qed simp

lemma send_each_log: "disk_of (send_each w encoded rs sv) = disk_of sv \<and> aof (send_each w encoded rs sv) = aof sv"
proof (induction rs arbitrary: sv)
  case (Cons x rs)
  obtain c off where x: "x = (c, off)" by fastforce
  obtain ok sv1 where s: "send_to w Replication c encoded sv = (ok, sv1)" by fastforce
  then have "disk_of sv1 = disk_of sv" "aof sv1 = aof sv" by (auto simp: send_to_def split: prod.splits)
  with Cons.IH show ?case by (simp add: x s)
qed simp

section \<open>The log file\<close>

text \<open>The log grew by some bytes, if it is open; otherwise nothing is written.\<close>

definition log_grew :: "bytes \<Rightarrow> server \<Rightarrow> server \<Rightarrow> bool" where
  "log_grew x sv sv' \<longleftrightarrow> aof_fd (aof sv') = aof_fd (aof sv) \<and>
     (case aof_fd (aof sv) of
        None \<Rightarrow> disk_of sv' = disk_of sv
      | Some path \<Rightarrow> contents (disk_of sv') path = contents (disk_of sv) path @ x
          \<and> (\<forall>p. p \<noteq> path \<longrightarrow> hget (disk_of sv') p = hget (disk_of sv) p)
          \<and> (hcontains (disk_of sv) path \<longrightarrow> hcontains (disk_of sv') path))"

lemma log_grew_same: "disk_of sv' = disk_of sv \<Longrightarrow> aof sv' = aof sv \<Longrightarrow> log_grew [] sv sv'"
  by (simp add: log_grew_def split: option.split)

lemma log_grew_trans: "log_grew x sv sv1 \<Longrightarrow> log_grew y sv1 sv2 \<Longrightarrow> log_grew (x @ y) sv sv2"
  by (auto simp: log_grew_def split: option.splits)

definition enc :: "args \<Rightarrow> bytes" where
  "enc args = to_bytes (Array args)"

definition enc_all :: "args list \<Rightarrow> bytes" where
  "enc_all cmds = concat (map enc cmds)"

lemma enc_all_simps [simp]: "enc_all [] = []" "enc_all (c # cs) = enc c @ enc_all cs" "enc_all (cs @ ds) = enc_all cs @ enc_all ds"
  by (simp_all add: enc_all_def)

text \<open>Both effects together: the bytes logged and the bytes streamed.\<close>

definition recorded :: "bytes \<Rightarrow> bytes \<Rightarrow> server \<Rightarrow> server \<Rightarrow> bool" where
  "recorded logged sent sv sv' \<longleftrightarrow> log_grew logged sv sv' \<and> streamed sent sv sv'
     \<and> (hmap_ok (replicas sv) \<longrightarrow> hmap_ok (replicas sv'))"

lemma recorded_trans:
  "recorded a x sv sv1 \<Longrightarrow> recorded b y sv1 sv2 \<Longrightarrow> recorded (a @ b) (x @ y) sv sv2"
  by (auto simp: recorded_def intro: log_grew_trans streamed_trans)

lemma recorded_same:
  "disk_of sv' = disk_of sv \<Longrightarrow> aof sv' = aof sv \<Longrightarrow> master_repl_offset (db sv') = master_repl_offset (db sv) \<Longrightarrow>
     outbox sv' = outbox sv \<Longrightarrow> replicas sv' = replicas sv \<Longrightarrow> recorded [] [] sv sv'"
  using streamed_same [of sv' sv] by (simp add: recorded_def log_grew_same)

lemma log_call_grew:
  assumes "log_call operation w sv = Inr sv'"
    and "\<And>path calls d a d' a' u. aof_fd a = Some path \<Longrightarrow> operation calls d a = Some (d', a', Inr u) \<Longrightarrow>
      aof_fd a' = Some path \<and> contents d' path = contents d path @ x \<and> (\<forall>p. p \<noteq> path \<longrightarrow> hget d' p = hget d p)
      \<and> (hcontains d path \<longrightarrow> hcontains d' path)"
    and "\<And>calls d a d' a' u. aof_fd a = None \<Longrightarrow> operation calls d a = Some (d', a', Inr u) \<Longrightarrow> d' = d \<and> aof_fd a' = None"
  shows "recorded x [] sv sv'"
proof -
  obtain d a u where op: "operation (world_log w (n_logs sv)) (disk_of sv) (aof sv) = Some (d, a, Inr u)"
      "sv' = sv\<lparr>disk_of := d, aof := a, n_logs := Suc (n_logs sv)\<rparr>"
    using assms(1) by (auto simp: log_call_def split: option.splits sum.splits)
  have "log_grew x sv sv'"
  proof (cases "aof_fd (aof sv)")
    case None
    with assms(3) [OF None op(1)] op(2) show ?thesis by (simp add: log_grew_def)
  next
    case (Some path)
    with assms(2) [OF Some op(1)] op(2) show ?thesis by (simp add: log_grew_def)
  qed
  moreover have "streamed [] sv sv'" by (rule streamed_same) (simp_all add: op(2))
  ultimately show ?thesis by (simp add: recorded_def op(2))
qed

lemma aof_write_file: "aof_write calls path b d a = Some (d', a', r) \<Longrightarrow> hcontains d' path"
  by (auto simp: aof_write_def Let_def split: option.splits sum.splits prod.splits)

lemma aof_write_grew:
  "aof_write calls path b d a = Some (d', a', Inr u) \<Longrightarrow> aof_fd a = Some path \<Longrightarrow>
     aof_fd a' = Some path \<and> contents d' path = contents d path @ b \<and> (\<forall>p. p \<noteq> path \<longrightarrow> hget d' p = hget d p)
     \<and> hcontains d' path"
  using aof_write_file [of calls path b d a d' a' "Inr u"] aof_write_cases [of a path calls b d d' a' "Inr u"] by auto

lemma log_command_recorded: "log_command w args sv = Inr sv' \<Longrightarrow> recorded (enc args) [] sv sv'"
  unfolding log_command_def
  by (erule log_call_grew) (auto simp: append_command_def enc_def dest!: aof_write_grew)

lemma log_transaction_recorded:
  "log_transaction w cmds sv = Inr sv' \<Longrightarrow> recorded (if cmds = [] then [] else transaction_bytes cmds) [] sv sv'"
  unfolding log_transaction_def
  by (erule log_call_grew)
    (auto simp: append_transaction_def split: if_splits dest!: aof_write_grew)

lemma log_each_recorded: "log_each w cmds sv = Inr sv' \<Longrightarrow> recorded (enc_all cmds) [] sv sv'"
proof (induction cmds arbitrary: sv)
  case Nil
  then show ?case by (simp add: recorded_same)
next
  case (Cons args cmds)
  then obtain sv1 where "log_command w args sv = Inr sv1" "log_each w cmds sv1 = Inr sv'" by (auto simp: then_do_Inr)
  with recorded_trans [OF log_command_recorded Cons.IH] show ?case by fastforce
qed

section \<open>What one command records\<close>

text \<open>Recording does not touch what is queued.\<close>

interpretation keeps_queue: recording "\<lambda>sv. pending_propagations (db sv) = q" c for q c
  by unfold_locales (auto simp: bump_repl_offset_def)


lemma propagate_recorded:
  assumes "hmap_ok (replicas sv)"
  shows "recorded [] (enc args) sv (note_offset c (propagate_to_replicas w args sv))"
proof -
  let ?sv = "propagate_to_replicas w args sv"
  have "disk_of ?sv = disk_of sv" "aof ?sv = aof sv" "hmap_ok (replicas ?sv)"
    using assms hmap_ok_send_each send_each_log by (simp_all add: propagate_to_replicas_def send_to_replicas_def)
  then have "recorded [] (enc args) sv ?sv"
    using send_to_replicas_streamed [OF assms, of "enc args" w]
    by (simp add: recorded_def log_grew_same propagate_to_replicas_def enc_def)
  moreover have "recorded [] [] ?sv (note_offset c ?sv)"
    by (rule recorded_same) (simp_all add: note_offset_def put_client_def)
  ultimately show ?thesis using recorded_trans by fastforce
qed

lemma propagate_each_recorded:
  "hmap_ok (replicas sv) \<Longrightarrow> recorded [] (enc_all cmds) sv (propagate_each w c cmds sv)"
proof (induction cmds arbitrary: sv)
  case Nil
  then show ?case by (simp add: recorded_same)
next
  case (Cons args cmds)
  let ?sv = "note_offset c (propagate_to_replicas w args sv)"
  have "recorded [] (enc args) sv ?sv" by (rule propagate_recorded [OF Cons.prems])
  with recorded_trans [OF this Cons.IH [of ?sv]] Cons.prems show ?case by (simp add: recorded_def)
qed

lemma record_each_recorded:
  "hmap_ok (replicas sv) \<Longrightarrow> record_each w c cmds sv = Inr sv' \<Longrightarrow> recorded (enc_all cmds) (enc_all cmds) sv sv'"
proof (induction cmds arbitrary: sv)
  case Nil
  then show ?case by (simp add: recorded_same)
next
  case (Cons args cmds)
  obtain sv1 where r: "log_command w args sv = Inr sv1"
      "record_each w c cmds (note_offset c (propagate_to_replicas w args sv1)) = Inr sv'"
    using Cons.prems(2) by (auto simp: then_do_Inr)
  let ?sv = "note_offset c (propagate_to_replicas w args sv1)"
  have 1: "recorded (enc args) [] sv sv1" by (rule log_command_recorded [OF r(1)])
  then have ok1: "hmap_ok (replicas sv1)" using Cons.prems(1) by (simp add: recorded_def)
  have 2: "recorded [] (enc args) sv1 ?sv" by (rule propagate_recorded [OF ok1])
  then have "hmap_ok (replicas ?sv)" using ok1 by (simp add: recorded_def)
  from recorded_trans [OF recorded_trans [OF 1 2] Cons.IH [OF this r(2)]] show ?case by simp
qed

text \<open>The bytes that go to the log for the commands queued while a command ran.\<close>

definition pending_bytes :: "bool \<Rightarrow> args list \<Rightarrow> bytes" where
  "pending_bytes was_in_multi pending =
     (if was_in_multi then if pending = [] then [] else transaction_bytes pending else enc_all pending)"

lemma record_pending_recorded:
  assumes "hmap_ok (replicas sv)" "record_pending w c m sv = Inr sv'"
  shows "recorded (pending_bytes m (pending_propagations (db sv))) (enc_all (pending_propagations (db sv))) sv sv'"
proof -
  let ?p = "pending_propagations (db sv)"
  let ?sv = "sv\<lparr>db := (db sv)\<lparr>pending_propagations := []\<rparr>\<rparr>"
  obtain sv1 where r: "log_pending w m ?p ?sv = Inr sv1" "sv' = propagate_each w c ?p sv1"
    using assms(2) by (auto simp: record_pending_def take_pending_propagations_def then_do_Inr)
  have 0: "recorded [] [] sv ?sv" by (rule recorded_same) simp_all
  have 1: "recorded (pending_bytes m ?p) [] ?sv sv1"
    using r(1) log_transaction_recorded [of w ?p ?sv sv1] log_each_recorded [of w ?p ?sv sv1]
    by (auto simp: log_pending_def pending_bytes_def split: if_splits)
  have "hmap_ok (replicas sv1)" using 1 assms(1) by (simp add: recorded_def)
  from recorded_trans [OF recorded_trans [OF 0 1] propagate_each_recorded [OF this]] r(2) show ?thesis by fastforce
qed

lemma record_write_recorded:
  assumes "hmap_ok (replicas sv)" "record_write w c args m response sv = Inr sv'"
  shows "recorded (if is_logged args m response then enc args else []) (if is_logged args m response then enc args else []) sv sv'"
proof (cases "is_logged args m response")
  case True
  with assms(2) have "record_each w c [args] sv = Inr sv'" by (simp add: record_write_def del: record_each.simps)
  from record_each_recorded [OF assms(1) this] True show ?thesis by simp
next
  case False
  with assms(2) show ?thesis by (simp add: record_write_def recorded_same)
qed

lemma close_recorded: "recorded [] [] sv (close_client i c sv)"
proof -
  have "streamed [] sv (close_client i c sv)"
    by (rule streamed_same) (auto simp: close_client_def remove_subscriber_def hcontains_def split: if_splits)
  then show ?thesis by (auto simp: recorded_def close_client_def intro: log_grew_same)
qed

lemma send_recorded: "lane \<noteq> Replication \<Longrightarrow> recorded [] [] sv (snd (send_to w lane c payload sv))"
  using streamed_send [of lane sv w c payload]
  by (auto simp: recorded_def send_to_def case_prod_beta intro: log_grew_same)

lemma recorded_nothing: "recorded [] [] sv sv1 \<Longrightarrow> recorded a x sv1 sv2 \<Longrightarrow> recorded a x sv sv2"
  using recorded_trans [of "[]" "[]" sv sv1 a x sv2] by simp

lemma deliver_recorded: "recorded [] [] sv (deliver w ms sv)"
proof (induction ms arbitrary: sv)
  case Nil
  then show ?case by (simp add: recorded_same)
next
  case (Cons m ms)
  obtain c message where m: "m = (c, message)" by fastforce
  obtain ok sv1 where s: "send_to w Message c message sv = (ok, sv1)" by fastforce
  have 1: "recorded [] [] sv sv1" using send_recorded [of Message sv w c message] s by simp
  then have "recorded [] [] sv (close_client i c sv1)" for i using recorded_nothing close_recorded by blast
  with 1 Cons.IH recorded_nothing show ?case by (simp add: m s split: option.split) blast
qed

lemma finish_recorded: "recorded [] [] sv (fst (finish_command w i c sv))"
proof -
  have "recorded [] [] sv (sv\<lparr>db := (db sv)\<lparr>pending_messages := []\<rparr>\<rparr>)" by (rule recorded_same) simp_all
  then have "recorded [] [] sv (deliver_messages w sv)"
    using deliver_recorded recorded_nothing by (simp add: deliver_messages_def take_pending_messages_def)
  moreover from this have "recorded [] [] sv (close_client i c (deliver_messages w sv))"
    using close_recorded recorded_nothing by blast
  ultimately show ?thesis by (simp add: finish_command_def Let_def)
qed

text \<open>Answering a command adds nothing but, for a \<open>WAIT\<close> that blocks, the request for acknowledgements.\<close>

lemma block_recorded:
  assumes "hmap_ok (replicas sv)"
  shows "\<exists>ack \<in> {[], getack}. recorded [] ack sv (block_client w env c block sv)"
proof -
  have w: "recorded [] [] sv' (sv'\<lparr>waiters := ws\<rparr>)" for sv' ws by (rule recorded_same) simp_all
  have "disk_of (send_to_replicas w getack sv) = disk_of sv" "aof (send_to_replicas w getack sv) = aof sv"
      "hmap_ok (replicas (send_to_replicas w getack sv))"
    using assms hmap_ok_send_each send_each_log by (simp_all add: send_to_replicas_def)
  then have "recorded [] getack sv (send_to_replicas w getack sv)"
    using send_to_replicas_streamed [OF assms, of getack w] by (simp add: recorded_def log_grew_same)
  from recorded_trans [OF this w] send_recorded [of Answer sv w c] w [of sv] show ?thesis
    by (auto simp: block_client_def Let_def)
qed

lemma answer_recorded:
  assumes "hmap_ok (replicas sv)"
  shows "\<exists>ack \<in> {[], getack}. recorded [] ack sv (fst (answer_command w env i c response sv))"
proof -
  let ?sv = "sv\<lparr>db := (db sv)\<lparr>pending_block := None\<rparr>\<rparr>"
  have 0: "recorded [] [] sv ?sv" by (rule recorded_same) simp_all
  have fin: "recorded [] ack sv (fst (finish_command w i c sv'))" if "recorded [] ack sv sv'" for ack sv'
    using recorded_trans [OF that finish_recorded] by simp
  show ?thesis
  proof (cases "pending_block (db sv)")
    case (Some block)
    obtain ack where "ack \<in> {[], getack}" "recorded [] ack ?sv (block_client w env c block ?sv)"
      using block_recorded [of ?sv w env c block] assms by auto
    with fin recorded_nothing [OF 0] Some show ?thesis
      by (intro bexI [of _ ack]) (auto simp: answer_command_def take_pending_block_def)
  next
    case None
    obtain ok sv1 where s: "send_to w Answer c response ?sv = (ok, sv1)" by fastforce
    then have 1: "recorded [] [] sv sv1" using recorded_nothing [OF 0 send_recorded [of Answer ?sv w c response]] by simp
    then have "recorded [] [] sv (close_client i c sv1)" using recorded_nothing close_recorded by blast
    with fin [OF 0] fin [OF 1] s None show ?thesis
      by (intro bexI [of _ "[]"]) (auto simp: answer_command_def take_pending_block_def)
  qed
qed

lemma register_replica_frame:
  assumes "run_command w c args sv = (sv1, response)" "hmap_ok (replicas sv)"
  shows "disk_of (register_replica c args m response sv1) = disk_of sv" "aof (register_replica c args m response sv1) = aof sv"
    "db (register_replica c args m response sv1) = db sv1"
    "stream_to r (register_replica c args m response sv1) = stream_to r sv"
    "hmap_ok (replicas (register_replica c args m response sv1))"
  using assms by (auto simp: register_replica_def run_command_def put_client_def stream_to_def split: prod.splits)

lemma client_command_recorded:
  fixes sv :: server
  assumes "client_command w i c args sv = Inr (sv', go)" "\<not> is_ack c args sv" "hmap_ok (replicas sv)"
    and "run_command w c args sv = (sv1, response)"
  defines "m \<equiv> in_multi (client_at sv c)"
    and "own \<equiv> (if is_logged args (in_multi (client_at sv c)) response then enc args else [])"
  shows "\<exists>ack \<in> {[], getack}. recorded (own @ pending_bytes m (pending_propagations (db sv1)))
     (own @ enc_all (pending_propagations (db sv1)) @ ack) (register_replica c args m response sv1) sv'"
proof -
  let ?env = "world_env w (n_commands sv)" and ?p = "pending_propagations (db sv1)"
  define base where "base = register_replica c args m response sv1"
  note b = register_replica_frame [OF assms(4,3), where m = m, folded base_def]
  obtain sv2 sv3 where 3: "record_write w c args m response base = Inr sv2"
      "record_pending w c m sv2 = Inr sv3" "(sv', go) = answer_command w ?env i c response sv3"
    using assms(1,2,4) by (auto simp: client_command_def Let_def then_do_Inr base_def m_def)
  have r2: "recorded own own base sv2"
    using record_write_recorded [OF b(5) 3(1)] by (simp add: own_def m_def)
  then have ok2: "hmap_ok (replicas sv2)" using b(5) by (simp add: recorded_def)
  have "pending_propagations (db sv2) = ?p" using keeps_queue.record_write [OF _ 3(1)] b(3) by simp
  then have r3: "recorded (pending_bytes m ?p) (enc_all ?p) sv2 sv3" using record_pending_recorded [OF ok2 3(2)] by simp
  then have "hmap_ok (replicas sv3)" using ok2 by (simp add: recorded_def)
  then obtain ack where a: "ack \<in> {[], getack}" "recorded [] ack sv3 sv'"
    using answer_recorded [of sv3 w ?env i c response] 3(3) by (metis fst_conv)
  with recorded_trans [OF recorded_trans [OF r2 r3] a(2)] show ?thesis unfolding base_def by auto
qed

section \<open>Properties\<close>

text \<open>C4: What a command records. When the loop has run a command of a client, the log file has
  grown by the encoding of the command if it is a write outside a transaction that did not
  fail, followed by the writes the command queued (those of an \<open>EXEC\<close> wrapped in
  \<open>MULTI\<close> and \<open>EXEC\<close>, the pop of a \<open>BLPOP\<close>); the stream of every replica that stays
  connected has grown by the encodings of the same commands, followed at most by a request
  for acknowledgements when a \<open>WAIT\<close> blocks; and the replication offset has advanced by
  exactly the bytes streamed, modulo its 64 bits.\<close>

theorem client_command_records_writes:
  fixes sv :: server
  assumes "client_command w i c args sv = Inr (sv', go)" "\<not> is_ack c args sv" "hmap_ok (replicas sv)"
    and "run_command w c args sv = (sv1, response)"
  defines "own \<equiv> (if is_logged args (in_multi (client_at sv c)) response then enc args else [])"
    and "queued_writes \<equiv> pending_propagations (db sv1)"
  shows "\<exists>ack \<in> {[], getack}.
     (\<forall>path. aof_fd (aof sv) = Some path \<longrightarrow>
        contents (disk_of sv') path = contents (disk_of sv) path @ own @ pending_bytes (in_multi (client_at sv c)) queued_writes)
     \<and> (\<forall>r. hcontains (replicas sv') r \<longrightarrow> stream_to r sv' = stream_to r sv @ own @ enc_all queued_writes @ ack)
     \<and> (master_repl_offset (db sv') - master_repl_offset (db sv1)
          - int (length (own @ enc_all queued_writes @ ack))) mod 2 ^ 64 = 0"
proof -
  note b = register_replica_frame [OF assms(4,3), where m = "in_multi (client_at sv c)"]
  from client_command_recorded [OF assms(1-4)] obtain ack where a: "ack \<in> {[], getack}"
    "recorded (own @ pending_bytes (in_multi (client_at sv c)) queued_writes) (own @ enc_all queued_writes @ ack)
       (register_replica c args (in_multi (client_at sv c)) response sv1) sv'"
    unfolding own_def queued_writes_def by blast
  with b show ?thesis by (intro bexI [of _ ack]) (auto simp: recorded_def log_grew_def streamed_def)
qed

text \<open>A server with an open log and one replica, on descriptor 6.\<close>

definition sample_logging :: server where
  "sample_logging = sample_server\<lparr>aof := new_Aof\<lparr>aof_fd := Some ''log'', aof_fsync := ''no''\<rparr>, replicas := [(6, 0)]\<rparr>"

theorem client_command_records_writes_witness:
  "\<exists>sv' go. client_command sample_world 1 5 [''RPUSH'', ''k'', ''a''] sample_logging = Inr (sv', go)
     \<and> contents (disk_of sv') ''log'' = enc [''RPUSH'', ''k'', ''a'']
     \<and> (\<exists>ack \<in> {[], getack}. \<forall>r. hcontains (replicas sv') r \<longrightarrow>
          stream_to r sv' = stream_to r sample_logging @ enc [''RPUSH'', ''k'', ''a''] @ ack)"
proof -
  let ?args = "[''RPUSH'', ''k'', ''a'']"
  have "\<not> isl (client_command sample_world 1 5 ?args sample_logging)" by code_simp
  then obtain sv' go where cc: "client_command sample_world 1 5 ?args sample_logging = Inr (sv', go)"
    by (cases "client_command sample_world 1 5 ?args sample_logging") auto
  obtain sv1 response where r: "run_command sample_world 5 ?args sample_logging = (sv1, response)" by fastforce
  have ack: "\<not> is_ack 5 ?args sample_logging" by code_simp
  have ok: "hmap_ok (replicas sample_logging)" by (simp add: sample_logging_def hmap_ok_def)
  have "is_logged ?args (in_multi (client_at sample_logging 5)) (snd (run_command sample_world 5 ?args sample_logging))"
      "pending_propagations (db (fst (run_command sample_world 5 ?args sample_logging))) = []"
      "in_multi (client_at sample_logging 5) = False" "contents (disk_of sample_logging) ''log'' = []"
      "aof_fd (aof sample_logging) = Some ''log''"
    by code_simp+
  with client_command_records_writes [OF cc ack ok r] cc r show ?thesis
    by (auto simp: pending_bytes_def)
qed

end
