(* ===== verification/Server_Waiters.thy ===== *)
theory Server_Waiters
  imports Server_Records
begin

text \<open>
  Blocked clients: in which order they are served and with what, when they time out, and how
  long the loop may sleep. The answers sent are compared with the intended replies up to
  transmission: a connection that fails receives a prefix.
\<close>

section \<open>Answers\<close>

definition answers :: "server \<Rightarrow> (int \<times> bytes) list" where
  "answers sv = map (\<lambda>(c, lane, b). (c, b)) (filter (\<lambda>(c, lane, b). lane = Answer) (outbox sv))"

text \<open>The replies, sent in this order; each arrives whole or cut short.\<close>

definition answered :: "server \<Rightarrow> (int \<times> bytes) list \<Rightarrow> server \<Rightarrow> bool" where
  "answered sv replies sv' \<longleftrightarrow> (\<exists>outs. answers sv' = answers sv @ outs
     \<and> list_all2 (\<lambda>(c, out) (d, reply). c = d \<and> prefix out reply) outs replies)"

lemma answered_same: "answers sv' = answers sv \<Longrightarrow> answered sv [] sv'"
  by (simp add: answered_def)

lemma answered_trans: "answered sv xs sv1 \<Longrightarrow> answered sv1 ys sv2 \<Longrightarrow> answered sv (xs @ ys) sv2"
  by (auto simp: answered_def intro: list_all2_appendI)

lemma answered_send: "answered sv [(c, reply)] (snd (send_to w Answer c reply sv))"
proof -
  obtain out ok where s: "send_all (world_sends w (n_sends sv)) reply = (out, ok)" by fastforce
  then have "prefix out reply" using send_all_prefix [OF s] by (auto simp: prefix_def)
  then show ?thesis by (auto simp: answered_def answers_def send_to_def s)
qed

section \<open>Acknowledgements\<close>

lemma serve_wait_loop:
  assumes "\<forall>x \<in> set ws. w_kind x = BlockWait"
  shows "\<exists>sent. serve_loop w ws sv
       = Inr (filter (\<lambda>x. count_acked (w_target_offset x) sv < w_count x) ws,
              sv\<lparr>outbox := outbox sv @ sent, n_sends := n_sends sv + length sent\<rparr>)
     \<and> list_all2 (\<lambda>(c, lane, b) x. c = w_fd x \<and> lane = Answer
            \<and> prefix b (to_bytes (Integer (int (count_acked (w_target_offset x) sv)))))
          sent (filter (\<lambda>x. w_count x \<le> count_acked (w_target_offset x) sv) ws)"
  using assms
proof (induction ws arbitrary: sv)
  case (Cons x ws)
  let ?acked = "count_acked (w_target_offset x) sv"
  show ?case
  proof (cases "w_count x \<le> ?acked")
    case True
    obtain b ok where b: "send_all (world_sends w (n_sends sv)) (to_bytes (Integer (int ?acked))) = (b, ok)" by fastforce
    let ?sv = "sv\<lparr>n_sends := Suc (n_sends sv), outbox := outbox sv @ [(w_fd x, Answer, b)]\<rparr>"
    have "count_acked n ?sv = count_acked n sv" for n by (simp add: count_acked_def)
    with Cons.IH [of ?sv] Cons.prems obtain sent where sent:
      "serve_loop w ws ?sv = Inr (filter (\<lambda>x. count_acked (w_target_offset x) sv < w_count x) ws,
          ?sv\<lparr>outbox := outbox ?sv @ sent, n_sends := n_sends ?sv + length sent\<rparr>)"
      "list_all2 (\<lambda>(c, lane, b) x. c = w_fd x \<and> lane = Answer
          \<and> prefix b (to_bytes (Integer (int (count_acked (w_target_offset x) sv)))))
        sent (filter (\<lambda>x. w_count x \<le> count_acked (w_target_offset x) sv) ws)" by auto
    have "prefix b (to_bytes (Integer (int ?acked)))" using send_all_prefix [OF b] by (auto simp: prefix_def)
    moreover have "send_to w Answer (w_fd x) (to_bytes (Integer (int ?acked))) sv = (ok, ?sv)" using b by (simp add: send_to_def)
    ultimately show ?thesis
      using True Cons.prems sent
      by (intro exI [of _ "(w_fd x, Answer, b) # sent"]) (simp add: retry_waiter_def Let_def not_less)
  next
    case False
    with Cons.IH [of sv] Cons.prems show ?thesis by (auto simp: retry_waiter_def Let_def not_le)
  qed
qed simp

section \<open>Blocked pops\<close>

interpretation list_kept: recording "\<lambda>sv. list_at (db sv) k = xs \<and> answers sv = as" c for k xs as c
  by unfold_locales
    (auto simp: answers_def send_to_def case_prod_beta note_offset_def put_client_def bump_repl_offset_def list_at_def)

text \<open>One blocked client on a single key takes the head of the list.\<close>

lemma retry_pop:
  assumes "w_kind x = BlockList" "w_keys x = [k]" "retry_waiter w x sv = Inr (sv', reply)"
  shows "case list_at (db sv) k of
       [] \<Rightarrow> reply = None \<and> sv' = sv
     | v # vs \<Rightarrow> reply = Some (to_bytes (Array [k, v])) \<and> list_at (db sv') k = vs \<and> answers sv' = answers sv"
proof (cases "list_at (db sv) k")
  case Nil
  with assms show ?thesis by (auto simp: retry_waiter_def)
next
  case (Cons v vs)
  let ?s = "(queue_propagation [''LPOP'', k] (put_list k vs (db sv)))\<lparr>pending_propagations := []\<rparr>"
  obtain cmds where r: "record_each w (w_fd x) cmds (sv\<lparr>db := ?s\<rparr>) = Inr sv'" "reply = Some (to_bytes (Array [k, v]))"
    using assms Cons by (auto simp: retry_waiter_def take_pending_propagations_def then_do_Inr)
  have "list_at ?s k = vs" by (simp add: list_at_def queue_propagation_def put_list_def)
  then have "list_at (db sv') k = vs \<and> answers sv' = answers sv"
    using list_kept.record_each [of "sv\<lparr>db := ?s\<rparr>" k vs "answers sv" w "w_fd x" cmds sv'] r(1)
    by (simp add: answers_def)
  with Cons r(2) show ?thesis by simp
qed

lemma serve_pop_loop:
  assumes "\<forall>x \<in> set ws. w_kind x = BlockList \<and> w_keys x = [k]" "serve_loop w ws sv = Inr (kept, sv')"
  shows "kept = drop (length (list_at (db sv) k)) ws \<and> list_at (db sv') k = drop (length ws) (list_at (db sv) k)
     \<and> answered sv (map (\<lambda>(x, v). (w_fd x, to_bytes (Array [k, v]))) (zip ws (list_at (db sv) k))) sv'"
  using assms
proof (induction ws arbitrary: sv kept)
  case Nil
  then show ?case by (simp add: answered_same)
next
  case (Cons x ws)
  obtain sv1 reply where r: "retry_waiter w x sv = Inr (sv1, reply)"
    using Cons.prems(2) by (auto simp: then_do_Inr)
  note pop = retry_pop [of x k w sv sv1 reply]
  show ?case
  proof (cases "list_at (db sv) k")
    case Nil
    with pop r Cons.prems obtain kept' where "serve_loop w ws sv = Inr (kept', sv')" "kept = x # kept'"
      by (auto simp: then_do_Inr)
    with Cons.IH [of sv kept'] Cons.prems(1) Nil show ?thesis by simp
  next
    case (Cons v vs)
    with pop r Cons.prems have p: "reply = Some (to_bytes (Array [k, v]))" "list_at (db sv1) k = vs" "answers sv1 = answers sv"
      by auto
    let ?sv = "snd (send_to w Answer (w_fd x) (to_bytes (Array [k, v])) sv1)"
    have "serve_loop w ws ?sv = Inr (kept, sv')" using Cons.prems(2) r p(1) by simp
    moreover have "list_at (db ?sv) k = vs" using p(2) by simp
    moreover have "answered sv [(w_fd x, to_bytes (Array [k, v]))] ?sv"
      using answered_send [of sv1 "w_fd x" "to_bytes (Array [k, v])" w] p(3) by (simp add: answered_def)
    ultimately show ?thesis
      using Cons.IH [of ?sv kept] Cons.prems(1) Cons answered_trans [of sv "[(w_fd x, to_bytes (Array [k, v]))]" ?sv]
      by fastforce
  qed
qed

section \<open>Timing out\<close>

lemma expire_loop_spec:
  "case expire_loop w now ws sv of (kept, sv') \<Rightarrow> kept = filter (\<lambda>x. \<not> overdue now x) ws
     \<and> db sv' = db sv \<and> replicas sv' = replicas sv
     \<and> answered sv (map (\<lambda>x. (w_fd x, timeout_reply x sv)) (filter (overdue now) ws)) sv'"
proof (induction ws arbitrary: sv)
  case Nil
  then show ?case by (simp add: answered_same)
next
  case (Cons x ws)
  show ?case
  proof (cases "overdue now x")
    case True
    let ?sv = "snd (send_to w Answer (w_fd x) (timeout_reply x sv) sv)"
    have "timeout_reply y ?sv = timeout_reply y sv" for y by (simp add: timeout_reply_def count_acked_def)
    with Cons.IH [of ?sv] True answered_trans [OF answered_send [of sv "w_fd x" "timeout_reply x sv" w]]
    show ?thesis by (auto split: prod.splits)
  next
    case False
    with Cons.IH [of sv] show ?thesis by (auto split: prod.splits)
  qed
qed

lemma timeout_loop_bound:
  assumes "\<forall>x \<in> set ws. w_has_deadline x \<longrightarrow> remaining_ms now x < 2 ^ 31" "t < 2 ^ 31"
  shows "(\<forall>x \<in> set ws. w_has_deadline x \<longrightarrow> 0 \<le> timeout_loop now ws t \<and> timeout_loop now ws t \<le> remaining_ms now x)
     \<and> (0 \<le> t \<longrightarrow> 0 \<le> timeout_loop now ws t \<and> timeout_loop now ws t \<le> t)
     \<and> ((\<forall>x \<in> set ws. \<not> w_has_deadline x) \<longrightarrow> timeout_loop now ws t = t)"
  using assms
proof (induction ws arbitrary: t)
  case (Cons x ws)
  have r: "0 \<le> remaining_ms now x" by (simp add: remaining_ms_def Let_def pos_imp_zdiv_nonneg_iff)
  show ?case
  proof (cases "w_has_deadline x \<and> (t < 0 \<or> remaining_ms now x < t)")
    case True
    then have "wrap_s32 (remaining_ms now x) = remaining_ms now x"
      using Cons.prems r by (intro wrap_s32_id) auto
    with True Cons.IH [of "remaining_ms now x"] Cons.prems r show ?thesis by auto
  next
    case False
    with Cons.IH [of t] Cons.prems r show ?thesis by auto
  qed
qed simp

section \<open>Properties\<close>

text \<open>C35: Clients blocked on the same list are served first come, first served. When the loop
  retries clients that all wait for key \<open>k\<close>, in the order in which they blocked, the first
  ones get the elements of the list in order, as many as there are elements; the rest stay
  blocked in the same order, and the list keeps exactly the elements nobody took.\<close>

theorem blocked_pops_served_in_order:
  fixes sv :: server
  assumes "\<forall>x \<in> set (waiters sv). w_kind x = BlockList \<and> w_keys x = [k]" "serve_waiters w sv = Inr sv'"
  defines "vs \<equiv> list_at (db sv) k"
  shows "waiters sv' = drop (length vs) (waiters sv) \<and> list_at (db sv') k = drop (length (waiters sv)) vs
     \<and> answered sv (map (\<lambda>(x, v). (w_fd x, to_bytes (Array [k, v]))) (zip (waiters sv) vs)) sv'"
proof -
  obtain kept sv1 where s: "serve_loop w (waiters sv) sv = Inr (kept, sv1)" "sv' = sv1\<lparr>waiters := kept\<rparr>"
    using assms(2) by (auto simp: serve_waiters_def then_do_Inr)
  from serve_pop_loop [OF assms(1) s(1)] s(2) show ?thesis
    by (auto simp: vs_def answered_def answers_def)
qed

definition sample_pop :: "int \<Rightarrow> Waiter" where
  "sample_pop c = \<lparr>w_fd = c, w_kind = BlockList, w_keys = [''k''], w_ids = [], w_count = 0,
     w_has_deadline = False, w_deadline = 0, w_target_offset = 0\<rparr>"

definition sample_blocked :: server where
  "sample_blocked = sample_server\<lparr>waiters := [sample_pop 7, sample_pop 5],
     db := (db sample_server)\<lparr>DynamicVector := [(''k'', [''a''])]\<rparr>\<rparr>"

theorem blocked_pops_served_in_order_witness:
  "\<exists>sv'. serve_waiters sample_world sample_blocked = Inr sv' \<and> waiters sv' = [sample_pop 5]
     \<and> answered sample_blocked [(7, to_bytes (Array [''k'', ''a'']))] sv'"
proof -
  have "\<not> isl (serve_waiters sample_world sample_blocked)" by code_simp
  then obtain sv' where s: "serve_waiters sample_world sample_blocked = Inr sv'"
    by (cases "serve_waiters sample_world sample_blocked") auto
  have "list_at (db sample_blocked) ''k'' = [''a'']" "waiters sample_blocked = [sample_pop 7, sample_pop 5]"
    by (simp_all add: sample_blocked_def list_at_def hget_def)
  with blocked_pops_served_in_order [of sample_blocked "''k''" sample_world sv'] s show ?thesis
    by (auto simp: sample_pop_def)
qed

text \<open>C36: \<open>WAIT\<close> answers exactly when enough replicas have acknowledged. When the loop retries
  clients blocked in \<open>WAIT\<close>, those for whom at least the requested number of replicas has
  acknowledged the offset of their last write are sent that number, in order (whole, or cut
  short by a failing send); the others stay blocked. Apart from the list of blocked clients and
  the bytes sent, no part of the server changes.\<close>

theorem waits_answered_when_acknowledged:
  fixes sv :: server
  assumes "\<forall>x \<in> set (waiters sv). w_kind x = BlockWait"
  defines "acked \<equiv> \<lambda>x. count_acked (w_target_offset x) sv"
  shows "\<exists>sent. serve_waiters w sv
       = Inr (sv\<lparr>waiters := filter (\<lambda>x. acked x < w_count x) (waiters sv), outbox := outbox sv @ sent,
                 n_sends := n_sends sv + length sent\<rparr>)
     \<and> list_all2 (\<lambda>(c, lane, b) x. c = w_fd x \<and> lane = Answer \<and> prefix b (to_bytes (Integer (int (acked x)))))
          sent (filter (\<lambda>x. w_count x \<le> acked x) (waiters sv))"
proof -
  obtain sent where "serve_loop w (waiters sv) sv = Inr (filter (\<lambda>x. acked x < w_count x) (waiters sv),
        sv\<lparr>outbox := outbox sv @ sent, n_sends := n_sends sv + length sent\<rparr>)"
      "list_all2 (\<lambda>(c, lane, b) x. c = w_fd x \<and> lane = Answer \<and> prefix b (to_bytes (Integer (int (acked x)))))
        sent (filter (\<lambda>x. w_count x \<le> acked x) (waiters sv))"
    using serve_wait_loop [OF assms(1), of w sv] unfolding acked_def by blast
  then show ?thesis by (intro exI [of _ sent]) (simp add: serve_waiters_def)
qed

theorem waits_answered_when_acknowledged_witness:
  "\<exists>b. serve_waiters sample_world (sample_logging\<lparr>waiters := [(sample_pop 5)\<lparr>w_kind := BlockWait, w_count := 1\<rparr>]\<rparr>)
     = Inr (sample_logging\<lparr>waiters := [], outbox := outbox sample_logging @ [(5, Answer, b)], n_sends := n_sends sample_logging + 1\<rparr>)
     \<and> prefix b (to_bytes (Integer 1))"
proof -
  let ?x = "(sample_pop 5)\<lparr>w_kind := BlockWait, w_count := 1\<rparr>"
  have acked: "count_acked (w_target_offset ?x) (sample_logging\<lparr>waiters := [?x]\<rparr>) = 1" "w_count ?x = 1" "w_fd ?x = 5"
    by (simp_all add: count_acked_def sample_logging_def sample_pop_def)
  obtain sent where sent: "serve_waiters sample_world (sample_logging\<lparr>waiters := [?x]\<rparr>)
       = Inr (sample_logging\<lparr>waiters := [], outbox := outbox sample_logging @ sent, n_sends := n_sends sample_logging + length sent\<rparr>)"
      "list_all2 (\<lambda>(c, lane, b) x. c = w_fd x \<and> lane = Answer
         \<and> prefix b (to_bytes (Integer (int (count_acked (w_target_offset x) (sample_logging\<lparr>waiters := [?x]\<rparr>)))))) sent [?x]"
    using waits_answered_when_acknowledged [of "sample_logging\<lparr>waiters := [?x]\<rparr>" sample_world] acked by auto
  then obtain b where "sent = [(5, Answer, b)]" "prefix b (to_bytes (Integer 1))"
    using acked by (auto simp: list_all2_Cons2)
  with sent(1) show ?thesis by auto
qed

text \<open>C37: Blocked clients time out and the loop wakes up for them. Expiring at time \<open>now\<close>
  answers exactly the clients whose deadline has passed, in order, with a null array or, for
  \<open>WAIT\<close>, the number of acknowledgements so far, and keeps all others. As long as the
  remaining times fit 31 bits of milliseconds, the timeout given to \<open>poll\<close> never exceeds the
  time left to any deadline, nor the time to the next sync of the log.\<close>

theorem blocked_clients_time_out:
  fixes sv :: server
  assumes "\<forall>x \<in> set (waiters sv). w_has_deadline x \<longrightarrow> w_deadline x - now < 2 ^ 31 * 1000000"
    and "sync_timeout_ms now (aof sv) < 2 ^ 31"
  shows "waiters (expire_waiters w now sv) = filter (\<lambda>x. \<not> overdue now x) (waiters sv)
     \<and> answered sv (map (\<lambda>x. (w_fd x, timeout_reply x sv)) (filter (overdue now) (waiters sv))) (expire_waiters w now sv)
     \<and> (\<forall>x \<in> set (waiters sv). w_has_deadline x \<longrightarrow>
          0 \<le> next_timeout now sv \<and> next_timeout now sv * 1000000 \<le> max 0 (w_deadline x - now))
     \<and> (0 \<le> sync_timeout_ms now (aof sv) \<longrightarrow>
          0 \<le> next_timeout now sv \<and> next_timeout now sv \<le> sync_timeout_ms now (aof sv))"
proof -
  obtain kept sv1 where e: "expire_loop w now (waiters sv) sv = (kept, sv1)" by fastforce
  have small: "\<forall>x \<in> set (waiters sv). w_has_deadline x \<longrightarrow> remaining_ms now x < 2 ^ 31"
    using assms(1) by (auto simp: remaining_ms_def Let_def div_less_iff_less_mult)
  have le: "remaining_ms now x * 1000000 \<le> max 0 (w_deadline x - now)" for x
  proof -
    have "r div 1000000 * 1000000 \<le> r" for r :: int by linarith
    then show ?thesis by (auto simp: remaining_ms_def Let_def max_def)
  qed
  have "0 \<le> next_timeout now sv \<and> next_timeout now sv * 1000000 \<le> max 0 (w_deadline x - now)"
    if "x \<in> set (waiters sv)" "w_has_deadline x" for x
  proof -
    have "0 \<le> next_timeout now sv" "next_timeout now sv \<le> remaining_ms now x"
      using timeout_loop_bound [OF small assms(2)] that by (simp_all add: next_timeout_def)
    with le [of x] show ?thesis by simp
  qed
  with expire_loop_spec [where w = w and now = now and ws = "waiters sv" and sv = sv] timeout_loop_bound [OF small assms(2)] e show ?thesis
    by (auto simp: expire_waiters_def next_timeout_def answered_def answers_def)
qed

definition sample_overdue :: server where
  "sample_overdue = sample_server\<lparr>waiters := [(sample_pop 5)\<lparr>w_has_deadline := True, w_deadline := 70\<rparr>]\<rparr>"

theorem blocked_clients_time_out_witness:
  "waiters (expire_waiters sample_world 80 sample_overdue) = []
     \<and> answered sample_overdue [(5, to_bytes NullArray)] (expire_waiters sample_world 80 sample_overdue)"
  using blocked_clients_time_out [of sample_overdue 80 sample_world]
  by (simp add: sample_overdue_def sample_pop_def overdue_def timeout_reply_def sync_timeout_ms_def sample_server_def
      add_client_def put_client_def run_start_def sample_started_def new_Aof_def)

text \<open>The cast of the remaining time to \<open>int\<close>: a client that blocks for a month of milliseconds
  makes the timeout negative, and \<open>poll\<close> sleeps without limit.\<close>

lemma month_long_timeout_never_wakes:
  "timeout_loop 0 [(sample_pop 5)\<lparr>w_has_deadline := True, w_deadline := 3000000000 * 1000000\<rparr>] (- 1) < 0"
  by (simp add: remaining_ms_def sample_pop_def wrap_s32_def)

end
