(* ===== verification/Logged_Commands.thy ===== *)
theory Logged_Commands
  imports Aof
begin

text \<open>
  Why replaying the log reproduces the data. The handlers of the logged commands are
  functions of the key space alone: run on another store with the same key space, at another
  time, they make the same change and give the same reply. Every other command leaves the key
  space as it is, except a \<open>BLPOP\<close>, which logs the \<open>LPOP\<close> that repeats its effect. This
  holds while no key has a deadline and stream identifiers are given in full: a relative
  lifetime or a generated identifier is logged as it was sent and means something else later.
\<close>

section \<open>The key space of a store\<close>

text \<open>The store \<open>t\<close> with the key space of \<open>s\<close>.\<close>

definition graft :: "store \<Rightarrow> store \<Rightarrow> store" where
  "graft t s = t\<lparr>Storage := Storage s, Expirations := Expirations s, DynamicVector := DynamicVector s,
     Streams := Streams s, sorted_sets := sorted_sets s\<rparr>"

definition same_data :: "store \<Rightarrow> store \<Rightarrow> bool" where
  "same_data t s \<longleftrightarrow> Storage t = Storage s \<and> Expirations t = Expirations s \<and> DynamicVector t = DynamicVector s
     \<and> Streams t = Streams s \<and> sorted_sets t = sorted_sets s"

lemma graft_fields [simp]:
  "Storage (graft t s) = Storage s" "Expirations (graft t s) = Expirations s"
  "DynamicVector (graft t s) = DynamicVector s" "Streams (graft t s) = Streams s"
  "sorted_sets (graft t s) = sorted_sets s"
  "pending_block (graft t s) = pending_block t" "pending_propagations (graft t s) = pending_propagations t"
  by (simp_all add: graft_def)

lemma graft_update [simp]:
  "(graft t s)\<lparr>Storage := a\<rparr> = graft t (s\<lparr>Storage := a\<rparr>)"
  "(graft t s)\<lparr>Expirations := b\<rparr> = graft t (s\<lparr>Expirations := b\<rparr>)"
  "(graft t s)\<lparr>DynamicVector := c\<rparr> = graft t (s\<lparr>DynamicVector := c\<rparr>)"
  "(graft t s)\<lparr>Streams := d\<rparr> = graft t (s\<lparr>Streams := d\<rparr>)"
  "(graft t s)\<lparr>sorted_sets := e\<rparr> = graft t (s\<lparr>sorted_sets := e\<rparr>)"
  by (simp_all add: graft_def)

lemma graft_self [simp]: "graft s s = s"
  by (simp add: graft_def)

lemma same_data_graft: "same_data t s \<Longrightarrow> graft t s = t"
  by (simp add: same_data_def graft_def)

lemma same_data_grafted [simp]: "same_data (graft t s) s"
  by (simp add: same_data_def)

lemma same_data_refl [simp]: "same_data s s"
  by (simp add: same_data_def)

lemma same_data_sym: "same_data t s \<Longrightarrow> same_data s t"
  by (simp add: same_data_def)

lemma same_data_trans [trans]: "same_data t s \<Longrightarrow> same_data s r \<Longrightarrow> same_data t r"
  by (simp add: same_data_def)

lemma same_data_frame [simp]:
  "same_data t (s\<lparr>pending_block := a\<rparr>) = same_data t s" "same_data t (s\<lparr>pending_propagations := b\<rparr>) = same_data t s"
  "same_data t (s\<lparr>pending_messages := c\<rparr>) = same_data t s" "same_data t (s\<lparr>master_repl_offset := d\<rparr>) = same_data t s"
  "same_data (t\<lparr>pending_block := a\<rparr>) s = same_data t s" "same_data (t\<lparr>pending_propagations := b\<rparr>) s = same_data t s"
  "same_data t (s\<lparr>subscribers := e\<rparr>) = same_data t s" "same_data t (queue_propagation args s) = same_data t s"
  by (simp_all add: same_data_def queue_propagation_def)

text \<open>Without deadlines nothing is ever reaped.\<close>

definition lasting :: "store \<Rightarrow> bool" where
  "lasting s \<longleftrightarrow> Expirations s = []"

lemma lasting_dead [simp]: "lasting s \<Longrightarrow> \<not> dead env s k"
  by (simp add: lasting_def dead_def hget_def)

lemma lasting_reap [simp]: "lasting s \<Longrightarrow> reap env s k = s"
  by (simp add: reap_alive)

lemma lasting_reap_all [simp]: "lasting s \<Longrightarrow> reap_all env ks s = s"
  by (induction ks) simp_all

lemma lasting_graft [simp]: "lasting (graft t s) = lasting s"
  by (simp add: lasting_def)

lemma lasting_frame [simp]:
  "lasting (s\<lparr>Storage := a\<rparr>) = lasting s" "lasting (s\<lparr>DynamicVector := c\<rparr>) = lasting s"
  "lasting (s\<lparr>Streams := d\<rparr>) = lasting s" "lasting (s\<lparr>sorted_sets := e\<rparr>) = lasting s"
  "lasting (s\<lparr>pending_block := f\<rparr>) = lasting s" "lasting (s\<lparr>pending_propagations := g\<rparr>) = lasting s"
  "lasting (queue_propagation args s) = lasting s"
  by (simp_all add: lasting_def queue_propagation_def)

lemma same_data_lasting: "same_data t s \<Longrightarrow> lasting t = lasting s"
  by (simp add: same_data_def lasting_def)

section \<open>Environments that differ in their clocks\<close>

definition agree :: "env \<Rightarrow> env \<Rightarrow> bool" where
  "agree env env' \<longleftrightarrow> env' = env\<lparr>steady_now := steady_now env', system_now := system_now env'\<rparr>"

lemma agree_cases: "agree env env' \<Longrightarrow> (\<And>a b. env' = env\<lparr>steady_now := a, system_now := b\<rparr> \<Longrightarrow> P) \<Longrightarrow> P"
  unfolding agree_def by blast

lemma agree_sym: "agree env env' \<Longrightarrow> agree env' env"
  by (erule agree_cases) (simp add: agree_def)

lemma agree_trans: "agree a b \<Longrightarrow> agree b c \<Longrightarrow> agree a c"
  by (erule agree_cases, erule agree_cases) (simp add: agree_def)

lemma agree_refl [simp]: "agree env env"
  by (simp add: agree_def)

text \<open>What the handlers of logged commands take from the environment does not tell the time.\<close>

lemma view_clock: "lasting s \<Longrightarrow> view env (graft t s) k = view env' s k"
  using lasting_dead [of "graft t s"] by (simp add: view_def split: option.split)

lemma parse_score_clock [simp]:
  "parse_score (env\<lparr>steady_now := a, system_now := b\<rparr>) = parse_score env"
  by (rule ext) (simp add: parse_score_def)

lemma parse_entries_clock [simp]:
  "parse_entries (env\<lparr>steady_now := a, system_now := b\<rparr>) ws = parse_entries env ws"
  by (induction env ws rule: parse_entries.induct) (simp_all split: option.split)

lemma parse_coordinates_clock [simp]:
  "parse_coordinates (env\<lparr>steady_now := a, system_now := b\<rparr>) lon lat = parse_coordinates env lon lat"
  by (simp add: parse_coordinates_def parse_number_def kMaxLatitude_def coordinates_error_def Let_def split: option.split)

lemma encode_coordinates_clock [simp]:
  "encode_coordinates (env\<lparr>steady_now := a, system_now := b\<rparr>) point = encode_coordinates env point"
  by (simp add: encode_coordinates_def kMaxLatitude_def)

lemma geoadd_entries_clock [simp]:
  "geoadd_entries (env\<lparr>steady_now := a, system_now := b\<rparr>) ws = geoadd_entries env ws"
  by (induction env ws rule: geoadd_entries.induct) (simp_all split: sum.split)

lemma resolve_id_clock: "id_text \<noteq> ''*'' \<Longrightarrow> resolve_id now st id_text = resolve_id now' st id_text"
  by (simp add: resolve_id_def split: option.split)

lemma insert_entry_clock: "id_text \<noteq> ''*'' \<Longrightarrow> insert_entry now st id_text data = insert_entry now' st id_text data"
  using resolve_id_clock [of id_text now st now'] by (simp add: insert_entry_def)

lemma bitop_sources_lasting:
  "lasting s \<Longrightarrow> bitop_sources env' (graft t s) keys = (graft t s, snd (bitop_sources env s keys))
     \<and> fst (bitop_sources env s keys) = s"
proof (induction keys)
  case (Cons k keys)
  have "holds_string env' (graft t s) k = holds_string env s k"
    using view_clock [OF Cons.prems, of env' t k env] by (simp add: holds_string_def)
  with Cons show ?case
    by (simp add: wrong_string_type_holds case_prod_beta split: bool.split)
qed simp

section \<open>Contracts\<close>

text \<open>
  A logged command: its effect and its reply depend on the key space and the arguments only,
  an error means no effect, and it never throws, asks to block or queues anything.
\<close>

definition timeless :: "args \<Rightarrow> bool" where
  "timeless args \<longleftrightarrow> (to_upper (args ! 0) = ''SET'' \<longrightarrow> length args \<noteq> 5)
     \<and> (to_upper (args ! 0) = ''XADD'' \<longrightarrow> args ! 2 \<noteq> ''*'')"

locale logged_command =
  fixes h :: handler and names :: "string set"
  assumes repeats: "to_upper (args ! 0) \<in> names \<Longrightarrow> lasting s \<Longrightarrow> agree env env' \<Longrightarrow> timeless args \<Longrightarrow>
      h env' (graft t s) args = (graft t (fst (h env s args)), snd (h env s args))"
    and answers: "to_upper (args ! 0) \<in> names \<Longrightarrow> \<exists>r. snd (h env s args) = Inr r"
    and refuses: "to_upper (args ! 0) \<in> names \<Longrightarrow> lasting s \<Longrightarrow> snd (h env s args) = Inr r \<Longrightarrow> is_error_reply r \<Longrightarrow>
      fst (h env s args) = s"
    and lasts: "to_upper (args ! 0) \<in> names \<Longrightarrow> lasting s \<Longrightarrow> timeless args \<Longrightarrow> lasting (fst (h env s args))"
    and queues_nothing: "to_upper (args ! 0) \<in> names \<Longrightarrow>
      pending_propagations (fst (h env s args)) = pending_propagations s \<and> pending_block (fst (h env s args)) = pending_block s"
begin

lemma on_same_data:
  assumes "to_upper (args ! 0) \<in> names" "lasting s" "agree env env'" "timeless args" "same_data t s"
  shows "h env' t args = (graft t (fst (h env s args)), snd (h env s args))"
  using repeats [OF assms(1-4), of t] same_data_graft [OF assms(5)] by simp

end

text \<open>Every other command leaves the key space and the queue of pending writes alone.\<close>

locale quiet_command =
  fixes h :: "env \<Rightarrow> store \<Rightarrow> args \<Rightarrow> store \<times> 'r"
  assumes keeps_data: "lasting s \<Longrightarrow> same_data (fst (h env s args)) s"
    and keeps_queue: "pending_propagations (fst (h env s args)) = pending_propagations s"

lemma reap_all_queue [simp]: "pending_propagations (reap_all env ks s) = pending_propagations s"
  by (induction ks arbitrary: s) simp_all

sublocale reading_handler \<subseteq> quiet: quiet_command
proof
  fix s env args
  obtain ks where "fst (h env s args) = reap_all env ks s" using only_reaps by blast
  then show "lasting s \<Longrightarrow> same_data (fst (h env s args)) s"
    and "pending_propagations (fst (h env s args)) = pending_propagations s" by simp_all
qed

section \<open>The logged commands\<close>

lemma not_error_replies [simp]:
  "\<not> is_error_reply (to_bytes (Integer i))" "\<not> is_error_reply (to_bytes (BulkString b))"
  "\<not> is_error_reply (to_bytes NullBulkString)" "\<not> is_error_reply (to_bytes (Array a))"
  "\<not> is_error_reply (to_bytes NullArray)"
  by (simp_all add: is_error_reply_def to_bytes.simps bulk_bytes_def)

lemma hput_same: "hget m k = Some v \<Longrightarrow> hput k v m = m"
  unfolding hget_def hput_def by (induction m) auto

lemma herase_hput_absent: "hget m k = None \<Longrightarrow> herase k (hput k v m) = m"
  unfolding hget_def hput_def herase_def by (induction m) auto

lemmas handler_simps = plain_def Let_def case_prod_beta

lemma assign_graft [simp]: "assign k v (graft t s) = graft t (assign k v s)"
  by (simp add: assign_def)

lemma assign_fields [simp]:
  "Expirations (assign k v s) = Expirations s" "pending_propagations (assign k v s) = pending_propagations s"
  "pending_block (assign k v s) = pending_block s"
  by (simp_all add: assign_def)

lemma handle_set_timeless:
  "length args \<noteq> 5 \<Longrightarrow> plain handle_set env s args =
     (if length args \<noteq> 3 then (s, Inr (arity_error ''set''))
      else ((assign (args ! 1) (args ! 2) s)\<lparr>Expirations := herase (args ! 1) (Expirations s)\<rparr>, Inr ok_reply))"
  by (simp add: handler_simps handle_set_def)

lemma handle_set_lifetime:
  "length args = 5 \<Longrightarrow> fst (plain handle_set env s args) = s
     \<or> (\<exists>d. fst (plain handle_set env s args) = assign (args ! 1) (args ! 2) (s\<lparr>Expirations := d\<rparr>)
         \<and> snd (plain handle_set env s args) = Inr ok_reply)"
  by (cases "stoll (args ! 4)") (auto simp: handler_simps handle_set_def)

interpretation set_l: logged_command "plain handle_set" "{''SET''}"
proof unfold_locales
  fix args s env env' t r
  assume set: "to_upper (args ! 0) \<in> {''SET''}"
  show "timeless args \<Longrightarrow> plain handle_set env' (graft t s) args
      = (graft t (fst (plain handle_set env s args)), snd (plain handle_set env s args))"
    using set by (simp add: timeless_def handle_set_timeless)
  show "lasting s \<Longrightarrow> timeless args \<Longrightarrow> lasting (fst (plain handle_set env s args))"
    using set by (simp add: timeless_def handle_set_timeless lasting_def herase_def)
  show "snd (plain handle_set env s args) = Inr r \<Longrightarrow> is_error_reply r \<Longrightarrow> fst (plain handle_set env s args) = s"
    using handle_set_lifetime [of args env s] by (cases "length args = 5") (auto simp: handle_set_timeless split: if_splits)
  show "pending_propagations (fst (plain handle_set env s args)) = pending_propagations s
      \<and> pending_block (fst (plain handle_set env s args)) = pending_block s"
    using handle_set_lifetime [of args env s] by (cases "length args = 5") (auto simp: handle_set_timeless)
qed (simp add: handler_simps)

interpretation incr_l: logged_command "plain (\<lambda>_. handle_incr)" "{''INCR''}"
  by unfold_locales
    (auto simp: handler_simps handle_incr_def lasting_def graft_def split: option.splits sum.splits)

interpretation rpush_l: logged_command "plain (\<lambda>_. handle_rpush)" "{''RPUSH''}"
  by unfold_locales (auto simp: handler_simps handle_rpush_def list_at_def lasting_def graft_def)

interpretation lpush_l: logged_command "plain (\<lambda>_. handle_lpush)" "{''LPUSH''}"
  by unfold_locales (auto simp: handler_simps handle_lpush_def list_at_def lasting_def graft_def)

lemma put_list_graft [simp]: "put_list k xs (graft t s) = graft t (put_list k xs s)"
  by (simp add: put_list_def)

lemma put_list_frame [simp]:
  "lasting (put_list k xs s) = lasting s" "pending_propagations (put_list k xs s) = pending_propagations s"
  "pending_block (put_list k xs s) = pending_block s"
  by (simp_all add: put_list_def)

text \<open>A pop only writes back a shorter list.\<close>

lemma handle_lpop_cases:
  obtains "fst (handle_lpop s args) = s"
  | xs where "fst (handle_lpop s args) = put_list (args ! 1) xs s" "\<not> is_error_reply (snd (handle_lpop s args))"
  by (cases "list_at s (args ! 1)"; cases "stoll (args ! 2)")
    (fastforce simp: handle_lpop_def Let_def split: if_splits)+

interpretation lpop_l: logged_command "plain (\<lambda>_. handle_lpop)" "{''LPOP''}"
proof unfold_locales
  fix args s t r and env env' :: env
  have at: "list_at (graft t s) k = list_at s k" for k by (simp add: list_at_def)
  show "plain (\<lambda>_. handle_lpop) env' (graft t s) args
      = (graft t (fst (plain (\<lambda>_. handle_lpop) env s args)), snd (plain (\<lambda>_. handle_lpop) env s args))"
    by (cases "list_at s (args ! Suc 0)"; cases "stoll (args ! 2)") (simp_all add: handler_simps handle_lpop_def at)
  show "snd (plain (\<lambda>_. handle_lpop) env s args) = Inr r \<Longrightarrow> is_error_reply r \<Longrightarrow> fst (plain (\<lambda>_. handle_lpop) env s args) = s"
    by (rule handle_lpop_cases [of s args]) (auto simp: handler_simps)
  show "pending_propagations (fst (plain (\<lambda>_. handle_lpop) env s args)) = pending_propagations s
      \<and> pending_block (fst (plain (\<lambda>_. handle_lpop) env s args)) = pending_block s"
    by (rule handle_lpop_cases [of s args]) (auto simp: handler_simps)
  show "lasting s \<Longrightarrow> lasting (fst (plain (\<lambda>_. handle_lpop) env s args))"
    by (rule handle_lpop_cases [of s args]) (auto simp: handler_simps)
qed (simp add: handler_simps)

lemma zset_type_lasting:
  "lasting s \<Longrightarrow> wrong_sorted_set_type env' (graft t s) k = (graft t s, snd (wrong_sorted_set_type env s k))"
  "lasting s \<Longrightarrow> fst (wrong_sorted_set_type env s k) = s"
  using view_clock [of s env' t k env] by (simp_all add: wrong_sorted_set_type_eq)

interpretation zadd_l: logged_command "plain handle_zadd" "{''ZADD''}"
proof unfold_locales
  fix args s env env' t r
  assume l: "lasting s"
  show "agree env env' \<Longrightarrow> plain handle_zadd env' (graft t s) args
      = (graft t (fst (plain handle_zadd env s args)), snd (plain handle_zadd env s args))"
    by (erule agree_cases)
      (simp add: handler_simps handle_zadd_def zset_type_lasting(1) [OF l, where env = env] zset_at_def zset_type_lasting(2) [OF l]
        split: option.split bool.split)
  show "snd (plain handle_zadd env s args) = Inr r \<Longrightarrow> is_error_reply r \<Longrightarrow> fst (plain handle_zadd env s args) = s"
    using l by (auto simp: handler_simps handle_zadd_def zset_type_lasting split: option.splits bool.splits if_splits)
  show "lasting (fst (plain handle_zadd env s args))"
    using l by (auto simp: handler_simps handle_zadd_def zset_type_lasting split: option.splits bool.splits)
qed (auto simp: handler_simps handle_zadd_def wrong_sorted_set_type_eq split: option.splits bool.splits)

lemmas zset_clock = zset_type_lasting zset_at_def

interpretation zrem_l: logged_command "plain handle_zrem" "{''ZREM''}"
proof unfold_locales
  fix args s env env' t r
  assume l: "lasting s"
  show "plain handle_zrem env' (graft t s) args
      = (graft t (fst (plain handle_zrem env s args)), snd (plain handle_zrem env s args))"
    by (simp add: handler_simps handle_zrem_def zset_type_lasting(1) [OF l, where env = env] zset_type_lasting(2) [OF l]
        put_zset_def split: option.split bool.split)
  show "snd (plain handle_zrem env s args) = Inr r \<Longrightarrow> is_error_reply r \<Longrightarrow> fst (plain handle_zrem env s args) = s"
    using l by (auto simp: handler_simps handle_zrem_def zset_clock split: option.splits bool.splits if_splits)
  show "lasting (fst (plain handle_zrem env s args))"
    using l by (auto simp: handler_simps handle_zrem_def zset_clock put_zset_def split: option.splits bool.splits)
qed (auto simp: handler_simps handle_zrem_def wrong_sorted_set_type_eq put_zset_def split: option.splits bool.splits)

interpretation geoadd_l: logged_command "plain handle_geoadd" "{''GEOADD''}"
proof unfold_locales
  fix args s env env' t r
  assume l: "lasting s"
  obtain f rest where o: "geoadd_options \<lparr>ga_nx = False, ga_xx = False, ga_ch = False\<rparr> (drop 2 args) = (f, rest)" by fastforce
  obtain bad where k: "wrong_sorted_set_type env s (args ! Suc 0) = (s, bad)"
    using zset_type_lasting(2) [OF l, of env "args ! Suc 0"] by (metis prod.collapse)
  have k': "wrong_sorted_set_type env' (graft t s) (args ! Suc 0) = (graft t s, bad)"
    using zset_type_lasting(1) [OF l, of env' t "args ! Suc 0" env] k by simp
  have z: "zset_at (graft t s) (args ! Suc 0) = zset_at s (args ! Suc 0)" by (simp add: zset_at_def)
  show "agree env env' \<Longrightarrow> plain handle_geoadd env' (graft t s) args
      = (graft t (fst (plain handle_geoadd env s args)), snd (plain handle_geoadd env s args))"
    using k' by (cases "geoadd_entries env rest"; cases bad; erule_tac agree_cases)
      (simp_all add: handler_simps handle_geoadd_def o k z)
  show "lasting (fst (plain handle_geoadd env s args))"
    using l by (cases "geoadd_entries env rest"; cases bad) (simp_all add: handler_simps handle_geoadd_def o k)
  show "snd (plain handle_geoadd env s args) = Inr r \<Longrightarrow> is_error_reply r \<Longrightarrow> fst (plain handle_geoadd env s args) = s"
    by (cases "geoadd_entries env rest"; cases bad) (auto simp: handler_simps handle_geoadd_def o k split: if_splits)
qed (auto simp: handler_simps handle_geoadd_def wrong_sorted_set_type_eq split: sum.splits bool.splits)

lemma string_type_lasting:
  "lasting s \<Longrightarrow> wrong_string_type env' (graft t s) k = (graft t s, snd (wrong_string_type env s k))"
  "lasting s \<Longrightarrow> fst (wrong_string_type env s k) = s"
  using view_clock [of s env' t k env] by (simp_all add: wrong_string_type_eq)

interpretation setbit_l: logged_command "plain handle_setbit" "{''SETBIT''}"
proof unfold_locales
  fix args s env env' t r
  assume l: "lasting s"
  show "plain handle_setbit env' (graft t s) args
      = (graft t (fst (plain handle_setbit env s args)), snd (plain handle_setbit env s args))"
    by (cases "parse_offset (args ! 2)"; cases "snd (wrong_string_type env s (args ! 1))")
      (simp_all add: handler_simps handle_setbit_def string_type_lasting(1) [OF l, where env = env] string_type_lasting(2) [OF l])
  show "lasting (fst (plain handle_setbit env s args))"
    using l by (auto simp: handler_simps handle_setbit_def string_type_lasting split: option.splits bool.splits)
  show "snd (plain handle_setbit env s args) = Inr r \<Longrightarrow> is_error_reply r \<Longrightarrow> fst (plain handle_setbit env s args) = s"
    using l by (auto simp: handler_simps handle_setbit_def string_type_lasting split: option.splits bool.splits if_splits)
qed (auto simp: handler_simps handle_setbit_def wrong_string_type_eq split: option.splits bool.splits)

lemma bitop_sources_queue:
  "pending_propagations (fst (bitop_sources env s keys)) = pending_propagations s
     \<and> pending_block (fst (bitop_sources env s keys)) = pending_block s"
  by (induction keys arbitrary: s) (simp_all add: wrong_string_type_eq case_prod_beta split: bool.split)

text \<open>The checks of \<open>BITOP\<close> before its sources are read.\<close>

lemma handle_bitop_cases:
  obtains e where "\<And>env s. plain handle_bitop env s args = (s, Inr e)"
  | "\<And>env s. plain handle_bitop env s args =
       (case bitop_sources env s (drop 3 args) of
          (s, None) \<Rightarrow> (s, Inr wrong_type)
        | (s, Some sources) \<Rightarrow>
            (store_result (args ! 2) (bitop_result (to_upper (args ! 1)) sources) s,
             Inr (to_bytes (Integer (int (length (bitop_result (to_upper (args ! 1)) sources)))))))"
proof -
  consider "length args < 4" | "\<not> length args < 4" "to_upper (args ! 1) \<notin> {''AND'', ''OR'', ''XOR'', ''NOT''}"
    | "\<not> length args < 4" "to_upper (args ! 1) = ''NOT''" "length args \<noteq> 4"
    | "\<not> length args < 4" "to_upper (args ! 1) \<in> {''AND'', ''OR'', ''XOR'', ''NOT''}"
      "\<not> (to_upper (args ! 1) = ''NOT'' \<and> length args \<noteq> 4)" by blast
  then show ?thesis
  proof cases
    case 1
    then show ?thesis by (intro that(1)) (simp add: plain_def handle_bitop_def)
  next
    case 2
    then show ?thesis by (intro that(1)) (simp add: plain_def handle_bitop_def Let_def)
  next
    case 3
    then show ?thesis by (intro that(1)) (simp add: plain_def handle_bitop_def Let_def)
  next
    case 4
    then show ?thesis
      by (intro that(2)) (auto simp: plain_def handle_bitop_def Let_def case_prod_beta split: option.split)
  qed
qed

lemma store_result_graft: "store_result k v (graft t s) = graft t (store_result k v s)"
  by (simp add: store_result_def)

lemma store_result_frame:
  "lasting s \<Longrightarrow> lasting (store_result k v s)" "pending_propagations (store_result k v s) = pending_propagations s"
  "pending_block (store_result k v s) = pending_block s"
  by (simp_all add: store_result_def lasting_def herase_def)

interpretation bitop_l: logged_command "plain handle_bitop" "{''BITOP''}"
proof unfold_locales
  fix args s env env' t r
  let ?src = "bitop_sources env s (drop 3 args)"
  note src = bitop_sources_lasting [of s env' t "drop 3 args" env]
  show "lasting s \<Longrightarrow> plain handle_bitop env' (graft t s) args
      = (graft t (fst (plain handle_bitop env s args)), snd (plain handle_bitop env s args))"
    by (rule handle_bitop_cases [of args]; cases "snd ?src")
      (use src in \<open>auto simp: case_prod_beta store_result_graft\<close>)
  show "lasting s \<Longrightarrow> lasting (fst (plain handle_bitop env s args))"
    by (rule handle_bitop_cases [of args]; cases "snd ?src")
      (use src in \<open>auto simp: case_prod_beta store_result_frame\<close>)
  show "lasting s \<Longrightarrow> snd (plain handle_bitop env s args) = Inr r \<Longrightarrow> is_error_reply r \<Longrightarrow> fst (plain handle_bitop env s args) = s"
    by (rule handle_bitop_cases [of args]; cases "snd ?src")
      (use src in \<open>auto simp: case_prod_beta\<close>)
  show "pending_propagations (fst (plain handle_bitop env s args)) = pending_propagations s
      \<and> pending_block (fst (plain handle_bitop env s args)) = pending_block s"
    by (rule handle_bitop_cases [of args]; cases "snd ?src")
      (simp_all add: case_prod_beta store_result_frame bitop_sources_queue)
qed (simp add: handler_simps)

lemma refused_insert: "insert_entry now st id_text data = (r, st', sid) \<Longrightarrow> r \<noteq> Ok \<Longrightarrow> st' = st"
  by (auto simp: insert_entry_def split: prod.splits StreamAddResult.splits bool.splits)

interpretation xadd_l: logged_command "plain handle_xadd" "{''XADD''}"
proof unfold_locales
  fix args s env env' t r
  assume l: "lasting s"
  have fields: "stream_at (graft t s) k = stream_at s k" for k by (simp add: stream_at_def)
  let ?insert = "\<lambda>env. insert_entry (now_milliseconds env) (stream_at s (args ! Suc 0)) (args ! 2) (field_pairs (drop 3 args))"
  show "to_upper (args ! 0) \<in> {''XADD''} \<Longrightarrow> timeless args \<Longrightarrow> plain handle_xadd env' (graft t s) args
      = (graft t (fst (plain handle_xadd env s args)), snd (plain handle_xadd env s args))"
  proof -
    assume "to_upper (args ! 0) \<in> {''XADD''}" "timeless args"
    then have "?insert env' = ?insert env" by (intro insert_entry_clock) (simp add: timeless_def)
    moreover obtain q st sid where "?insert env = (q, st, sid)" by (metis prod_cases3)
    ultimately show ?thesis by (cases q) (simp_all add: plain_def Let_def handle_xadd_def fields)
  qed
  show "lasting (fst (plain handle_xadd env s args))"
    using l by (auto simp: handler_simps handle_xadd_def split: StreamAddResult.splits)
  show "snd (plain handle_xadd env s args) = Inr r \<Longrightarrow> is_error_reply r \<Longrightarrow> fst (plain handle_xadd env s args) = s"
  proof -
    assume r: "snd (plain handle_xadd env s args) = Inr r" "is_error_reply r"
    obtain q st sid where i: "insert_entry (now_milliseconds env) (stream_at s (args ! 1)) (args ! 2)
        (field_pairs (drop 3 args)) = (q, st, sid)" by (metis prod_cases3)
    show ?thesis
    proof (cases "q = Ok")
      case True
      with r i show ?thesis by (auto simp: handler_simps handle_xadd_def split: if_splits)
    next
      case False
      with refused_insert [OF i] have "st = stream_at s (args ! 1)" by simp
      then have "hget (Streams s) (args ! 1) \<noteq> None \<and> hput (args ! 1) st (Streams s) = Streams s \<or> hget (Streams s) (args ! 1) = None
          \<and> herase (args ! 1) (hput (args ! 1) st (Streams s)) = Streams s"
        by (cases "hget (Streams s) (args ! 1)")
          (simp_all add: stream_at_def hput_same herase_hput_absent)
      with False i show ?thesis
        by (auto simp: handler_simps handle_xadd_def split: StreamAddResult.splits)
    qed
  qed
qed (auto simp: handler_simps handle_xadd_def split: StreamAddResult.splits)

section \<open>The other commands\<close>

interpretation publish_q: quiet_command "\<lambda>_. handle_publish"
  by unfold_locales (auto simp: handle_publish_def same_data_def split: option.split)

interpretation wait_q: quiet_command handle_wait
  by unfold_locales (auto simp: handle_wait_def split: sum.split)

interpretation xread_q: quiet_command handle_xread
  by unfold_locales (auto simp: handle_xread_def Let_def split: sum.split option.split)

interpretation acl_q: quiet_command handle_acl
  by unfold_locales (auto simp: handle_acl_def Let_def same_data_def split: sum.split)

lemma plain_quiet: "quiet_command h \<Longrightarrow> quiet_command (plain h)"
  by (simp add: quiet_command_def plain_def case_prod_beta)

section \<open>Dispatch\<close>

definition table_logged :: "(string \<times> handler) list \<Rightarrow> bool" where
  "table_logged table \<longleftrightarrow> (\<forall>(name, h) \<in> set table.
     if is_write_command name then logged_command h {name} else name = ''BLPOP'' \<or> quiet_command h)"

lemmas front_contracts = plain_quiet [OF publish_q.quiet_command_axioms] zadd_l.logged_command_axioms
  plain_quiet [OF zrank_h.quiet.quiet_command_axioms] zrange_h.quiet.quiet_command_axioms
  plain_quiet [OF zcard_h.quiet.quiet_command_axioms] zscore_h.quiet.quiet_command_axioms zrem_l.logged_command_axioms
  geoadd_l.logged_command_axioms geopos_h.quiet.quiet_command_axioms geodist_h.quiet.quiet_command_axioms
  geosearch_h.quiet.quiet_command_axioms

lemma front_logged: "table_logged front_commands"
  by (simp add: table_logged_def front_commands_def front_contracts is_write_command_def write_commands_def)

lemmas data_contracts = plain_quiet [OF echo_h.quiet.quiet_command_axioms] set_l.logged_command_axioms
  plain_quiet [OF get_h.quiet.quiet_command_axioms] plain_quiet [OF strlen_h.quiet.quiet_command_axioms]
  setbit_l.logged_command_axioms plain_quiet [OF getbit_h.quiet.quiet_command_axioms]
  plain_quiet [OF bitcount_h.quiet.quiet_command_axioms] bitop_l.logged_command_axioms rpush_l.logged_command_axioms
  plain_quiet [OF lrange_h.quiet.quiet_command_axioms] lpush_l.logged_command_axioms
  plain_quiet [OF llen_h.quiet.quiet_command_axioms] lpop_l.logged_command_axioms
  plain_quiet [OF type_h.quiet.quiet_command_axioms] plain_quiet [OF keys_h.quiet.quiet_command_axioms]
  xadd_l.logged_command_axioms xrange_h.quiet.quiet_command_axioms xread_q.quiet_command_axioms
  incr_l.logged_command_axioms plain_quiet [OF info_h.quiet.quiet_command_axioms]
  plain_quiet [OF replconf_h.quiet.quiet_command_axioms] plain_quiet [OF psync_h.quiet.quiet_command_axioms]
  plain_quiet [OF wait_q.quiet_command_axioms] plain_quiet [OF config_get_h.quiet.quiet_command_axioms]

lemma data_logged: "table_logged data_commands"
  by (simp add: table_logged_def data_commands_def data_contracts is_write_command_def write_commands_def)

lemma table_command:
  assumes "table_logged table" "map_of table c = Some h"
  shows "is_write_command c \<Longrightarrow> logged_command h {c}"
    and "\<not> is_write_command c \<Longrightarrow> c \<noteq> ''BLPOP'' \<Longrightarrow> quiet_command h"
  using assms map_of_SomeD [OF assms(2)] by (auto simp: table_logged_def split: if_splits)

text \<open>The guard in front of the tables only reads the type of the key.\<close>

lemma key_type_lasting:
  "lasting s \<Longrightarrow> key_type env' (graft t s) k = (graft t s, snd (key_type env s k))"
  "lasting s \<Longrightarrow> fst (key_type env s k) = s"
  "pending_propagations (fst (key_type env s k)) = pending_propagations s \<and> pending_block (fst (key_type env s k)) = pending_block s"
  using view_clock [of s env' t k env] by (simp_all add: key_type_eq)

lemma unknown_is_error [simp]: "is_error_reply (unknown_command c)" "is_error_reply wrong_type"
  by (simp_all add: unknown_command_def wrong_type_def simple_error_def is_error_reply_def to_bytes.simps)

definition handle_unknown :: handler where
  "handle_unknown env s args = (s, Inr (unknown_command (args ! 0)))"

interpretation unknown_l: logged_command handle_unknown names for names
  by unfold_locales (simp_all add: handle_unknown_def)

interpretation unknown_q: quiet_command handle_unknown
  by unfold_locales (simp_all add: handle_unknown_def)

text \<open>Every command is one handler, behind a check of the key's type or not.\<close>

lemma dispatch_data_cases:
  fixes args :: args
  defines "c \<equiv> to_upper (args ! 0)"
  obtains h g where "is_write_command c \<Longrightarrow> logged_command h {c}"
    "\<not> is_write_command c \<Longrightarrow> c \<noteq> ''BLPOP'' \<Longrightarrow> quiet_command h"
    "\<And>env s. dispatch_data env s args =
       (if g \<and> snd (key_type env s (args ! 1)) = ''zset'' then (fst (key_type env s (args ! 1)), Inr wrong_type)
        else h env (if g then fst (key_type env s (args ! 1)) else s) args)"
proof (cases "map_of front_commands c")
  case None
  let ?g = "2 \<le> length args \<and> List.member incompatible_with_sorted_set c"
  show ?thesis
  proof (cases "map_of data_commands c")
    case (Some h)
    with \<open>map_of front_commands c = None\<close> that [of h ?g] table_command [OF data_logged Some] show ?thesis
      by (auto simp: dispatch_data_def Let_def case_prod_beta c_def)
  next
    case None
    with \<open>map_of front_commands c = None\<close> that [of handle_unknown ?g] unknown_l.logged_command_axioms
      unknown_q.quiet_command_axioms show ?thesis
      by (auto simp: dispatch_data_def Let_def case_prod_beta c_def handle_unknown_def)
  qed
next
  case (Some h)
  with that [of h False] table_command [OF front_logged Some] show ?thesis
    by (auto simp: dispatch_data_def Let_def c_def)
qed

interpretation dispatch_l: logged_command dispatch_data "{c. is_write_command c}"
proof unfold_locales
  fix args s env env' t r
  assume "to_upper (args ! 0) \<in> {c. is_write_command c}"
  then have w: "is_write_command (to_upper (args ! 0))" by simp
  obtain h g where l: "logged_command h {to_upper (args ! 0)}" and d: "\<And>env s. dispatch_data env s args =
       (if g \<and> snd (key_type env s (args ! 1)) = ''zset'' then (fst (key_type env s (args ! 1)), Inr wrong_type)
        else h env (if g then fst (key_type env s (args ! 1)) else s) args)"
    using dispatch_data_cases w by metis
  have me: "to_upper (args ! 0) \<in> {to_upper (args ! 0)}" by simp
  note types = key_type_lasting(1) [of s env' t "args ! 1" env] key_type_lasting(2) [of s env "args ! 1"]
    key_type_lasting(3) [of env s "args ! 1"]
  show "lasting s \<Longrightarrow> agree env env' \<Longrightarrow> timeless args \<Longrightarrow> dispatch_data env' (graft t s) args
      = (graft t (fst (dispatch_data env s args)), snd (dispatch_data env s args))"
    using logged_command.repeats [OF l me, of s env env' t] types by (simp add: d del: One_nat_def)
  show "\<exists>r. snd (dispatch_data env s args) = Inr r"
    using logged_command.answers [OF l me] by (simp add: d)
  show "lasting s \<Longrightarrow> snd (dispatch_data env s args) = Inr r \<Longrightarrow> is_error_reply r \<Longrightarrow> fst (dispatch_data env s args) = s"
    using logged_command.refuses [OF l me, of s env r] types by (auto simp: d split: if_splits simp del: One_nat_def)
  show "lasting s \<Longrightarrow> timeless args \<Longrightarrow> lasting (fst (dispatch_data env s args))"
    using logged_command.lasts [OF l me, of s env] types by (simp add: d del: One_nat_def)
  show "pending_propagations (fst (dispatch_data env s args)) = pending_propagations s
      \<and> pending_block (fst (dispatch_data env s args)) = pending_block s"
    using logged_command.queues_nothing [OF l me, of env] types by (simp add: d del: One_nat_def)
qed

lemma dispatch_quiet:
  assumes "\<not> is_write_command (to_upper (args ! 0))" "to_upper (args ! 0) \<noteq> ''BLPOP''"
  shows "lasting s \<Longrightarrow> same_data (fst (dispatch_data env s args)) s"
    and "pending_propagations (fst (dispatch_data env s args)) = pending_propagations s"
proof -
  obtain h g where q: "quiet_command h" and d: "\<And>env s. dispatch_data env s args =
       (if g \<and> snd (key_type env s (args ! 1)) = ''zset'' then (fst (key_type env s (args ! 1)), Inr wrong_type)
        else h env (if g then fst (key_type env s (args ! 1)) else s) args)"
    using dispatch_data_cases assms by metis
  show "lasting s \<Longrightarrow> same_data (fst (dispatch_data env s args)) s"
    using quiet_command.keeps_data [OF q, of s env args] key_type_lasting(2) [of s env "args ! 1"]
    by (simp add: d del: One_nat_def)
  show "pending_propagations (fst (dispatch_data env s args)) = pending_propagations s"
    using quiet_command.keeps_queue [OF q] key_type_lasting(3) by (simp add: d del: One_nat_def)
qed

text \<open>A \<open>BLPOP\<close> that pops queues the \<open>LPOP\<close> that repeats it.\<close>

lemma try_blpop_cases:
  "try_blpop keys s = (s, None)
   \<or> (\<exists>k v rest. list_at s k = v # rest
        \<and> try_blpop keys s = (queue_propagation [''LPOP'', k] (put_list k rest s), Some (k, v)))"
  by (induction keys) (auto split: list.split)

lemma to_upper_words [simp]: "to_upper ''LPOP'' = ''LPOP''" "to_upper ''MULTI'' = ''MULTI''" "to_upper ''EXEC'' = ''EXEC''"
  by code_simp+

lemma lpop_repeats:
  assumes "lasting s" "list_at s k = v # rest" "same_data t s"
  shows "dispatch_data env t [''LPOP'', k] = (graft t (put_list k rest s), Inr (to_bytes (BulkString v)))"
proof -
  have "hget (DynamicVector s) k = Some (v # rest)" using assms(2) by (simp add: list_at_def split: option.splits)
  then have "snd (key_type env s k) \<noteq> ''zset''"
    using assms(1) by (auto simp: key_type_eq view_def split: option.split)
  moreover have "map_of front_commands ''LPOP'' = None" "map_of data_commands ''LPOP'' = Some (plain (\<lambda>_. handle_lpop))"
    by (simp_all add: front_commands_def data_commands_def)
  ultimately have "dispatch_data env s [''LPOP'', k] = (put_list k rest s, Inr (to_bytes (BulkString v)))"
    using assms(1,2) key_type_lasting(2) [OF assms(1), of env k]
    by (simp add: dispatch_data_def Let_def case_prod_beta plain_def handle_lpop_def)
  moreover have "is_write_command ''LPOP''" by code_simp
  ultimately show ?thesis
    using dispatch_l.on_same_data [of "[''LPOP'', k]" s env env t] assms(1,3) by (simp add: timeless_def)
qed

end
