(* ===== verification/Recovery.thy ===== *)
theory Recovery
  imports Logged_Commands
begin

text \<open>
  Replaying the log, command by command: whatever a command did to the key space, running
  what was logged for it does it again. \<open>handle_command_logged\<close> covers every command a client
  can send, \<open>replay_redo\<close> and \<open>replay_transaction_redo\<close> the two forms the log has.
\<close>

section \<open>Running logged commands again\<close>

fun redo :: "env \<Rightarrow> args list \<Rightarrow> store \<Rightarrow> store option" where
  "redo env [] t = Some t"
| "redo env (args # cmds) t =
     (case dispatch_data env t args of
        (t, Inl _) \<Rightarrow> None
      | (t, Inr r) \<Rightarrow> if is_error_reply r then None else redo env cmds t)"

lemma redo_append: "redo env (cs @ ds) t = (case redo env cs t of None \<Rightarrow> None | Some t \<Rightarrow> redo env ds t)"
  by (induction cs arbitrary: t) (simp_all split: prod.split sum.split)

definition writes :: "args \<Rightarrow> bool" where
  "writes args \<longleftrightarrow> args \<noteq> [] \<and> is_write_command (to_upper (args ! 0))"

text \<open>What a list of commands stands for: the change from one key space to another.\<close>

definition repeats_change :: "env \<Rightarrow> args list \<Rightarrow> store \<Rightarrow> store \<Rightarrow> bool" where
  "repeats_change env cmds s s' \<longleftrightarrow> lasting s \<and> list_all timeless cmds \<longrightarrow>
     lasting s' \<and> (\<forall>t. same_data t s \<longrightarrow> redo env cmds t = Some (graft t s'))"

lemma graft_graft [simp]: "graft (graft t s) r = graft t r"
  by (simp add: graft_def)

lemma repeats_nothing: "same_data s' s \<Longrightarrow> repeats_change env [] s s'"
  by (auto simp: repeats_change_def lasting_def same_data_def graft_def)

lemma repeats_trans:
  assumes "repeats_change env cs s s1" "repeats_change env ds s1 s2"
  shows "repeats_change env (cs @ ds) s s2"
  unfolding repeats_change_def
proof (intro impI conjI allI)
  assume "lasting s \<and> list_all timeless (cs @ ds)"
  then have 1: "lasting s1" "\<And>t. same_data t s \<Longrightarrow> redo env cs t = Some (graft t s1)" and "list_all timeless ds"
    using assms(1) by (auto simp: repeats_change_def)
  then have 2: "lasting s2" "\<And>t. same_data t s1 \<Longrightarrow> redo env ds t = Some (graft t s2)"
    using assms(2) by (auto simp: repeats_change_def)
  show "lasting s2" by (rule 2)
  show "redo env (cs @ ds) t = Some (graft t s2)" if "same_data t s" for t
    using 1(2) [OF that] 2(2) [of "graft t s1"] by (simp add: redo_append)
qed

lemma repeats_frame:
  "same_data s1 s \<Longrightarrow> same_data s1' s' \<Longrightarrow> repeats_change env cmds s s' \<Longrightarrow> repeats_change env cmds s1 s1'"
  by (auto simp: repeats_change_def lasting_def same_data_def graft_def)

section \<open>What one dispatched command logs\<close>

definition own_log :: "args \<Rightarrow> string res \<Rightarrow> args list" where
  "own_log args r = (case r of Inl _ \<Rightarrow> [] | Inr x \<Rightarrow> if writes args \<and> \<not> is_error_reply x then [args] else [])"

lemma lpop_write: "is_write_command ''LPOP''"
  by code_simp

lemma write_logged:
  assumes "writes args" "agree env0 env"
  shows "repeats_change env0 (own_log args (snd (dispatch_data env s args))) s (fst (dispatch_data env s args))"
proof -
  have w: "to_upper (args ! 0) \<in> {c. is_write_command c}" using assms(1) by (simp add: writes_def)
  obtain r where r: "snd (dispatch_data env s args) = Inr r" using dispatch_l.answers [OF w] by blast
  show ?thesis
  proof (cases "is_error_reply r")
    case True
    with r dispatch_l.refuses [OF w _ r True] have "lasting s \<Longrightarrow> fst (dispatch_data env s args) = s" by blast
    with True r show ?thesis
      by (auto simp: own_log_def repeats_change_def same_data_graft)
  next
    case False
    have "redo env0 [args] t = Some (graft t (fst (dispatch_data env s args)))"
      if "lasting s" "timeless args" "same_data t s" for t
      using dispatch_l.on_same_data [OF w that(1) agree_sym [OF assms(2)] that(2,3)] r False by simp
    with False r assms(1) dispatch_l.lasts [OF w] show ?thesis
      by (simp add: own_log_def repeats_change_def)
  qed
qed

lemma handle_blpop_store:
  fixes s :: store and args :: args
  defines "popped \<equiv> try_blpop (butlast (drop (Suc 0) args)) (s\<lparr>pending_block := None\<rparr>)"
  shows "fst (handle_blpop env s args) = s\<lparr>pending_block := pending_block (fst (handle_blpop env s args))\<rparr>
     \<or> snd popped \<noteq> None \<and> fst (handle_blpop env s args) = fst popped"
proof (cases "snd popped")
  case None
  with try_blpop_cases [of "butlast (drop (Suc 0) args)" "s\<lparr>pending_block := None\<rparr>"]
  have "popped = (s\<lparr>pending_block := None\<rparr>, None)" by (auto simp: popped_def)
  then show ?thesis
    by (cases "stod env (last args)") (auto simp: handle_blpop_def popped_def [symmetric] Let_def)
next
  case (Some kv)
  then show ?thesis
    by (cases "stod env (last args)"; cases popped; cases kv) (auto simp: handle_blpop_def popped_def [symmetric] Let_def)
qed

lemma blpop_logged:
  assumes "to_upper (args ! 0) = ''BLPOP''"
  shows "\<exists>new. pending_propagations (fst (dispatch_data env s args)) = pending_propagations s @ new
     \<and> list_all writes new \<and> repeats_change env0 new s (fst (dispatch_data env s args))"
proof -
  have d: "dispatch_data env s args = plain handle_blpop env s args"
    using assms by (simp add: dispatch_data_def front_commands_def data_commands_def incompatible_with_sorted_set_def)
  let ?s = "s\<lparr>pending_block := None\<rparr>" and ?keys = "butlast (drop (Suc 0) args)" and ?d = "fst (dispatch_data env s args)"
  consider b where "?d = s\<lparr>pending_block := b\<rparr>"
    | k v rest where "list_at s k = v # rest" "?d = queue_propagation [''LPOP'', k] (put_list k rest ?s)"
  proof -
    have at: "list_at ?s k = list_at s k" for k by (simp add: list_at_def)
    have "?d = fst (handle_blpop env s args)" by (simp add: d handler_simps)
    with handle_blpop_store [of env s args] try_blpop_cases [of ?keys ?s] that show ?thesis by (auto simp: at)
  qed
  then show ?thesis
  proof cases
    case (1 b)
    then show ?thesis by (intro exI [of _ "[]"]) (simp add: repeats_nothing)
  next
    case (2 k v rest)
    have "redo env0 [[''LPOP'', k]] t = Some (graft t ?d)" if "lasting s" "same_data t s" for t
      using lpop_repeats [OF that(1) 2(1) that(2), of env0] 2(2)
      by (simp add: graft_def put_list_def queue_propagation_def)
    moreover have "lasting s \<Longrightarrow> lasting ?d" by (simp add: 2(2))
    ultimately show ?thesis
      using 2(2) lpop_write by (intro exI [of _ "[[''LPOP'', k]]"]) (simp add: repeats_change_def writes_def queue_propagation_def)
  qed
qed

definition logs_of :: "env \<Rightarrow> args list \<Rightarrow> store \<Rightarrow> store \<Rightarrow> bool" where
  "logs_of env cmds s s' \<longleftrightarrow> list_all writes cmds \<and> repeats_change env cmds s s'"

lemma logs_trans: "logs_of env cs s s1 \<Longrightarrow> logs_of env ds s1 s2 \<Longrightarrow> logs_of env (cs @ ds) s s2"
  unfolding logs_of_def using repeats_trans [of env cs s s1 ds s2] by simp

text \<open>
  A dispatched command: what it queues itself and its own entry together repeat its change;
  only one of the two is ever there.
\<close>

lemma dispatch_data_logged:
  assumes "args \<noteq> []" "agree env0 env"
  shows "\<exists>new. pending_propagations (fst (dispatch_data env s args)) = pending_propagations s @ new
     \<and> (new = [] \<or> own_log args (snd (dispatch_data env s args)) = [])
     \<and> logs_of env0 (new @ own_log args (snd (dispatch_data env s args))) s (fst (dispatch_data env s args))"
proof (cases "writes args")
  case True
  then have "to_upper (args ! 0) \<in> {c. is_write_command c}" by (simp add: writes_def)
  with dispatch_l.queues_nothing [OF this] write_logged [OF True assms(2), of s] True show ?thesis
    by (intro exI [of _ "[]"]) (simp add: logs_of_def own_log_def split: sum.split)
next
  case False
  then have own: "own_log args r = []" for r by (simp add: own_log_def split: sum.split)
  have nw: "\<not> is_write_command (to_upper (args ! 0))" using False assms(1) by (simp add: writes_def)
  show ?thesis
  proof (cases "to_upper (args ! 0) = ''BLPOP''")
    case True
    from blpop_logged [OF this, of env s env0] show ?thesis by (auto simp: own logs_of_def)
  next
    case False
    note quiet = dispatch_quiet [OF nw False, where env = env and s = s]
    have "repeats_change env0 [] s (fst (dispatch_data env s args))"
      using quiet(1) repeats_nothing by (auto simp: repeats_change_def)
    with quiet(2) show ?thesis by (intro exI [of _ "[]"]) (simp add: own logs_of_def)
  qed
qed

text \<open>The commands dispatched before the tables leave the key space alone.\<close>

definition kept :: "store \<Rightarrow> ClientState \<Rightarrow> store \<times> ClientState \<times> 'r \<Rightarrow> bool" where
  "kept s client res \<longleftrightarrow> same_data (fst res) s \<and> pending_propagations (fst res) = pending_propagations s
     \<and> pending_block (fst res) = pending_block s \<and> queued (fst (snd res)) = queued client"

lemma kept_refl [simp]: "kept s client (s, client, r)"
  by (simp add: kept_def)

lemma same_data_subscribers [simp]: "same_data (t\<lparr>subscribers := x\<rparr>) s = same_data t s"
  by (simp add: same_data_def)

lemma subscribe_channels_kept: "kept s client (subscribe_channels channels s client)"
  by (induction channels arbitrary: s client) (simp_all add: kept_def same_data_def Let_def case_prod_beta)

lemma erase_subscriber_kept:
  "same_data (erase_subscriber channel n s) s"
  "pending_propagations (erase_subscriber channel n s) = pending_propagations s"
  "pending_block (erase_subscriber channel n s) = pending_block s"
  by (simp_all add: erase_subscriber_def Let_def split: option.split)

lemma unsubscribe_channels_kept: "kept s client (unsubscribe_channels channels s client)"
  by (induction channels arbitrary: s client) (use erase_subscriber_kept in \<open>simp_all add: kept_def same_data_def Let_def case_prod_beta\<close>)

lemma subscribe_kept: "kept s client (handle_subscribe args s client)" "kept s client (handle_unsubscribe args s client)"
  by (simp_all add: handle_subscribe_def handle_unsubscribe_def Let_def subscribe_channels_kept unsubscribe_channels_kept)

lemma remove_subscriber_kept:
  "same_data (remove_subscriber n s) s" "pending_propagations (remove_subscriber n s) = pending_propagations s"
  "pending_block (remove_subscriber n s) = pending_block s"
  by (simp_all add: remove_subscriber_def)

lemma special_not_write:
  "is_write_command c \<Longrightarrow> c \<notin> {''ACL'', ''AUTH'', ''PING'', ''SUBSCRIBE'', ''UNSUBSCRIBE'',
     ''QUIT'', ''RESET'', ''MULTI'', ''WATCH'', ''UNWATCH'', ''DISCARD'', ''EXEC''}"
proof -
  have "list_all (\<lambda>c. c \<notin> {''ACL'', ''AUTH'', ''PING'', ''SUBSCRIBE'', ''UNSUBSCRIBE'',
     ''QUIT'', ''RESET'', ''MULTI'', ''WATCH'', ''UNWATCH'', ''DISCARD'', ''EXEC''}) write_commands" by code_simp
  then show "is_write_command c \<Longrightarrow> ?thesis" by (auto simp: is_write_command_def list_all_iff)
qed

lemma handle_auth_queued: "queued (fst (handle_auth env args s client)) = queued client"
  by (auto simp: handle_auth_def Let_def split: sum.split)

text \<open>Dispatch of one command, in full.\<close>

lemma dispatch_command_cases:
  assumes "dispatch_command env args s client = (s', client', r)"
  obtains (special) "to_upper (args ! 0) \<in> {''ACL'', ''AUTH'', ''PING'', ''SUBSCRIBE'', ''UNSUBSCRIBE''}"
      "lasting s \<Longrightarrow> same_data s' s" "pending_propagations s' = pending_propagations s" "queued client' = queued client"
  | (tables) "dispatch_data env s args = (s', r)" "client' = client"
proof -
  consider "to_upper (args ! 0) \<in> {''ACL'', ''AUTH'', ''PING'', ''SUBSCRIBE'', ''UNSUBSCRIBE''}"
    | "to_upper (args ! 0) \<notin> {''ACL'', ''AUTH'', ''PING'', ''SUBSCRIBE'', ''UNSUBSCRIBE''}" by blast
  then show thesis
  proof cases
    case 1
    note facts = acl_q.keeps_data [of s env args] acl_q.keeps_queue [of env s args] subscribe_kept [of s client args]
      handle_auth_queued [of env args s client]
    have "(lasting s \<longrightarrow> same_data s' s) \<and> pending_propagations s' = pending_propagations s \<and> queued client' = queued client"
      using 1 assms facts by (auto simp: dispatch_command_def kept_def split: prod.splits if_splits)
    with special 1 show thesis by blast
  next
    case 2
    with assms tables show thesis by (auto simp: dispatch_command_def Let_def split: prod.splits)
  qed
qed

lemma dispatch_command_logged:
  assumes "args \<noteq> []" "agree env0 env" "dispatch_command env args s client = (s', client', r)"
  shows "\<exists>new. pending_propagations s' = pending_propagations s @ new \<and> (new = [] \<or> own_log args r = [])
     \<and> logs_of env0 (new @ own_log args r) s s'"
  using assms(3)
proof (cases rule: dispatch_command_cases)
  case special
  have "\<not> writes args" using special(1) special_not_write by (auto simp: writes_def)
  then have "own_log args r = []" by (simp add: own_log_def split: sum.split)
  moreover have "repeats_change env0 [] s s'" using special(2) repeats_nothing by (auto simp: repeats_change_def)
  ultimately show ?thesis using special(3) by (intro exI [of _ "[]"]) (simp add: logs_of_def)
next
  case tables
  with dispatch_data_logged [OF assms(1,2), of s] show ?thesis by simp
qed

text \<open>A write that is dispatched asks for no blocking.\<close>

lemma write_block:
  assumes "writes args" "dispatch_command env args s client = (s', client', r)"
  shows "pending_block s' = pending_block s \<and> client' = client \<and> dispatch_data env s args = (s', r)"
  using assms(2)
proof (cases rule: dispatch_command_cases)
  case special
  with assms(1) special_not_write show ?thesis by (auto simp: writes_def)
next
  case tables
  with dispatch_l.queues_nothing [of args env s] assms(1) show ?thesis by (simp add: writes_def)
qed

section \<open>What a transaction logs\<close>

lemma exec_commands_logged:
  assumes "agree env0 env" "[] \<notin> set cmds" "pending_block s = None"
    and "exec_commands env cmds s client reply = (s', client', r)"
  shows "\<exists>new. pending_propagations s' = pending_propagations s @ new \<and> logs_of env0 new s s' \<and> queued client' = queued client"
  using assms(2-4)
proof (induction cmds arbitrary: s client reply)
  case Nil
  then show ?case by (intro exI [of _ "[]"]) (simp add: logs_of_def repeats_nothing)
next
  case (Cons args cmds)
  obtain s1 c1 r1 where d: "dispatch_command env args s client = (s1, c1, r1)" by (metis prod_cases3)
  have ne: "args \<noteq> []" using Cons.prems(1) by auto
  obtain new where new: "pending_propagations s1 = pending_propagations s @ new" "logs_of env0 (new @ own_log args r1) s s1"
    using dispatch_command_logged [OF ne assms(1) d] by blast
  have q: "queued c1 = queued client" using d by (cases rule: dispatch_command_cases) auto
  show ?case
  proof (cases r1)
    case (Inl e)
    with Cons.prems(3) d have "s' = s1" "client' = c1" by simp_all
    with new q Inl show ?thesis by (auto simp: own_log_def)
  next
    case (Inr result)
    define s2 where "s2 = (if own_log args r1 \<noteq> [] then queue_propagation args (s1\<lparr>pending_block := None\<rparr>)
      else s1\<lparr>pending_block := None\<rparr>)"
    have step: "\<exists>reply'. exec_commands env cmds s2 c1 reply' = (s', client', r)"
    proof (cases "writes args")
      case True
      with write_block [OF True d] Cons.prems(2,3) d Inr ne show ?thesis
        by (auto simp: s2_def own_log_def writes_def take_pending_block_def Let_def split: if_splits)
    next
      case False
      then have "\<not> is_write_command (to_upper (args ! 0))" using ne by (simp add: writes_def)
      with Cons.prems(3) d Inr False show ?thesis
        by (auto simp: s2_def own_log_def take_pending_block_def Let_def)
    qed
    have s2: "same_data s2 s1" "pending_block s2 = None"
        "pending_propagations s2 = pending_propagations s @ new @ own_log args r1"
      using new(1) Inr by (auto simp: s2_def queue_propagation_def own_log_def same_data_def)
    from Cons.IH [of s2 c1] step Cons.prems(1) s2(2) obtain new' where n:
      "pending_propagations s' = pending_propagations s2 @ new'" "logs_of env0 new' s2 s'" "queued client' = queued c1"
      by auto
    have "logs_of env0 new' s1 s'"
      using n(2) repeats_frame [OF same_data_sym [OF s2(1)] same_data_refl] by (simp add: logs_of_def)
    with new(2) have "logs_of env0 ((new @ own_log args r1) @ new') s s'" by (rule logs_trans)
    with n s2(3) q show ?thesis by (intro exI [of _ "(new @ own_log args r1) @ new'"]) simp
  qed
qed

section \<open>What any command logs\<close>

lemma watching_lasting:
  "lasting s \<Longrightarrow> fst (watch_keys env keys s) = s" "lasting s \<Longrightarrow> fst (watch_dirty env ws s) = s"
  using watch_keys_only_reaps [of env keys s] watch_dirty_only_reaps [of env ws s] by auto

lemma watching_queue:
  "pending_propagations (fst (watch_keys env keys s)) = pending_propagations s"
  "pending_propagations (fst (watch_dirty env ws s)) = pending_propagations s"
  "pending_block (fst (watch_dirty env ws s)) = pending_block s"
proof -
  have block: "pending_block (reap_all env ks s) = pending_block s" for ks by (induction ks arbitrary: s) simp_all
  show "pending_propagations (fst (watch_keys env keys s)) = pending_propagations s"
    using watch_keys_only_reaps [of env keys s] by auto
  show "pending_propagations (fst (watch_dirty env ws s)) = pending_propagations s"
    and "pending_block (fst (watch_dirty env ws s)) = pending_block s"
    using watch_dirty_only_reaps [of env ws s] block by auto
qed

lemma repeats_lasting: "(lasting s \<Longrightarrow> same_data s' s) \<Longrightarrow> repeats_change env [] s s'"
  using repeats_nothing by (auto simp: repeats_change_def)

lemma handle_exec_logged:
  assumes "agree env0 env" "[] \<notin> set (queued client)" "pending_block s = None"
    and "handle_exec env s client = (s', client', r)"
  shows "\<exists>new. pending_propagations s' = pending_propagations s @ new \<and> logs_of env0 new s s' \<and> [] \<notin> set (queued client')"
proof (cases "in_multi client")
  case False
  with assms show ?thesis by (intro exI [of _ "[]"]) (auto simp: handle_exec_def logs_of_def repeats_nothing)
next
  case True
  obtain s1 dirty where d: "watch_dirty env (watched client) s = (s1, dirty)" by fastforce
  have s1: "repeats_change env0 [] s s1" "pending_propagations s1 = pending_propagations s" "pending_block s1 = None"
    using watching_lasting(2) [of s env "watched client"] watching_queue(2,3) [of env "watched client" s] d assms(3)
    by (auto intro: repeats_lasting)
  show ?thesis
  proof (cases dirty)
    case True
    with assms(4) d \<open>in_multi client\<close> s1 show ?thesis
      by (intro exI [of _ "[]"]) (auto simp: handle_exec_def logs_of_def reset_transaction_def)
  next
    case False
    with assms(4) d \<open>in_multi client\<close>
    have "exec_commands env (queued client) s1 (reset_transaction client)
        (''*'' @ to_string_nat (length (queued client)) @ crlf) = (s', client', r)"
      by (simp add: handle_exec_def)
    from exec_commands_logged [OF assms(1,2) s1(3) this] obtain new where
      "pending_propagations s' = pending_propagations s1 @ new" "logs_of env0 new s1 s'"
      "queued client' = queued (reset_transaction client)" by blast
    with s1 repeats_trans [OF s1(1), of new s'] show ?thesis
      by (intro exI [of _ new]) (auto simp: logs_of_def reset_transaction_def)
  qed
qed

lemma error_replies [simp]:
  "is_error_reply (simple_error m)" "is_error_reply noauth_error" "is_error_reply (subscribed_error m)"
  by (simp_all add: simple_error_def noauth_error_def subscribed_error_def is_error_reply_def to_bytes.simps)

definition refused :: "args \<Rightarrow> string res \<Rightarrow> bool" where
  "refused args r \<longleftrightarrow> \<not> writes args \<or> (\<exists>x. r = Inr x \<and> is_error_reply x)"

lemma refused_log: "refused args r \<Longrightarrow> own_log args r = []"
  by (auto simp: refused_def own_log_def split: sum.split)

text \<open>A command is refused or handled by the transaction layer, run by \<open>EXEC\<close>, or dispatched.\<close>

lemma handle_command_cases:
  assumes "handle_command env args s client = (s', client', r)" "[] \<notin> set (queued client)"
  obtains (quiet) "refused args r \<or> in_multi client" "lasting s \<Longrightarrow> same_data s' s"
      "pending_propagations s' = pending_propagations s" "[] \<notin> set (queued client')"
  | (exec) "refused args r" "handle_exec env s client = (s', client', r)"
  | (dispatch) "args \<noteq> []" "\<not> in_multi client" "dispatch_command env args s client = (s', client', r)"
proof (cases "args = []")
  case True
  with assms quiet show ?thesis by (auto simp: handle_command_def refused_def)
next
  case False
  let ?c = "to_upper (args ! 0)"
  consider (gate) "\<not> authenticated client" "\<not> default_user_auto_auth s" "?c \<notin> {''AUTH'', ''QUIT'', ''RESET''}"
    | (mode) "authenticated client \<or> default_user_auto_auth s \<or> ?c \<in> {''AUTH'', ''QUIT'', ''RESET''}"
        "subscriptions client \<noteq> []" "\<not> List.member subscribed_allowed ?c"
    | (passed) "authenticated client \<or> default_user_auto_auth s \<or> ?c \<in> {''AUTH'', ''QUIT'', ''RESET''}"
        "subscriptions client = [] \<or> List.member subscribed_allowed ?c" by blast
  then show ?thesis
  proof cases
    case gate
    with False assms show ?thesis by (intro quiet) (auto simp: handle_command_def refused_def)
  next
    case mode
    with False assms show ?thesis by (intro quiet) (auto simp: handle_command_def refused_def Let_def)
  next
    case passed
    consider (steer) "?c \<in> {''QUIT'', ''RESET'', ''MULTI'', ''WATCH'', ''UNWATCH'', ''DISCARD''}" | (exec) "?c = ''EXEC''"
      | (other) "?c \<notin> {''QUIT'', ''RESET'', ''MULTI'', ''WATCH'', ''UNWATCH'', ''DISCARD'', ''EXEC''}" by blast
    then show ?thesis
    proof cases
      case steer
      have "refused args r" using steer special_not_write by (auto simp: refused_def writes_def)
      moreover have "(lasting s \<longrightarrow> same_data s' s) \<and> pending_propagations s' = pending_propagations s
          \<and> [] \<notin> set (queued client')"
      proof -
        from steer consider "?c \<in> {''QUIT'', ''RESET''}" | "?c = ''MULTI''" | "?c = ''WATCH''" | "?c = ''UNWATCH''" | "?c = ''DISCARD''"
          by blast
        then show ?thesis
        proof cases
          case 1
          with False passed assms(1) obtain x where "handle_reset args s client = (s', client', x)"
            by (auto simp: handle_command_def Let_def split: prod.splits)
          with assms(2) remove_subscriber_kept [of "fd client" s] show ?thesis
            by (auto simp: handle_reset_def reset_transaction_def Let_def split: if_splits)
        next
          case 2
          with False passed assms show ?thesis
            by (auto simp: handle_command_def handle_multi_def Let_def split: if_splits)
        next
          case 3
          with False passed assms(1) obtain x where "handle_watch env args s client = (s', client', x)"
            by (auto simp: handle_command_def Let_def split: prod.splits)
          with assms(2) watching_lasting(1) [of s env "drop 1 args"] watching_queue(1) [of env "drop 1 args" s] show ?thesis
            by (auto simp: handle_watch_def split: if_splits prod.splits)
        next
          case 4
          with False passed assms show ?thesis by (auto simp: handle_command_def Let_def)
        next
          case 5
          with False passed assms show ?thesis
            by (auto simp: handle_command_def handle_discard_def reset_transaction_def Let_def split: if_splits)
        qed
      qed
      ultimately show ?thesis using quiet by blast
    next
      case exec
      have "refused args r" using exec special_not_write [of ?c] by (auto simp: refused_def writes_def)
      moreover have "handle_exec env s client = (s', client', r)"
        using exec False passed assms(1) by (simp add: handle_command_def Let_def split: if_splits)
      ultimately show ?thesis by (rule that(2))
    next
      case other
      show ?thesis
      proof (cases "in_multi client")
        case True
        with other False passed assms show ?thesis
          by (intro quiet) (auto simp: handle_command_def Let_def split: if_splits)
      next
        case no_multi: False
        have "dispatch_command env args s client = (s', client', r)"
          using no_multi other False passed assms(1) by (simp add: handle_command_def Let_def split: if_splits)
        with False no_multi show ?thesis by (rule dispatch)
      qed
    qed
  qed
qed

lemma handle_command_logged:
  fixes client :: ClientState and args :: args
  assumes "agree env0 env" "[] \<notin> set (queued client)" "pending_block s = None" "pending_propagations s = []"
    and "handle_command env args s client = (s', client', r)"
  defines "own \<equiv> (if in_multi client then [] else own_log args r)"
  shows "(own = [] \<or> pending_propagations s' = []) \<and> logs_of env0 (own @ pending_propagations s') s s' \<and> [] \<notin> set (queued client')"
  using assms(5,2)
proof (cases rule: handle_command_cases)
  case quiet
  then have "own = []" by (auto simp: own_def refused_log)
  with quiet assms(4) repeats_lasting [OF quiet(2)] show ?thesis by (simp add: logs_of_def)
next
  case exec
  then have "own = []" by (simp add: own_def refused_log)
  with handle_exec_logged [OF assms(1-3) exec(2)] assms(4) show ?thesis by auto
next
  case dispatch
  obtain new where new: "pending_propagations s' = pending_propagations s @ new" "new = [] \<or> own_log args r = []"
      "logs_of env0 (new @ own_log args r) s s'"
    using dispatch_command_logged [OF dispatch(1) assms(1) dispatch(3)] by blast
  moreover have "queued client' = queued client" using dispatch(3) by (cases rule: dispatch_command_cases) auto
  ultimately show ?thesis using dispatch(2) assms(2,4) by (auto simp: own_def)
qed

section \<open>Replay\<close>

text \<open>One logged write, run again at another time.\<close>

lemma redo_write:
  assumes "agree env0 env" "writes args" "timeless args" "lasting t" "redo env0 [args] t = Some t1"
  obtains r where "dispatch_data env t args = (t1, Inr r)" "\<not> is_error_reply r" "lasting t1"
    "pending_propagations t1 = pending_propagations t" "pending_block t1 = pending_block t"
proof -
  have w: "to_upper (args ! 0) \<in> {c. is_write_command c}" using assms(2) by (simp add: writes_def)
  obtain r where d: "dispatch_data env0 t args = (t1, Inr r)" "\<not> is_error_reply r"
    using assms(5) by (auto split: prod.splits sum.splits if_splits)
  have "graft t t1 = t1"
    using dispatch_l.repeats [OF w assms(4) agree_refl [of env0] assms(3), of t] d(1) by simp
  then have "dispatch_data env t args = (t1, Inr r)"
    using dispatch_l.repeats [OF w assms(4,1,3), of t] d(1) by simp
  with that [of r] d dispatch_l.lasts [OF w assms(4,3), of env0] dispatch_l.queues_nothing [OF w, of env0 t]
  show ?thesis by simp
qed

lemma write_command:
  assumes "writes args" "authenticated client" "subscriptions client = []" "\<not> in_multi client"
  shows "handle_command env args t client
     = (fst (dispatch_data env t args), client, snd (dispatch_data env t args))"
    and "dispatch_command env args t client
     = (fst (dispatch_data env t args), client, snd (dispatch_data env t args))"
proof -
  have ne: "args \<noteq> []" using assms(1) by (simp add: writes_def)
  have c: "to_upper (args ! 0) \<notin> {''ACL'', ''AUTH'', ''PING'', ''SUBSCRIBE'', ''UNSUBSCRIBE'',
      ''QUIT'', ''RESET'', ''MULTI'', ''WATCH'', ''UNWATCH'', ''DISCARD'', ''EXEC''}"
    using assms(1) special_not_write [of "to_upper (args ! 0)"] by (simp add: writes_def)
  then show d: "dispatch_command env args t client
      = (fst (dispatch_data env t args), client, snd (dispatch_data env t args))"
    by (simp add: dispatch_command_def Let_def case_prod_beta)
  show "handle_command env args t client
      = (fst (dispatch_data env t args), client, snd (dispatch_data env t args))"
    using c ne assms(2-4) d by (simp add: handle_command_def Let_def)
qed

lemma replay_client_ready [simp]:
  "authenticated replay_client" "subscriptions replay_client = []" "\<not> in_multi replay_client"
  "queued replay_client = []" "watched replay_client = []"
  by (simp_all add: replay_client_def new_client_def)

lemma replay_redo:
  assumes "\<And>n. agree env0 (envs n)" "list_all writes cmds" "list_all timeless cmds" "lasting t"
    and "replay_ready t replay_client" "redo env0 cmds t = Some t'"
  shows "replay_commands path envs cmds (n, t, replay_client) = Inr (n + length cmds, t', replay_client)
     \<and> replay_ready t' replay_client"
  using assms(2-6)
proof (induction cmds arbitrary: n t)
  case (Cons args cmds)
  have "writes args" "timeless args" using Cons.prems(1,2) by simp_all
  moreover from Cons.prems(5) obtain t1 where t1: "redo env0 [args] t = Some t1" "redo env0 cmds t1 = Some t'"
    by (auto split: prod.splits sum.splits if_splits)
  ultimately obtain r where r: "dispatch_data (envs n) t args = (t1, Inr r)" "\<not> is_error_reply r" "lasting t1"
      "pending_propagations t1 = pending_propagations t" "pending_block t1 = pending_block t"
    using redo_write [OF assms(1) _ _ Cons.prems(3) t1(1)] by blast
  have ready: "replay_ready t1 replay_client" using r(4,5) Cons.prems(4) by (simp add: replay_ready_def)
  have "replay_step path envs args (n, t, replay_client) = Inr (Suc n, t1, replay_client)"
    using write_command(1) [OF \<open>writes args\<close>, of replay_client "envs n" t] r ready
    by (simp add: replay_step_def take_pending_block_def take_pending_propagations_def replay_ready_def)
  with Cons.IH [of t1 "Suc n"] Cons.prems(1,2) r(3) ready t1(2) show ?case by simp
qed simp

text \<open>The same inside a transaction, where every write is queued again after it ran.\<close>

lemma redo_same:
  "list_all writes cmds \<Longrightarrow> list_all timeless cmds \<Longrightarrow> lasting t \<Longrightarrow> same_data v t \<Longrightarrow>
     redo env cmds t = Some t' \<Longrightarrow> redo env cmds v = Some (graft v t')"
proof (induction cmds arbitrary: t v)
  case (Cons args cmds)
  have wt: "writes args" "timeless args" using Cons.prems(1,2) by simp_all
  then have w: "to_upper (args ! 0) \<in> {c. is_write_command c}" by (simp add: writes_def)
  obtain t1 where t1: "redo env [args] t = Some t1" "redo env cmds t1 = Some t'"
    using Cons.prems(5) by (auto split: prod.splits sum.splits if_splits)
  obtain r where r: "dispatch_data env t args = (t1, Inr r)" "\<not> is_error_reply r" "lasting t1"
    using redo_write [OF agree_refl wt Cons.prems(3) t1(1)] by blast
  have "dispatch_data env v args = (graft v t1, Inr r)"
    using dispatch_l.on_same_data [OF w Cons.prems(3) agree_refl [of env] wt(2) Cons.prems(4)] r(1) by simp
  with Cons.IH [OF _ _ r(3) same_data_grafted t1(2), of v] Cons.prems(1,2) r(2) show ?case by simp
qed (simp add: same_data_graft)

lemma exec_redo:
  assumes "agree env0 env" "list_all writes cmds" "list_all timeless cmds" "lasting u" "pending_block u = None"
    and "redo env0 cmds u = Some u'"
  shows "\<exists>v reply'. exec_commands env cmds u replay_client reply = (v, replay_client, Inr reply')
     \<and> same_data v u' \<and> pending_block v = None"
  using assms(2-6)
proof (induction cmds arbitrary: u u' reply)
  case (Cons args cmds)
  have wt: "writes args" "timeless args" using Cons.prems(1,2) by simp_all
  obtain u1 where u1: "redo env0 [args] u = Some u1" "redo env0 cmds u1 = Some u'"
    using Cons.prems(5) by (auto split: prod.splits sum.splits if_splits)
  obtain r where r: "dispatch_data env u args = (u1, Inr r)" "\<not> is_error_reply r" "lasting u1" "pending_block u1 = None"
    using redo_write [OF assms(1) wt Cons.prems(3) u1(1)] Cons.prems(4) by metis
  let ?v = "queue_propagation args u1"
  have d: "dispatch_command env args u replay_client = (u1, replay_client, Inr r)"
    using write_command(2) [OF wt(1), of replay_client env u] r(1) by simp
  have v: "same_data ?v u1" "pending_block ?v = None" using r(4) by (simp_all add: queue_propagation_def same_data_def)
  have "redo env0 cmds ?v = Some (graft ?v u')"
    using redo_same [OF _ _ r(3) v(1) u1(2)] Cons.prems(1,2) by simp
  from Cons.IH [OF _ _ _ v(2) this, of "reply @ r"] Cons.prems(1,2) r(3) obtain v' reply' where
    "exec_commands env cmds ?v replay_client (reply @ r) = (v', replay_client, Inr reply')" "same_data v' u'" "pending_block v' = None"
    using same_data_trans [OF _ same_data_grafted] by auto
  moreover have "exec_commands env (args # cmds) u replay_client reply = exec_commands env cmds ?v replay_client (reply @ r)"
    using d r(2,4) wt(1) by (simp add: take_pending_block_def Let_def writes_def)
  ultimately show ?case by metis
qed simp

lemma writes_queueable: "list_all writes cmds \<Longrightarrow> list_all queueable cmds"
  using special_not_write by (fastforce simp: list_all_iff queueable_def steering_def writes_def)

lemma replay_transaction_redo:
  assumes "\<And>n. agree env0 (envs n)" "list_all writes cmds" "list_all timeless cmds" "lasting t"
    and "replay_ready t replay_client" "redo env0 cmds t = Some t'"
  shows "\<exists>v n'. replay_commands path envs ([''MULTI''] # cmds @ [[''EXEC'']]) (n, t, replay_client) = Inr (n', v, replay_client)
     \<and> same_data v t' \<and> replay_ready v replay_client"
proof -
  have "pending_block t = None" using assms(5) by (simp add: replay_ready_def)
  from exec_redo [OF assms(1-4) this assms(6)] obtain v reply' where v:
    "exec_commands (envs (n + length cmds + 1)) cmds t replay_client (''*'' @ to_string_nat (length cmds) @ crlf)
       = (v, replay_client, Inr reply')" "same_data v t'" "pending_block v = None" by metis
  let ?v = "v\<lparr>pending_propagations := []\<rparr>"
  have "replay_commands path envs ([''MULTI''] # cmds @ [[''EXEC'']]) (n, t, replay_client)
      = Inr (n + length cmds + 2, ?v, replay_client)"
    using replay_transaction [OF writes_queueable [OF assms(2)] assms(5), of path envs n] v(1) by simp
  moreover have "same_data ?v t'" "replay_ready ?v replay_client" using v(2,3) by (simp_all add: replay_ready_def)
  ultimately show ?thesis by blast
qed

text \<open>What is written to the log for a command that logged \<open>own\<close> and queued \<open>pending\<close>.\<close>

definition log_entries :: "bool \<Rightarrow> args list \<Rightarrow> args list \<Rightarrow> args list" where
  "log_entries was_in_multi own pending =
     own @ (if was_in_multi \<and> pending \<noteq> [] then [''MULTI''] # pending @ [[''EXEC'']] else pending)"

lemma replay_repeats_command:
  assumes "\<And>n. agree env0 (envs n)" "logs_of env0 (own @ pending) s s'" "own = [] \<or> pending = []"
    and "lasting s" "list_all timeless (own @ pending)" "same_data t s" "replay_ready t replay_client"
  shows "lasting s' \<and> (\<exists>v n'. replay_commands path envs (log_entries m own pending) (n, t, replay_client) = Inr (n', v, replay_client)
     \<and> same_data v s' \<and> replay_ready v replay_client)"
proof -
  have l: "lasting s'" "redo env0 (own @ pending) t = Some (graft t s')" and w: "list_all writes (own @ pending)"
    using assms(2,4-6) by (auto simp: logs_of_def repeats_change_def)
  have lt: "lasting t" using assms(4,6) same_data_lasting by blast
  show ?thesis
  proof (cases "m \<and> pending \<noteq> []")
    case True
    with assms(3) have "own = []" by simp
    with replay_transaction_redo [OF assms(1) _ _ lt assms(7), of pending "graft t s'"] w assms(5) l True
    show ?thesis using same_data_trans [OF _ same_data_grafted] by (fastforce simp: log_entries_def)
  next
    case False
    then have "log_entries m own pending = own @ pending" by (auto simp: log_entries_def)
    moreover have "replay_commands path envs (own @ pending) (n, t, replay_client)
        = Inr (n + length (own @ pending), graft t s', replay_client) \<and> replay_ready (graft t s') replay_client"
      using assms(1) w assms(5) lt assms(7) l(2) by (rule replay_redo)
    ultimately show ?thesis using l(1) same_data_grafted by metis
  qed
qed

end
