(* ===== verification/Server_Recovery.thy ===== *)
theory Server_Recovery
  imports Server_Records Recovery
begin

text \<open>
  Recovery of a whole server: at every turn of the loop the log file holds, in order, exactly
  what is needed to rebuild the key space, so starting the server again on the disk it left
  gives back the data it had.
\<close>

section \<open>The encoding determines the commands\<close>

lemma number_line_inj:
  assumes "to_string_nat n @ crlf @ x = to_string_nat m @ crlf @ y"
  shows "n = m \<and> x = y"
proof -
  have "takeWhile is_digit (to_string_nat k @ crlf @ z) = to_string_nat k" for k z
    using to_string_nat_digits [of k] by (simp add: crlf_def is_digit_def takeWhile_append list_all_iff)
  then have same: "to_string_nat n = to_string_nat m" using assms by metis
  then have "n = m" using digits_val_to_string_nat by metis
  with assms same show ?thesis by simp
qed

lemma bulk_inj: "bulk_bytes a @ x = bulk_bytes b @ y \<Longrightarrow> a = b \<and> x = y"
proof -
  assume "bulk_bytes a @ x = bulk_bytes b @ y"
  then have "to_string_nat (length a) @ crlf @ a @ crlf @ x = to_string_nat (length b) @ crlf @ b @ crlf @ y"
    by (simp add: bulk_bytes_def)
  from number_line_inj [OF this] show ?thesis by auto
qed

lemma bulks_inj:
  "length as = length bs \<Longrightarrow> concat (map bulk_bytes as) @ x = concat (map bulk_bytes bs) @ y \<Longrightarrow> as = bs \<and> x = y"
proof (induction as bs rule: list_induct2)
  case (Cons a as b bs)
  then show ?case using bulk_inj [of a "concat (map bulk_bytes as) @ x" b "concat (map bulk_bytes bs) @ y"] by simp
qed simp

lemma enc_inj: "enc a @ x = enc b @ y \<Longrightarrow> a = b \<and> x = y"
proof -
  assume "enc a @ x = enc b @ y"
  then have "to_string_nat (length a) @ crlf @ concat (map bulk_bytes a) @ x
      = to_string_nat (length b) @ crlf @ concat (map bulk_bytes b) @ y"
    by (simp add: enc_def to_bytes.simps)
  from number_line_inj [OF this] bulks_inj [of a b x y] show ?thesis by simp
qed

lemma enc_nonempty [simp]: "enc a \<noteq> []" "[] \<noteq> enc a"
  by (simp_all add: enc_def to_bytes.simps)

lemma enc_all_inj: "enc_all L = enc_all M \<Longrightarrow> L = M"
proof (induction L arbitrary: M)
  case Nil
  then show ?case by (cases M) auto
next
  case (Cons a L)
  then obtain b M' where M: "M = b # M'" by (cases M) auto
  with Cons.prems enc_inj [of a "enc_all L" b "enc_all M'"] have "a = b" "enc_all L = enc_all M'" by simp_all
  with Cons.IH M show ?case by simp
qed

section \<open>Queued commands are never empty\<close>

definition queued_ok :: "server \<Rightarrow> bool" where
  "queued_ok sv \<longleftrightarrow> (\<forall>c. [] \<notin> set (queued (client_at sv c)))"

lemma dispatch_command_queued: "dispatch_command env args s client = (s', client', r) \<Longrightarrow> queued client' = queued client"
  by (erule dispatch_command_cases) auto

lemma exec_commands_queued: "exec_commands env cmds s client reply = (s', client', r) \<Longrightarrow> queued client' = queued client"
proof (induction cmds arbitrary: s client reply)
  case (Cons args cmds)
  obtain s1 c1 r1 where d: "dispatch_command env args s client = (s1, c1, r1)" by (metis prod_cases3)
  with Cons dispatch_command_queued [OF d] show ?case
    by (cases r1) (auto simp: take_pending_block_def Let_def)
qed simp

lemma handle_command_queued:
  "handle_command env args s client = (s', client', r) \<Longrightarrow> [] \<notin> set (queued client) \<Longrightarrow> [] \<notin> set (queued client')"
proof (erule handle_command_cases)
  assume "handle_exec env s client = (s', client', r)" "[] \<notin> set (queued client)"
  then show "[] \<notin> set (queued client')"
    using exec_commands_queued [of env "queued client" _ "reset_transaction client" _ s' client' r]
    by (auto simp: handle_exec_def reset_transaction_def split: if_splits prod.splits bool.splits)
qed (auto dest: dispatch_command_queued)

lemma queued_frame:
  "clients sv' = clients sv \<Longrightarrow> queued_ok sv \<Longrightarrow> queued_ok sv'"
  by (simp add: queued_ok_def client_at_def)

lemma queued_put: "queued_ok sv \<Longrightarrow> [] \<notin> set (queued client) \<Longrightarrow> queued_ok (put_client c client sv)"
  by (simp add: queued_ok_def client_at_def put_client_def)

lemma queued_run:
  assumes "queued_ok sv"
  shows "queued_ok (fst (run_command w c args sv))"
proof -
  obtain s client r where h: "handle_command (world_env w (n_commands sv)) args (db sv) (client_at sv c) = (s, client, r)"
    by (metis prod_cases3)
  have "queued_ok (sv\<lparr>db := s, n_commands := Suc (n_commands sv)\<rparr>)" by (rule queued_frame [OF _ assms]) simp
  moreover have "[] \<notin> set (queued client)" using handle_command_queued [OF h] assms by (simp add: queued_ok_def)
  ultimately show ?thesis by (simp add: run_command_def h queued_put)
qed

lemma queued_close: "queued_ok sv \<Longrightarrow> queued_ok (close_client i x sv)"
  by (simp add: queued_ok_def client_at_def close_client_def new_client_def split: option.split)

lemma queued_send: "queued_ok sv \<Longrightarrow> queued_ok (snd (send_to w lane x payload sv))"
  by (rule queued_frame) (auto simp: send_to_def case_prod_beta)

lemma queued_at: "queued_ok sv \<Longrightarrow> [] \<notin> set (queued (client_at sv c))"
  by (simp add: queued_ok_def)

interpretation queued_serving: serving queued_ok c w for c w
  by unfold_locales
    (auto intro: queued_frame queued_send queued_close queued_run queued_put simp: note_offset_def queued_at)

interpretation queued_loop: looping queued_ok w for w
  by unfold_locales
    (auto intro: queued_frame queued_put simp: put_buffer_def add_client_def publish_offset_def queued_at
      intro!: queued_put [OF queued_frame])

section \<open>The log rebuilds the key space\<close>

definition replayed :: "string \<Rightarrow> (nat \<Rightarrow> env) \<Rightarrow> store \<Rightarrow> args list \<Rightarrow> store \<Rightarrow> bool" where
  "replayed path envs s0 L s \<longleftrightarrow> list_all timeless L \<longrightarrow> lasting s \<and>
     (\<exists>n t. replay_commands path envs L (0, s0, replay_client) = Inr (n, t, replay_client)
        \<and> same_data t s \<and> replay_ready t replay_client)"

lemma replayed_same: "same_data s' s \<Longrightarrow> replayed path envs s0 L s \<Longrightarrow> replayed path envs s0 L s'"
proof -
  assume same: "same_data s' s"
  then have "same_data t s' = same_data t s" for t using same_data_trans same_data_sym by blast
  then show "replayed path envs s0 L s \<Longrightarrow> replayed path envs s0 L s'"
    using same_data_lasting [OF same] by (simp add: replayed_def)
qed

lemma log_entries_timeless: "list_all timeless (log_entries m own pending) \<Longrightarrow> list_all timeless (own @ pending)"
  by (auto simp: log_entries_def split: if_splits)

lemma replayed_step:
  assumes "\<And>n. agree env0 (envs n)" "replayed path envs s0 L s"
    and "logs_of env0 (own @ pending) s s'" "own = [] \<or> pending = []"
  shows "replayed path envs s0 (L @ log_entries m own pending) s'"
  unfolding replayed_def
proof
  assume timeless: "list_all timeless (L @ log_entries m own pending)"
  then have l: "list_all timeless L" "list_all timeless (own @ pending)"
    using log_entries_timeless [of m own pending] by simp_all
  with assms(2) obtain n t where t: "lasting s"
      "replay_commands path envs L (0, s0, replay_client) = Inr (n, t, replay_client)"
      "same_data t s" "replay_ready t replay_client"
    by (auto simp: replayed_def)
  obtain v n' where v: "lasting s'" "same_data v s'" "replay_ready v replay_client"
      "replay_commands path envs (log_entries m own pending) (n, t, replay_client) = Inr (n', v, replay_client)"
    using replay_repeats_command [where envs = envs and path = path and m = m and n = n, OF assms(1,3,4) t(1) l(2) t(3,4)] by blast
  then have "replay_commands path envs (L @ log_entries m own pending) (0, s0, replay_client) = Inr (n', v, replay_client)"
    using t(2) by (simp add: replay_commands_append)
  with v(1-3) show "lasting s' \<and>
     (\<exists>n t. replay_commands path envs (L @ log_entries m own pending) (0, s0, replay_client) = Inr (n, t, replay_client)
        \<and> same_data t s' \<and> replay_ready t replay_client)" by blast
qed

text \<open>
  The invariant of the running server: nothing is pending between commands, the log file
  holds the encodings of a list of commands that rebuild the key space, and no other file
  has changed.
\<close>

definition rests :: "server \<Rightarrow> bool" where
  "rests sv \<longleftrightarrow> queued_ok sv \<and> hmap_ok (replicas sv) \<and> pending_block (db sv) = None \<and> pending_propagations (db sv) = []"

definition logged_to :: "string \<Rightarrow> disk \<Rightarrow> args list \<Rightarrow> server \<Rightarrow> bool" where
  "logged_to path d L sv \<longleftrightarrow> aof_fd (aof sv) = Some path \<and> hcontains (disk_of sv) path
     \<and> contents (disk_of sv) path = enc_all L \<and> (\<forall>p. p \<noteq> path \<longrightarrow> hget (disk_of sv) p = hget d p)"

definition durable :: "string \<Rightarrow> (nat \<Rightarrow> env) \<Rightarrow> store \<Rightarrow> disk \<Rightarrow> server \<Rightarrow> bool" where
  "durable path envs s0 d sv \<longleftrightarrow> rests sv \<and> (\<exists>L. logged_to path d L sv \<and> replayed path envs s0 L (db sv))"

lemma logged_to_grew: "logged_to path d L sv \<Longrightarrow> log_grew (enc_all M) sv sv' \<Longrightarrow> logged_to path d (L @ M) sv'"
  by (auto simp: logged_to_def log_grew_def)

lemma enc_log_entries:
  "enc_all own @ pending_bytes m pending = enc_all (log_entries m own pending)"
  unfolding log_entries_def pending_bytes_def transaction_bytes_def enc_all_def enc_def [symmetric] by simp

text \<open>One command: the key space changed as the log entries say, and the log grew by them.\<close>

lemma durable_step:
  assumes "durable path envs s0 d sv" "\<And>n. agree env0 (envs n)" "rests sv'"
    and "logs_of env0 (own @ pending) (db sv) (db sv')" "own = [] \<or> pending = []"
    and "log_grew (enc_all own @ pending_bytes m pending) sv sv'"
  shows "durable path envs s0 d sv'"
proof -
  obtain L where L: "logged_to path d L sv" "replayed path envs s0 L (db sv)" using assms(1) by (auto simp: durable_def)
  have "logged_to path d (L @ log_entries m own pending) sv'"
    using logged_to_grew [OF L(1)] assms(6) by (simp add: enc_log_entries)
  moreover have "replayed path envs s0 (L @ log_entries m own pending) (db sv')"
    using assms(2) L(2) assms(4,5) by (rule replayed_step)
  ultimately show ?thesis using assms(3) unfolding durable_def by blast
qed

lemma durable_frame:
  assumes "durable path envs s0 d sv" "rests sv'" "same_data (db sv') (db sv)" "log_grew [] sv sv'"
  shows "durable path envs s0 d sv'"
proof -
  obtain L where "logged_to path d L sv" "replayed path envs s0 L (db sv)" using assms(1) by (auto simp: durable_def)
  then have "logged_to path d L sv'" "replayed path envs s0 L (db sv')"
    using logged_to_grew [of path d L sv "[]" sv'] assms(4) replayed_same [OF assms(3)] by simp_all
  with assms(2) show ?thesis unfolding durable_def by blast
qed

section \<open>Frames of the key space\<close>

definition holds :: "store \<Rightarrow> server \<Rightarrow> bool" where
  "holds s sv \<longleftrightarrow> same_data (db sv) s"

lemma holds_frame: "holds s sv \<Longrightarrow> db sv' = db sv \<Longrightarrow> holds s sv'"
  by (simp add: holds_def)

lemma same_data_left [simp]:
  "same_data (t\<lparr>pending_messages := c\<rparr>) s = same_data t s" "same_data (t\<lparr>master_repl_offset := n\<rparr>) s = same_data t s"
  by (simp_all add: same_data_def)

interpretation holds_answers: answering "holds s" c w for s c w
  by unfold_locales
    (auto simp: holds_def bump_repl_offset_def note_offset_def put_client_def close_client_def remove_subscriber_def)

definition settled :: "server \<Rightarrow> bool" where
  "settled sv \<longleftrightarrow> pending_block (db sv) = None \<and> pending_propagations (db sv) = []"

interpretation settled_answers: answering settled c w for c w
  by unfold_locales
    (auto simp: settled_def bump_repl_offset_def note_offset_def put_client_def close_client_def remove_subscriber_def)

section \<open>Every operation of the loop keeps the invariant\<close>

definition same_library :: "env \<Rightarrow> (nat \<Rightarrow> env) \<Rightarrow> bool" where
  "same_library env0 envs \<longleftrightarrow> (\<forall>n. agree env0 (envs n))"

lemma record_pending_settles:
  assumes "record_pending w c m sv = Inr sv'"
  shows "pending_propagations (db sv') = []"
proof -
  obtain sv1 cmds where
    "log_pending w m cmds (sv\<lparr>db := (db sv)\<lparr>pending_propagations := []\<rparr>\<rparr>) = Inr sv1" "sv' = propagate_each w c cmds sv1"
    using assms by (auto simp: record_pending_def take_pending_propagations_def then_do_Inr)
  moreover from this(1) have "pending_propagations (db sv1) = []" by (rule keeps_queue.log_pending [rotated]) simp
  ultimately show ?thesis by (simp add: keeps_queue.propagate_each)
qed

lemma internal_error_reply [simp]: "is_error_reply internal_error"
  by (simp add: internal_error_def)

lemma own_log_encoded:
  "(if is_logged args m (case r of Inl _ \<Rightarrow> internal_error | Inr x \<Rightarrow> x) then enc args else [])
     = enc_all (if m then [] else own_log args r)"
  by (auto simp: is_logged_def own_log_def writes_def split: sum.split)

text \<open>
  One command of a client: it changes the key space as the commands it records say, and both
  the log and the stream of every replica that is registered afterwards grew by them.
\<close>

lemma client_command_logs:
  assumes "rests sv" "same_library env0 (world_env w)" "client_command w i c args sv = Inr (sv', go)" "\<not> is_ack c args sv"
  shows "\<exists>own pending m ack. (own = [] \<or> pending = []) \<and> logs_of env0 (own @ pending) (db sv) (db sv') \<and> rests sv'
     \<and> log_grew (enc_all own @ pending_bytes m pending) sv sv' \<and> ack \<in> {[], getack}
     \<and> (\<forall>r. hcontains (replicas sv') r \<longrightarrow> stream_to r sv' = stream_to r sv @ enc_all (own @ pending) @ ack)"
proof -
  let ?m = "in_multi (client_at sv c)" and ?env = "world_env w (n_commands sv)"
  have I: "queued_ok sv" "hmap_ok (replicas sv)" "pending_block (db sv) = None" "pending_propagations (db sv) = []"
    using assms(1) by (simp_all add: rests_def)
  obtain s client r where h: "handle_command ?env args (db sv) (client_at sv c) = (s, client, r)" by (metis prod_cases3)
  let ?response = "case r of Inl _ \<Rightarrow> internal_error | Inr x \<Rightarrow> x" and ?own = "if ?m then [] else own_log args r"
  obtain sv1 where run: "run_command w c args sv = (sv1, ?response)" "db sv1 = s"
    by (simp add: run_command_def h put_client_def)
  have logs: "?own = [] \<or> pending_propagations s = []" "logs_of env0 (?own @ pending_propagations s) (db sv) s"
    using handle_command_logged [OF _ queued_at [OF I(1)] I(3,4) h, of env0] assms(2) by (simp_all add: same_library_def)
  let ?base = "register_replica c args ?m ?response sv1"
  note b = register_replica_frame [OF run(1) I(2), where m = ?m]
  obtain ack where ack: "ack \<in> {[], getack}" "recorded (enc_all ?own @ pending_bytes ?m (pending_propagations s))
      (enc_all ?own @ enc_all (pending_propagations s) @ ack) ?base sv'"
    using client_command_recorded [OF assms(3,4) I(2) run(1)] unfolding own_log_encoded run(2) by blast
  then have rec: "log_grew (enc_all ?own @ pending_bytes ?m (pending_propagations s)) sv sv'" "hmap_ok (replicas sv')"
    using log_grew_trans [OF log_grew_same [OF b(1,2)]] b(5) by (simp_all add: recorded_def)
  have stream: "\<forall>r. hcontains (replicas sv') r \<longrightarrow>
      stream_to r sv' = stream_to r sv @ enc_all (?own @ pending_propagations s) @ ack"
    using ack(2) b(4) by (simp add: recorded_def streamed_def)
  obtain sv2 sv3 where 3: "record_write w c args ?m ?response ?base = Inr sv2"
      "record_pending w c ?m sv2 = Inr sv3" "sv' = fst (answer_command w ?env i c ?response sv3)"
    using assms(3,4) run(1) by (auto simp: client_command_def Let_def then_do_Inr)
  have "holds s ?base" using b(3) run(2) by (simp add: holds_def)
  then have data: "same_data (db sv') s"
    using holds_answers.answer_command [OF holds_answers.record_pending [OF holds_answers.record_write [OF _ 3(1)] 3(2)]] 3(3)
    by (simp add: holds_def)
  have "settled (sv3\<lparr>db := (db sv3)\<lparr>pending_block := None\<rparr>\<rparr>)"
    using record_pending_settles [OF 3(2)] by (simp add: settled_def)
  then have "settled sv'" unfolding 3(3) by (rule settled_answers.answer_taken)
  then have "rests sv'"
    using rec(2) queued_serving.client_command [OF I(1) assms(3)] by (simp add: rests_def settled_def)
  moreover have "logs_of env0 (?own @ pending_propagations s) (db sv) (db sv')"
    using logs(2) repeats_frame [OF same_data_refl data] by (simp add: logs_of_def)
  ultimately show ?thesis using logs(1) rec(1) ack(1) stream by blast
qed

lemma ack_frame:
  assumes "rests sv" "client_command w i c args sv = Inr (sv', go)" "is_ack c args sv"
  shows "rests sv'" "db sv' = db sv" "log_grew [] sv sv'" "stream_to r sv' = stream_to r sv"
proof -
  have sv': "sv' = note_ack c (args ! 2) sv" using assms(2,3) by (simp add: client_command_def)
  have "queued_ok sv'" using assms(1,2) queued_serving.client_command by (auto simp: rests_def)
  then show "rests sv'" using assms(1) by (auto simp: sv' note_ack_def rests_def split: option.splits sum.splits)
  show "db sv' = db sv" "log_grew [] sv sv'" "stream_to r sv' = stream_to r sv"
    by (auto simp: sv' note_ack_def stream_to_def intro: log_grew_same split: option.splits sum.splits)
qed

lemma client_command_durable:
  assumes "durable path envs s0 d sv" "same_library env0 envs" "same_library env0 (world_env w)"
    and "client_command w i c args sv = Inr (sv', go)"
  shows "durable path envs s0 d sv'"
proof (cases "is_ack c args sv")
  case True
  have "rests sv" using assms(1) by (simp add: durable_def)
  note f = ack_frame [OF this assms(4) True]
  then show ?thesis using durable_frame [OF assms(1) f(1) _ f(3)] by simp
next
  case False
  have "rests sv" using assms(1) by (simp add: durable_def)
  from client_command_logs [OF this assms(3,4) False] obtain own pending m where
    "own = [] \<or> pending = []" "logs_of env0 (own @ pending) (db sv) (db sv')" "rests sv'"
    "log_grew (enc_all own @ pending_bytes m pending) sv sv'" by blast
  then show ?thesis
    using durable_step [OF assms(1), of env0 sv' own pending m] assms(2) by (simp add: same_library_def)
qed

lemma log_each_db: "log_each w cmds sv = Inr sv' \<Longrightarrow> db sv' = db sv"
proof (induction cmds arbitrary: sv)
  case (Cons args cmds)
  then obtain sv1 where "log_command w args sv = Inr sv1" "log_each w cmds sv1 = Inr sv'" by (auto simp: then_do_Inr)
  with Cons.IH log_call_frame [of _ w sv sv1] show ?case by (simp add: log_command_def)
qed simp

lemma log_pending_db: "log_pending w m cmds sv = Inr sv' \<Longrightarrow> db sv' = db sv"
  using log_each_db [of w cmds sv sv'] log_call_frame [of _ w sv sv']
  by (auto simp: log_pending_def log_transaction_def split: if_splits)

lemma log_pending_recorded:
  "log_pending w m cmds sv = Inr sv' \<Longrightarrow> recorded (pending_bytes m cmds) [] sv sv'"
  using log_transaction_recorded [of w cmds sv sv'] log_each_recorded [of w cmds sv sv']
  by (auto simp: log_pending_def pending_bytes_def split: if_splits)

lemma log_write_recorded:
  "log_write w args m response sv = Inr sv' \<Longrightarrow>
     recorded (if is_logged args m response then enc args else []) [] sv sv'"
  using log_command_recorded [of w args sv sv'] by (auto simp: log_write_def recorded_same split: if_splits)

lemma master_command_durable:
  assumes "durable path envs s0 d sv" "same_library env0 envs" "same_library env0 (world_env w)"
    and "master_command w c args consumed sv = Inr sv'"
  shows "durable path envs s0 d sv'"
proof (cases "is_getack args")
  case True
  let ?sv = "snd (send_to w Answer c (to_bytes (Array [''REPLCONF'', ''ACK'', to_string_int (replica_offset sv)])) sv)"
  have sv': "sv' = advance_offset consumed ?sv" using assms(4) True by (simp add: master_command_def)
  have "queued_ok sv'" using assms(1,4) queued_serving.master_command by (auto simp: durable_def rests_def)
  then have "rests sv'" "same_data (db sv') (db sv)" "log_grew [] sv sv'"
    using assms(1) by (auto simp: sv' advance_offset_def durable_def rests_def send_to_def case_prod_beta intro: log_grew_same)
  then show ?thesis using durable_frame [OF assms(1)] by blast
next
  case False
  let ?m = "in_multi (client_at sv c)" and ?env = "world_env w (n_commands sv)" and ?sv = "advance_offset consumed sv"
  have I: "queued_ok sv" "hmap_ok (replicas sv)" "pending_block (db sv) = None" "pending_propagations (db sv) = []"
    using assms(1) by (simp_all add: durable_def rests_def)
  have same: "db ?sv = db sv" "client_at ?sv c = client_at sv c" "n_commands ?sv = n_commands sv"
    by (simp_all add: advance_offset_def client_at_def)
  obtain s client r where h: "handle_command ?env args (db sv) (client_at sv c) = (s, client, r)" by (metis prod_cases3)
  let ?response = "case r of Inl _ \<Rightarrow> internal_error | Inr x \<Rightarrow> x" and ?own = "if ?m then [] else own_log args r"
  obtain sv1 where run: "run_command w c args ?sv = (sv1, ?response)" "db sv1 = s" "log_grew [] sv sv1" "replicas sv1 = replicas sv"
    by (simp add: run_command_def h same put_client_def) (simp add: advance_offset_def log_grew_same)
  have logs: "?own = [] \<or> pending_propagations s = []" "logs_of env0 (?own @ pending_propagations s) (db sv) s"
    using handle_command_logged [OF _ queued_at [OF I(1)] I(3,4) h, of env0] assms(3) by (simp_all add: same_library_def)
  obtain sv2 sv3 where 3: "log_write w args ?m ?response sv1 = Inr sv2"
      "log_pending w ?m (pending_propagations (db sv2)) (sv2\<lparr>db := (db sv2)\<lparr>pending_propagations := []\<rparr>\<rparr>) = Inr sv3"
      "sv' = sv3\<lparr>db := (db sv3)\<lparr>pending_block := None\<rparr>\<rparr>"
    using assms(4) False run(1)
    by (auto simp: master_command_def Let_def then_do_Inr take_pending_propagations_def take_pending_block_def)
  let ?sv2 = "sv2\<lparr>db := (db sv2)\<lparr>pending_propagations := []\<rparr>\<rparr>"
  have db2: "db sv2 = s"
    using 3(1) run(2) log_call_frame by (auto simp: log_write_def log_command_def split: if_splits)
  have "db sv3 = s\<lparr>pending_propagations := []\<rparr>" using log_pending_db [OF 3(2)] db2 by simp
  then have db': "db sv' = s\<lparr>pending_propagations := [], pending_block := None\<rparr>" using 3(3) by simp
  have r1: "recorded (enc_all ?own) [] sv1 sv2" using log_write_recorded [OF 3(1)] by (simp only: own_log_encoded)
  have r2: "recorded [] [] sv2 ?sv2" by (rule recorded_same) simp_all
  have r3: "recorded (pending_bytes ?m (pending_propagations s)) [] ?sv2 sv3"
    using log_pending_recorded [OF 3(2)] db2 by simp
  have r4: "recorded [] [] sv3 sv'" unfolding 3(3) by (rule recorded_same) simp_all
  have "recorded (enc_all ?own @ pending_bytes ?m (pending_propagations s)) [] sv1 sv'"
    using recorded_trans [OF recorded_trans [OF recorded_trans [OF r1 r2] r3] r4] by simp
  then have rec: "log_grew (enc_all ?own @ pending_bytes ?m (pending_propagations s)) sv sv'" "hmap_ok (replicas sv')"
    using log_grew_trans [OF run(3)] I(2) run(4) by (auto simp: recorded_def)
  have "rests sv'"
    using rec(2) queued_serving.master_command [OF I(1) assms(4)] db' by (simp add: rests_def)
  moreover have "logs_of env0 (?own @ pending_propagations s) (db sv) (db sv')"
    using logs(2) repeats_frame [of "db sv" "db sv" "db sv'" s] db' by (simp add: logs_of_def)
  ultimately show ?thesis
    using durable_step [OF assms(1), of env0 sv' ?own "pending_propagations s" ?m] assms(2) logs(1) rec(1)
    by (simp add: same_library_def)
qed

lemma record_each_settled:
  "settled sv \<Longrightarrow> record_each w c cmds sv = Inr sv' \<Longrightarrow> settled sv'"
  by (rule settled_answers.record_each)

lemma retry_waiter_logs:
  assumes "rests sv" "retry_waiter w waiter sv = Inr (sv', reply)"
  shows "\<exists>pending. logs_of env0 pending (db sv) (db sv') \<and> rests sv' \<and> recorded (enc_all pending) (enc_all pending) sv sv'"
proof -
  have I: "queued_ok sv" "hmap_ok (replicas sv)" "settled sv" "pending_propagations (db sv) = []"
    using assms(1) by (simp_all add: rests_def settled_def)
  have idle: ?thesis if "sv' = sv"
    using that assms(1) by (intro exI [of _ "[]"]) (simp add: logs_of_def repeats_nothing recorded_same)
  show ?thesis
  proof (cases "w_kind waiter = BlockList")
    case False
    then show ?thesis
      using assms(2) by (intro idle, cases "w_kind waiter") (auto simp: retry_waiter_def Let_def split: sum.splits)
  next
    case True
    consider "try_blpop (w_keys waiter) (db sv) = (db sv, None)"
      | k v rest where "list_at (db sv) k = v # rest"
        "try_blpop (w_keys waiter) (db sv) = (queue_propagation [''LPOP'', k] (put_list k rest (db sv)), Some (k, v))"
      using try_blpop_cases by blast
    then show ?thesis
    proof cases
      case 1
      with True assms(2) show ?thesis by (intro idle) (simp add: retry_waiter_def)
    next
      case (2 k v rest)
      let ?s = "put_list k rest (db sv)" and ?pop = "[''LPOP'', k]"
      have take: "take_pending_propagations (queue_propagation ?pop ?s) = ([?pop], ?s)"
        using I(4) by (simp add: take_pending_propagations_def queue_propagation_def)
      have r: "record_each w (w_fd waiter) [?pop] (sv\<lparr>db := ?s\<rparr>) = Inr sv'"
        using assms(2) True 2(2) take by (auto simp: retry_waiter_def then_do_Inr simp del: record_each.simps)
      have "recorded [] [] sv (sv\<lparr>db := ?s\<rparr>)" by (rule recorded_same) (simp_all add: put_list_def)
      with record_each_recorded [OF _ r] I(2) have rec: "recorded (enc_all [?pop]) (enc_all [?pop]) sv sv'"
        using recorded_nothing by simp
      have "settled (sv\<lparr>db := ?s\<rparr>)" using I(3) by (simp add: settled_def)
      then have "settled sv'" using r by (rule record_each_settled)
      then have "rests sv'"
        using rec I(2) queued_loop.retry_waiter [OF I(1) assms(2)] by (simp add: rests_def settled_def recorded_def)
      moreover have data: "same_data (db sv') ?s"
        using holds_answers.record_each [of ?s "sv\<lparr>db := ?s\<rparr>", OF _ r] by (simp add: holds_def)
      have "redo env0 [?pop] t = Some (graft t (db sv'))" if "lasting (db sv)" "same_data t (db sv)" for t
        using lpop_repeats [OF that(1) 2(1) that(2), of env0] data not_error_replies(2) [of v]
        by (simp add: graft_def same_data_def)
      then have "logs_of env0 [?pop] (db sv) (db sv')"
        using same_data_lasting [OF data] lpop_write by (simp add: logs_of_def repeats_change_def writes_def)
      ultimately show ?thesis using rec by blast
    qed
  qed
qed

lemma retry_waiter_durable:
  assumes "durable path envs s0 d sv" "same_library env0 envs" "retry_waiter w waiter sv = Inr (sv', reply)"
  shows "durable path envs s0 d sv'"
proof -
  have "rests sv" using assms(1) by (simp add: durable_def)
  from retry_waiter_logs [OF this assms(3), of env0] obtain pending where
    "logs_of env0 ([] @ pending) (db sv) (db sv')" "rests sv'" "log_grew (enc_all [] @ pending_bytes False pending) sv sv'"
    by (auto simp: recorded_def pending_bytes_def)
  then show ?thesis
    using durable_step [OF assms(1), of env0 sv' "[]" pending False] assms(2) by (simp add: same_library_def)
qed

lemma durable_same:
  "durable path envs s0 d sv \<Longrightarrow> same_data (db sv') (db sv) \<Longrightarrow> settled sv' \<Longrightarrow> queued_ok sv' \<Longrightarrow>
     hmap_ok (replicas sv') \<Longrightarrow> disk_of sv' = disk_of sv \<Longrightarrow> aof sv' = aof sv \<Longrightarrow> durable path envs s0 d sv'"
  by (erule durable_frame) (auto simp: rests_def settled_def intro: log_grew_same)

lemma log_sync_durable:
  assumes "durable path envs s0 d sv" "log_sync w sv = Inr sv'"
  shows "durable path envs s0 d sv'"
proof -
  have "recorded [] [] sv sv'"
    using assms(2) unfolding log_sync_def
    by (rule log_call_grew)
      (auto dest!: sync_if_due_cases)
  moreover have "db sv' = db sv" using assms(2) log_call_frame unfolding log_sync_def by blast
  moreover have "queued_ok sv'" using queued_loop.log_sync assms by (auto simp: durable_def rests_def)
  ultimately show ?thesis
    using durable_frame [OF assms(1), of sv'] assms(1) by (simp add: recorded_def durable_def rests_def)
qed

text \<open>The whole loop keeps the log in step with the key space.\<close>

definition keeping :: "env \<Rightarrow> world \<Rightarrow> string \<Rightarrow> (nat \<Rightarrow> env) \<Rightarrow> store \<Rightarrow> disk \<Rightarrow> server \<Rightarrow> bool" where
  "keeping env0 w path envs s0 d sv \<longleftrightarrow>
     same_library env0 envs \<and> same_library env0 (world_env w) \<and> durable path envs s0 d sv"

lemma keeping_same:
  "keeping env0 w path envs s0 d sv \<Longrightarrow> same_data (db sv') (db sv) \<Longrightarrow> pending_block (db sv') = pending_block (db sv) \<Longrightarrow>
     pending_propagations (db sv') = pending_propagations (db sv) \<Longrightarrow> (queued_ok sv \<Longrightarrow> queued_ok sv') \<Longrightarrow>
     (hmap_ok (replicas sv) \<Longrightarrow> hmap_ok (replicas sv')) \<Longrightarrow> disk_of sv' = disk_of sv \<Longrightarrow> aof sv' = aof sv \<Longrightarrow>
     keeping env0 w path envs s0 d sv'"
  using durable_same [of path envs s0 d sv sv'] by (auto simp: keeping_def durable_def rests_def settled_def)

interpretation recovery_loop: driving "keeping env0 w path envs s0 d" w for env0 w path envs s0 d
proof unfold_locales
  fix sv sv' i c args go consumed waiter reply lane x payload ws b n fs
  assume I: "keeping env0 w path envs s0 d sv"
  show "client_command w i c args sv = Inr (sv', go) \<Longrightarrow> keeping env0 w path envs s0 d sv'"
    using I client_command_durable [of path envs s0 d sv env0 w i c args sv' go] by (simp add: keeping_def)
  show "master_command w c args consumed sv = Inr sv' \<Longrightarrow> keeping env0 w path envs s0 d sv'"
    using I master_command_durable [of path envs s0 d sv env0 w c args consumed sv'] by (simp add: keeping_def)
  show "retry_waiter w waiter sv = Inr (sv', reply) \<Longrightarrow> keeping env0 w path envs s0 d sv'"
    using I retry_waiter_durable [of path envs s0 d sv env0 w waiter sv' reply] by (simp add: keeping_def)
  show "log_sync w sv = Inr sv' \<Longrightarrow> keeping env0 w path envs s0 d sv'"
    using I log_sync_durable [of path envs s0 d sv w sv'] by (simp add: keeping_def)
  show "keeping env0 w path envs s0 d (snd (send_to w lane x payload sv))"
    using I by (rule keeping_same) (simp_all add: queued_send, simp_all add: send_to_def case_prod_beta)
  show "keeping env0 w path envs s0 d (close_client i x sv)"
    using I by (rule keeping_same) (simp_all add: queued_close, simp_all add: close_client_def remove_subscriber_def)
  show "keeping env0 w path envs s0 d (sv\<lparr>waiters := ws\<rparr>)" "keeping env0 w path envs s0 d (sv\<lparr>master_fd := n\<rparr>)"
    "keeping env0 w path envs s0 d (sv\<lparr>fds := fs\<rparr>)"
    using I by (rule keeping_same; simp add: queued_ok_def client_at_def)+
  show "keeping env0 w path envs s0 d (put_buffer c b sv)"
    using I by (rule keeping_same) (simp_all add: queued_loop.buffers, simp_all add: put_buffer_def)
  show "keeping env0 w path envs s0 d (add_client c sv)"
    using I by (rule keeping_same) (simp_all add: queued_loop.admits, simp_all add: add_client_def put_client_def)
  show "keeping env0 w path envs s0 d (publish_offset sv)"
    using I by (rule keeping_same) (simp_all add: queued_loop.offsets, simp_all add: publish_offset_def set_repl_offset_def)
qed

inductive turns :: "world \<Rightarrow> server \<Rightarrow> server \<Rightarrow> bool" for w sv0 where
  here: "turns w sv0 sv0"
| interrupted_turn: "turns w sv0 sv \<Longrightarrow> log_sync w sv = Inr sv' \<Longrightarrow> turns w sv0 sv'"
| polled_turn: "turns w sv0 sv \<Longrightarrow> poll_turn w now evs sv = Inr sv' \<Longrightarrow> turns w sv0 sv'"

lemma turns_keeping:
  "turns w sv0 sv \<Longrightarrow> keeping env0 w path envs s0 d sv0 \<Longrightarrow> keeping env0 w path envs s0 d sv"
  by (induction rule: turns.induct) (auto intro: recovery_loop.syncs recovery_loop.poll_turn)

section \<open>Starting and restarting\<close>

definition log_directory :: "Config \<Rightarrow> string" where
  "log_directory c = path_join (cfg_dir c) (cfg_appenddirname c)"

definition manifest_path :: "Config \<Rightarrow> string" where
  "manifest_path c = path_join (log_directory c) (cfg_appendfilename c @ ''.manifest'')"

text \<open>What a successful opening found on the disk, and what opening again will find.\<close>

definition opens_as :: "Config \<Rightarrow> disk \<Rightarrow> string list \<Rightarrow> bool" where
  "opens_as c d files \<longleftrightarrow> cfg_appendonly c = ''yes'' \<and> List.member [''always'', ''everysec'', ''no''] (cfg_appendfsync c)
     \<and> (\<exists>manifest names. hget d (manifest_path c) = Some manifest \<and> read_manifest (manifest_path c) (Some manifest) = Inr names
          \<and> files = map (path_join (log_directory c)) names)
     \<and> (\<forall>p \<in> set files. hcontains d p)"

lemma aof_open_opens:
  assumes "aof_open calls c d new_Aof = (d', Inr a)" "aof_files a \<noteq> []"
  shows "opens_as c d' (aof_files a) \<and> aof_fd a = Some (last (aof_files a))"
proof -
  have yes: "cfg_appendonly c = ''yes''" using assms by (auto simp: aof_open_def new_Aof_def split: if_splits)
  obtain d1 where d1: "create_manifest calls c (log_directory c) d = (d1, Inr ())"
    using assms(1) yes by (auto simp: aof_open_def log_directory_def Let_def split: if_splits prod.splits sum.splits)
  obtain names where names: "read_manifest (manifest_path c) (hget d1 (manifest_path c)) = Inr names"
    using assms(1) yes d1 by (auto simp: aof_open_def log_directory_def manifest_path_def Let_def split: if_splits sum.splits)
  then obtain manifest where "hget d1 (manifest_path c) = Some manifest" by (auto simp: read_manifest_def split: option.splits)
  with assms(1) yes d1 names show ?thesis
    by (auto simp: aof_open_def opens_as_def log_directory_def manifest_path_def Let_def filter_empty_conv
        split: if_splits list.splits)
qed

lemma opens_as_opens:
  assumes "opens_as c d files" "directories_ok calls" "descriptor_ok calls"
  obtains a where "aof_open calls c d new_Aof = (d, Inr a)" "aof_files a = files"
proof -
  have "filter (\<lambda>file. \<not> hcontains d file) files = []" using assms(1) by (auto simp: opens_as_def filter_empty_conv)
  with assms that show ?thesis
    by (auto simp: opens_as_def aof_open_def create_manifest_def log_directory_def manifest_path_def Let_def hcontains_def)
qed

lemma opens_as_same:
  "opens_as c d files \<Longrightarrow> hget d' (manifest_path c) = hget d (manifest_path c) \<Longrightarrow> \<forall>p \<in> set files. hcontains d' p \<Longrightarrow>
     opens_as c d' files"
  by (auto simp: opens_as_def)

text \<open>An empty log file is not the manifest.\<close>

lemma manifest_not_empty: "opens_as c d files \<Longrightarrow> contents d (manifest_path c) \<noteq> []"
  by (auto simp: opens_as_def contents_def read_manifest_def split_lines.simps)

lemma store_init_fresh:
  "same_data (store_init draws config new_store) new_store" "pending_block (store_init draws config new_store) = None"
  "pending_propagations (store_init draws config new_store) = []" "lasting (store_init draws config new_store)"
  by (simp_all add: store_init_def init_replication_def new_store_def same_data_def lasting_def Let_def)

lemma server_start_fresh:
  assumes "server_start calls config d = Some (s, a, d')" "aof_files a = [path]" "contents d' path = []"
  shows "s = store_init (random_draws calls) config new_store \<and> opens_as config d' [path] \<and> aof_fd a = Some path"
proof -
  obtain s1 where s1: "aof_open (files_opened calls) config d new_Aof = (d', Inr a)"
      "replay (replay_envs calls) d' a (store_init (random_draws calls) config new_store) = Inr s1"
      "s = load_snapshot calls config d' s1"
    using assms(1) by (auto simp: server_start_def Let_def split: if_splits prod.splits sum.splits)
  have o: "opens_as config d' [path]" "aof_fd a = Some path"
    using aof_open_opens [OF s1(1)] assms(2) by simp_all
  then have "hget d' path = Some []" using assms(3) by (auto simp: opens_as_def hcontains_def contents_def split: option.splits)
  then have "s1 = store_init (random_draws calls) config new_store"
    using s1(2) assms(2) by (simp add: replay_def replay_file_def file_chunks.simps)
  with o s1(3) show ?thesis by (simp add: load_snapshot_def opens_as_def)
qed

lemma start_keeping:
  assumes "server_start calls config d = Some (s, a, d')" "aof_files a = [path]" "contents d' path = []"
    and "same_library env0 envs" "same_library env0 (world_env w)"
  shows "keeping env0 w path envs (store_init draws config new_store) d'
     (run_start listener master initial_offset (s, a, d'))"
proof -
  let ?s0 = "store_init draws config new_store" and ?sv = "run_start listener master initial_offset (s, a, d')"
  have s: "s = store_init (random_draws calls) config new_store" "opens_as config d' [path]" "aof_fd a = Some path"
    using server_start_fresh [OF assms(1-3)] by simp_all
  have "same_data ?s0 s" using store_init_fresh(1) same_data_trans same_data_sym unfolding s(1) by blast
  then have "replayed path envs ?s0 [] s"
    using store_init_fresh by (simp add: replayed_def s(1) replay_ready_def)
  moreover have "logged_to path d' [] ?sv"
    using s(2,3) assms(3) by (simp add: logged_to_def run_start_def opens_as_def)
  moreover have "rests ?sv"
    using store_init_fresh(2,3)
    by (auto simp: rests_def queued_ok_def client_at_def run_start_def s(1) hget_def new_client_def)
  ultimately show ?thesis using assms(4,5) by (auto simp: keeping_def durable_def run_start_def)
qed

lemma length_enc: "length args \<le> length (enc args)"
proof -
  have "length xs \<le> length (concat (map bulk_bytes xs))" for xs
    by (induction xs) (auto simp: bulk_bytes_def)
  from this [of args] show ?thesis by (simp add: enc_def to_bytes.simps)
qed

lemma enc_member: "args \<in> set L \<Longrightarrow> length (enc args) \<le> length (enc_all L)"
  by (induction L) auto

lemma replay_log_file:
  assumes "hget d path = Some (enc_all L)" "length (enc_all L) < 2 ^ 58"
    and "replay_commands path envs L (0, s0, replay_client) = Inr (n, t, replay_client)"
  shows "replay_file envs d path (0, s0, replay_client) = Inr (n, t, replay_client)"
proof -
  have enc: "concat (map (\<lambda>args. to_bytes (Array args)) M) = enc_all M" for M
    unfolding enc_all_def enc_def [symmetric] ..
  have torn: "enc [''PING''] = ''*1'' @ crlf @ ''$4'' @ crlf @ ''PING'' @ crlf" by code_simp
  have "length args \<le> vector_max_size" if "args \<in> set ([''PING''] # L)" for args
  proof (cases "args = [''PING'']")
    case False
    with that have "length args \<le> length (enc_all L)" using length_enc [of args] enc_member [of args L] by auto
    with assms(2) show ?thesis by (simp add: vector_max_size_def)
  qed (simp add: vector_max_size_def)
  moreover have "length (enc_all (L @ [[''PING'']])) < u64_modulus"
    using assms(2) by (simp add: torn crlf_def u64_modulus_def)
  moreover have "strict_prefix [] (enc [''PING''])" by (simp add: torn)
  ultimately show ?thesis
    using replay_file_commands [of d path L "[]" "[''PING'']" envs "(0, s0, replay_client)", unfolded enc, folded enc_def]
      assms(1,3) by simp
qed

text \<open>C2: Restarting from the log gives the data back. A server is started with an empty log and runs
  for any number of turns, with any clients, replicas and master, transactions, blocked pops
  and failing connections. If no command in its log carries a lifetime or asks for a generated
  stream identifier, and the log is shorter than \<open>2 ^ 58\<close> bytes, then starting again on the disk
  it left succeeds and yields exactly the
  strings, lists, streams and sorted sets it held, whatever the clocks show by then.\<close>

theorem restart_recovers_data:
  assumes "server_start calls config d = Some (s, a, d')" "aof_files a = [path]" "contents d' path = []"
    and "turns w (run_start listener master initial_offset (s, a, d')) sv"
    and "same_library env0 (world_env w)" "same_library env0 (replay_envs calls')"
    and "socket_ok calls'" "reuse_ok calls'" "nonblocking_ok calls'" "bind_ok calls'" "listen_ok calls'"
    and "directories_ok (files_opened calls')" "descriptor_ok (files_opened calls')"
  shows "\<exists>L. contents (disk_of sv) path = enc_all L
     \<and> (list_all timeless L \<and> length (enc_all L) < 2 ^ 58 \<longrightarrow>
          (\<exists>s' a'. server_start calls' config (disk_of sv) = Some (s', a', disk_of sv) \<and> same_data s' (db sv)))"
proof -
  let ?s0 = "store_init (random_draws calls') config new_store" and ?envs = "replay_envs calls'"
  have "keeping env0 w path ?envs ?s0 d' sv"
    by (rule turns_keeping [OF assms(4) start_keeping [OF assms(1-3,6,5)]])
  then obtain L where L: "logged_to path d' L sv" "replayed path ?envs ?s0 L (db sv)"
    by (auto simp: keeping_def durable_def)
  have logfile: "hget (disk_of sv) path = Some (enc_all L)"
    using L(1) by (auto simp: logged_to_def hcontains_def contents_def split: option.splits)
  have o: "opens_as config d' [path]" using server_start_fresh [OF assms(1-3)] by blast
  have "manifest_path config \<noteq> path" using manifest_not_empty [OF o] assms(3) by auto
  then have "opens_as config (disk_of sv) [path]"
    using opens_as_same [OF o, of "disk_of sv"] L(1) by (simp add: logged_to_def)
  then obtain a' where a': "aof_open (files_opened calls') config (disk_of sv) new_Aof = (disk_of sv, Inr a')" "aof_files a' = [path]"
    using opens_as_opens assms(12,13) by blast
  have restart: "\<exists>s' a'. server_start calls' config (disk_of sv) = Some (s', a', disk_of sv) \<and> same_data s' (db sv)"
    if small: "list_all timeless L" "length (enc_all L) < 2 ^ 58"
  proof -
    obtain n t where t: "replay_commands path ?envs L (0, ?s0, replay_client) = Inr (n, t, replay_client)" "same_data t (db sv)"
      using L(2) small(1) by (auto simp: replayed_def)
    have "replay ?envs (disk_of sv) a' ?s0 = Inr t"
      using replay_log_file [OF logfile small(2) t(1)] a'(2) by (simp add: replay_def)
    moreover have "load_snapshot calls' config (disk_of sv) t = t" using o by (simp add: load_snapshot_def opens_as_def)
    ultimately show ?thesis using assms(7-11) a'(1) t(2) by (auto simp: server_start_def Let_def)
  qed
  have "contents (disk_of sv) path = enc_all L" using L(1) by (simp add: logged_to_def)
  with restart show ?thesis by blast
qed

text \<open>
  A concrete run: a server started on an empty disk, one client that pushes to a list and
  runs a transaction, and a start on the disk that is left.
\<close>

definition sample_config :: Config where
  "sample_config = (default_config ''/data'')\<lparr>cfg_appendonly := ''yes''\<rparr>"

definition sample_booted :: "store \<times> Aof \<times> disk" where
  "sample_booted = (case server_start sample_calls sample_config [] of Some b \<Rightarrow> b | None \<Rightarrow> sample_started)"

definition sample_requests :: "event list" where
  "sample_requests =
     [\<lparr>ev_in = False, ev_error = False, ev_accepts = [], ev_recvs = []\<rparr>,
      \<lparr>ev_in = True, ev_error = False, ev_accepts = [],
       ev_recvs = [Received (enc_all [[''RPUSH'', ''k'', ''a''], [''MULTI''], [''SET'', ''s'', ''x''], [''EXEC'']])]\<rparr>]"

definition sample_quick_world :: world where
  "sample_quick_world = sample_world\<lparr>world_sends := (\<lambda>_. [Sent 64]),
     world_log := (\<lambda>_. \<lparr>outcomes = [Done 60, Done 60, Done 0], now_checked = 0, now_synced = 0\<rparr>)\<rparr>"

definition sample_run :: "server run" where
  "sample_run = then_do (poll_turn sample_quick_world 0 sample_connect (run_start 3 (- 1) 0 sample_booted))
     (poll_turn sample_quick_world 0 sample_requests)"

definition sample_log :: "args list" where
  "sample_log = [[''RPUSH'', ''k'', ''a''], [''MULTI''], [''SET'', ''s'', ''x''], [''EXEC'']]"

definition sample_path :: string where
  "sample_path = ''/data/appendonlydir/appendonly.aof.1.incr.aof''"

lemma sample_run_log:
  "case sample_run of Inl _ \<Rightarrow> False
   | Inr sv \<Rightarrow> contents (disk_of sv) sample_path = enc_all sample_log
       \<and> hget (DynamicVector (db sv)) ''k'' = Some [''a''] \<and> hget (Storage (db sv)) ''s'' = Some ''x''"
  by code_simp

lemma sample_boot:
  "case server_start sample_calls sample_config [] of None \<Rightarrow> False
   | Some (s, a, d) \<Rightarrow> aof_files a = [sample_path] \<and> contents d sample_path = []"
  by code_simp

theorem restart_recovers_data_witness:
  "\<exists>sv s' a'. sample_run = Inr sv \<and> server_start sample_calls sample_config (disk_of sv) = Some (s', a', disk_of sv)
     \<and> hget (DynamicVector s') ''k'' = Some [''a''] \<and> hget (Storage s') ''s'' = Some ''x''"
proof -
  obtain s a d where b: "server_start sample_calls sample_config [] = Some (s, a, d)" "aof_files a = [sample_path]"
      "contents d sample_path = []"
    using sample_boot by (auto split: option.splits)
  then have booted: "sample_booted = (s, a, d)" by (simp add: sample_booted_def)
  obtain sv where sv: "sample_run = Inr sv" "contents (disk_of sv) sample_path = enc_all sample_log"
      "hget (DynamicVector (db sv)) ''k'' = Some [''a'']" "hget (Storage (db sv)) ''s'' = Some ''x''"
    using sample_run_log by (auto split: sum.splits)
  then have run: "turns sample_quick_world (run_start 3 (- 1) 0 (s, a, d)) sv"
    unfolding sample_run_def booted then_do_Inr by (blast intro: turns.intros)
  have lib: "same_library sample_env (world_env sample_quick_world)" "same_library sample_env (replay_envs sample_calls)"
    by (simp_all add: same_library_def sample_quick_world_def sample_world_def sample_calls_def)
  obtain L where L: "contents (disk_of sv) sample_path = enc_all L"
      "list_all timeless L \<and> length (enc_all L) < 2 ^ 58 \<longrightarrow>
        (\<exists>s' a'. server_start sample_calls sample_config (disk_of sv) = Some (s', a', disk_of sv) \<and> same_data s' (db sv))"
    using restart_recovers_data [OF b run lib] by (auto simp: sample_calls_def)
  have "L = sample_log" using L(1) sv(2) by (intro enc_all_inj) simp
  moreover have "list_all timeless sample_log" "length (enc_all sample_log) = 85" by code_simp+
  ultimately obtain s' a' where "server_start sample_calls sample_config (disk_of sv) = Some (s', a', disk_of sv)"
      "same_data s' (db sv)" using L(2) by auto
  with sv show ?thesis by (auto simp: same_data_def)
qed

text \<open>The condition on lifetimes is needed. A key that expires may become a sorted set, and the
  log then holds both commands; replayed at once, before the string expires, the second one is
  refused, and the server does not start.\<close>

lemma log_with_lifetime_refused:
  "case server_start sample_calls sample_config
      (case sample_booted of (s, a, d) \<Rightarrow>
         hput sample_path (enc_all [[''SET'', ''k'', ''v'', ''PX'', ''100''], [''ZADD'', ''k'', ''1'', ''m'']]) d)
   of None \<Rightarrow> True | Some _ \<Rightarrow> False"
  by code_simp

end
