(* ===== verification/Server_Follow.thy ===== *)
theory Server_Follow
  imports Server_Recovery
begin

text \<open>
  Replication. What a command of a client adds to the stream of a replica are the writes that
  repeat its change, and at most a request for an acknowledgement. Over a whole run of the loop
  a replica that stays connected is streamed the change of the data, and a server that holds
  the same data and processes the stream, however it is cut into pieces, holds the same data
  again. As for the log, this is about keys without lifetimes and streams with given identifiers: the
  stream carries the commands as they were sent.
\<close>

section \<open>What the stream carries\<close>

definition carried :: "args \<Rightarrow> bool" where
  "carried args \<longleftrightarrow> writes args \<or> is_getack args"

lemma writes_not_getack: "writes args \<Longrightarrow> \<not> is_getack args"
proof -
  have "\<not> is_write_command ''REPLCONF''" by code_simp
  then show "writes args \<Longrightarrow> \<not> is_getack args" by (auto simp: writes_def is_getack_def)
qed

text \<open>The commands \<open>L\<close> in the stream stand for the change of the data.\<close>

definition feeds :: "env \<Rightarrow> args list \<Rightarrow> store \<Rightarrow> store \<Rightarrow> bool" where
  "feeds env L s s' \<longleftrightarrow> list_all carried L \<and> repeats_change env (filter writes L) s s'"

lemma getack_encoded: "getack = enc [''REPLCONF'', ''GETACK'', ''*'']" "is_getack [''REPLCONF'', ''GETACK'', ''*'']"
  by code_simp+

lemma feeds_logs:
  assumes "logs_of env cmds s s'" "ack \<in> {[], getack}"
  obtains L where "enc_all L = enc_all cmds @ ack" "feeds env L s s'"
proof -
  let ?ask = "[''REPLCONF'', ''GETACK'', ''*'']"
  have w: "filter writes cmds = cmds" "list_all carried cmds"
    using assms(1) by (auto simp: logs_of_def carried_def list_all_iff)
  have "\<not> writes ?ask" using writes_not_getack getack_encoded(2) by blast
  with assms w that [of cmds] that [of "cmds @ [?ask]"] show thesis
    by (auto simp: feeds_def logs_of_def carried_def getack_encoded)
qed

lemma client_command_feeds:
  assumes "rests sv" "same_library env0 (world_env w)" "client_command w i c args sv = Inr (sv', go)"
    and "hcontains (replicas sv') r"
  obtains L where "stream_to r sv' = stream_to r sv @ enc_all L" "feeds env0 L (db sv) (db sv')" "rests sv'"
proof (cases "is_ack c args sv")
  case True
  note f = ack_frame [OF assms(1,3) True]
  have "feeds env0 [] (db sv) (db sv')" using f(2) by (simp add: feeds_def repeats_nothing)
  with f that [of "[]"] show thesis by simp
next
  case False
  from client_command_logs [OF assms(1-3) False] obtain own pending ack where
    logs: "logs_of env0 (own @ pending) (db sv) (db sv')" "rests sv'" "ack \<in> {[], getack}"
      "stream_to r sv' = stream_to r sv @ enc_all (own @ pending) @ ack"
    using assms(4) by blast
  obtain L where "enc_all L = enc_all (own @ pending) @ ack" "feeds env0 L (db sv) (db sv')"
    using feeds_logs [OF logs(1,3)] by blast
  with logs(2,4) that [of L] show thesis by simp
qed

section \<open>The replica\<close>

text \<open>A replica ready for its master's next command: the connection \<open>m\<close> is past the handshake,
  nothing is pending, no key has a lifetime, and it keeps no log of its own.\<close>

definition following :: "int \<Rightarrow> server \<Rightarrow> bool" where
  "following m rv \<longleftrightarrow> authenticated (client_at rv m) \<and> subscriptions (client_at rv m) = [] \<and> \<not> in_multi (client_at rv m)
     \<and> pending_block (db rv) = None \<and> pending_propagations (db rv) = [] \<and> lasting (db rv) \<and> aof_fd (aof rv) = None"

lemma log_command_off:
  "aof_fd (aof sv) = None \<Longrightarrow> log_command w args sv = Inr (sv\<lparr>n_logs := Suc (n_logs sv)\<rparr>)"
  by (simp add: log_command_def log_call_def append_command_def)

lemma master_command_follows:
  assumes "following m rv" "same_library env0 (world_env w)" "carried args" "timeless args"
    and "redo env0 (filter writes [args]) (db rv) = Some t"
  obtains rv' where "master_command w m args n rv = Inr rv'" "db rv' = t" "following m rv'"
    "buffer_at rv' m = buffer_at rv m"
proof (cases "writes args")
  case False
  then have "is_getack args" "t = db rv" using assms(3,5) by (auto simp: carried_def)
  with assms(1) that show thesis
    by (simp add: master_command_def following_def advance_offset_def send_to_def case_prod_beta client_at_def buffer_at_def)
next
  case True
  have f: "authenticated (client_at rv m)" "subscriptions (client_at rv m) = []" "\<not> in_multi (client_at rv m)"
      "lasting (db rv)" "aof_fd (aof rv) = None" "pending_block (db rv) = None" "pending_propagations (db rv) = []"
    using assms(1) by (simp_all add: following_def)
  have "redo env0 [args] (db rv) = Some t" using True assms(5) by simp
  then obtain r where r: "dispatch_data (world_env w (n_commands rv)) (db rv) args = (t, Inr r)" "\<not> is_error_reply r" "lasting t"
      "pending_propagations t = []" "pending_block t = None"
    using redo_write [of env0 "world_env w (n_commands rv)" args "db rv" t] True assms(2,4) f by (auto simp: same_library_def)
  let ?rv = "advance_offset n rv"
  let ?run = "put_client m (client_at rv m) (?rv\<lparr>db := t, n_commands := Suc (n_commands rv)\<rparr>)"
  have run: "run_command w m args ?rv = (?run, r)"
    using write_command(1) [OF True f(1-3), of "world_env w (n_commands rv)" "db rv"] r(1)
    by (simp add: run_command_def advance_offset_def client_at_def)
  have off: "aof_fd (aof ?run) = None" using f(5) by (simp add: put_client_def advance_offset_def)
  have "master_command w m args n rv = Inr (?run\<lparr>n_logs := Suc (n_logs ?run)\<rparr>)"
    using run f(3) True r log_command_off [OF off, of w args] writes_not_getack
    by (simp add: master_command_def log_write_def is_logged_def writes_def take_pending_propagations_def
        take_pending_block_def log_pending_def put_client_def)
  moreover have "following m (?run\<lparr>n_logs := Suc (n_logs ?run)\<rparr>)"
    using f r by (simp add: following_def put_client_def client_at_def advance_offset_def)
  ultimately show thesis using that by (simp add: put_client_def buffer_at_def advance_offset_def)
qed

text \<open>The same for all the commands in a buffer, and for the pieces of the stream.\<close>

lemma redo_step:
  assumes "redo env (filter writes (args # cmds)) t = Some t'"
  obtains t1 where "redo env (filter writes [args]) t = Some t1" "redo env (filter writes cmds) t1 = Some t'"
proof -
  have "redo env (filter writes [args] @ filter writes cmds) t = Some t'" using assms by (cases "writes args") simp_all
  with that show thesis unfolding redo_append by (auto simp del: filter.simps split: option.splits)
qed

lemma master_drain_follows:
  assumes "same_library env0 (world_env w)" "list_all carried cmds" "list_all timeless cmds"
    and "drain (buffer_at rv m) = (cmds, rest, None)" "following m rv" "redo env0 (filter writes cmds) (db rv) = Some t"
  shows "\<exists>rv'. master_drain w j m rv = Inr (rv', True) \<and> db rv' = t \<and> following m rv' \<and> buffer_at rv' m = rest"
  using assms(2-6)
proof (induction cmds arbitrary: rv)
  case Nil
  then have "parse_command (buffer_at rv m) = Inr None" "rest = buffer_at rv m"
    by (auto simp: drain.simps [of "buffer_at rv m"] split: sum.splits option.splits prod.splits)
  with Nil show ?case by (subst master_drain.simps) simp
next
  case (Cons args cmds)
  obtain n where p: "parse_command (buffer_at rv m) = Inr (Some (args, n))" "drain (drop n (buffer_at rv m)) = (cmds, rest, None)"
    using Cons.prems(3) by (auto simp: drain.simps [of "buffer_at rv m"] split: sum.splits option.splits prod.splits)
  let ?rv = "put_buffer m (drop n (buffer_at rv m)) rv"
  have same: "db ?rv = db rv" "buffer_at ?rv m = drop n (buffer_at rv m)" "following m ?rv"
    using Cons.prems(4) by (simp_all add: put_buffer_def buffer_at_def following_def client_at_def)
  obtain t1 where t1: "redo env0 (filter writes [args]) (db ?rv) = Some t1" "redo env0 (filter writes cmds) t1 = Some t"
    using redo_step [OF Cons.prems(5)] same(1) by metis
  obtain rv1 where rv1: "master_command w m args n ?rv = Inr rv1" "db rv1 = t1" "following m rv1" "buffer_at rv1 m = buffer_at ?rv m"
    using master_command_follows [OF same(3) assms(1) _ _ t1(1)] Cons.prems(1,2) by auto
  with Cons.IH [of rv1] Cons.prems(1,2) p(2) same(2) t1(2) obtain rv' where
    "master_drain w j m rv1 = Inr (rv', True)" "db rv' = t" "following m rv'" "buffer_at rv' m = rest" by auto
  with p(1) rv1(1) show ?case by (subst master_drain.simps) simp
qed

lemma publish_follows:
  "following m (publish_offset rv) = following m rv" "same_data (db (publish_offset rv)) s = same_data (db rv) s"
  "buffer_at (publish_offset rv) m = buffer_at rv m"
  by (simp_all add: publish_offset_def following_def client_at_def buffer_at_def set_repl_offset_def lasting_def)

lemma master_recv_follows:
  assumes "same_library env0 (world_env w)"
    and "feed_chunks (buffer_at rv m) chunks = (cmds, rest, None)" "list_all carried cmds" "list_all timeless cmds"
    and "following m rv" "same_data (db rv) t" "lasting t" "redo env0 (filter writes cmds) t = Some t'"
  shows "\<exists>rv'. master_recv w j m (map Received chunks) rv = Inr rv' \<and> same_data (db rv') t' \<and> following m rv' \<and> buffer_at rv' m = rest"
  using assms(2-8)
proof (induction chunks arbitrary: rv cmds t)
  case (Cons chunk chunks)
  let ?rv = "put_buffer m (buffer_at rv m @ chunk) rv"
  obtain cs ds b where d: "drain (buffer_at ?rv m) = (cs, b, None)" "feed_chunks b chunks = (ds, rest, None)" "cmds = cs @ ds"
    using Cons.prems(1) by (auto simp: put_buffer_def buffer_at_def split: prod.splits option.splits)
  obtain t1 where t1: "redo env0 (filter writes cs) t = Some t1" "redo env0 (filter writes ds) t1 = Some t'"
    using Cons.prems(7) d(3) by (auto simp: redo_append split: option.splits)
  have wt: "list_all writes (filter writes cs)" "list_all timeless (filter writes cs)" "list_all carried cs" "list_all timeless cs"
    using Cons.prems(2,3) d(3) by (auto simp: list_all_iff)
  have rv: "following m ?rv" "same_data (db ?rv) t"
    using Cons.prems(4,5) by (simp_all add: put_buffer_def following_def client_at_def)
  have "redo env0 (filter writes cs) (db ?rv) = Some (graft (db ?rv) t1)"
    by (rule redo_same [OF wt(1,2) Cons.prems(6) rv(2) t1(1)])
  then obtain rv1 where rv1: "master_drain w j m ?rv = Inr (rv1, True)" "db rv1 = graft (db ?rv) t1" "following m rv1" "buffer_at rv1 m = b"
    using master_drain_follows [OF assms(1) wt(3,4) d(1) rv(1)] by blast
  have "same_data (db (publish_offset rv1)) t1" using rv1(2) same_data_grafted publish_follows(2) by simp
  moreover have "lasting t1" using rv1(2,3) by (simp add: following_def lasting_def)
  ultimately obtain rv' where "master_recv w j m (map Received chunks) (publish_offset rv1) = Inr rv'" "same_data (db rv') t'"
      "following m rv'" "buffer_at rv' m = rest"
    using Cons.IH [of "publish_offset rv1" ds t1] Cons.prems(2,3) d(2,3) rv1(3,4) t1(2) by (auto simp: publish_follows)
  with rv1(1) show ?case by simp
qed auto

section \<open>Whole runs\<close>

text \<open>What was sent since a state, and that none of it was an answer to \<open>r\<close>.\<close>

interpretation outbox_loop: looping "\<lambda>sv. prefix out (outbox sv)" w for out w
  by unfold_locales
    (auto simp: send_to_def note_offset_def put_client_def close_client_def run_command_def put_buffer_def add_client_def
      publish_offset_def case_prod_beta)

interpretation master_kept: serving "\<lambda>sv. master_fd sv = n" c w for n c w
  by unfold_locales
    (auto simp: send_to_def note_offset_def put_client_def close_client_def run_command_def case_prod_beta)

definition silent_since :: "(int \<times> lane \<times> bytes) list \<Rightarrow> int \<Rightarrow> server \<Rightarrow> bool" where
  "silent_since out r sv \<longleftrightarrow> (\<forall>b. (r, Answer, b) \<notin> set (drop (length out) (outbox sv)))"

lemma silent_parts:
  assumes "prefix out (outbox sv)" "prefix (outbox sv) (outbox sv')" "silent_since out r sv'"
  shows "silent_since out r sv" "silent_since (outbox sv) r sv'"
  using assms by (auto simp: silent_since_def prefix_def)

lemma feeds_trans: "feeds env L s s1 \<Longrightarrow> feeds env M s1 s2 \<Longrightarrow> feeds env (L @ M) s s2"
  unfolding feeds_def using repeats_trans [of env "filter writes L" s s1 "filter writes M" s2] by simp

text \<open>
  The link between a server without a master and its replica \<open>r\<close> since the state \<open>sv0\<close>: as long
  as \<open>r\<close> is registered and got no answer, its stream carries the change of the data. (A replica
  that was dropped and comes back asks with \<open>PSYNC\<close>, and that is answered.)
\<close>

definition linked :: "env \<Rightarrow> int \<Rightarrow> server \<Rightarrow> server \<Rightarrow> bool" where
  "linked env0 r sv0 sv \<longleftrightarrow> rests sv \<and> master_fd sv < 0 \<and> prefix (outbox sv0) (outbox sv) \<and>
     (silent_since (outbox sv0) r sv \<and> hcontains (replicas sv) r \<longrightarrow>
        (\<exists>L. stream_to r sv = stream_to r sv0 @ enc_all L \<and> feeds env0 L (db sv0) (db sv)))"

lemma linked_step:
  assumes "linked env0 r sv0 sv" "rests sv'" "master_fd sv' = master_fd sv" "prefix (outbox sv) (outbox sv')"
    and "silent_since (outbox sv) r sv' \<Longrightarrow> hcontains (replicas sv') r \<Longrightarrow> hcontains (replicas sv) r
      \<and> (\<exists>L. stream_to r sv' = stream_to r sv @ enc_all L \<and> feeds env0 L (db sv) (db sv'))"
  shows "linked env0 r sv0 sv'"
proof -
  have l: "master_fd sv < 0" "prefix (outbox sv0) (outbox sv)" using assms(1) by (simp_all add: linked_def)
  have "\<exists>L. stream_to r sv' = stream_to r sv0 @ enc_all L \<and> feeds env0 L (db sv0) (db sv')"
    if silent: "silent_since (outbox sv0) r sv'" and here: "hcontains (replicas sv') r"
  proof -
    note parts = silent_parts [OF l(2) assms(4) silent]
    obtain M where M: "hcontains (replicas sv) r" "stream_to r sv' = stream_to r sv @ enc_all M" "feeds env0 M (db sv) (db sv')"
      using assms(5) [OF parts(2) here] by blast
    then obtain L where "stream_to r sv = stream_to r sv0 @ enc_all L" "feeds env0 L (db sv0) (db sv)"
      using assms(1) parts(1) by (auto simp: linked_def)
    with M feeds_trans show ?thesis by (intro exI [of _ "L @ M"]) auto
  qed
  then show ?thesis using assms(2-4) l by (simp add: linked_def)
qed

lemma linked_same:
  assumes "linked env0 r sv0 sv" "rests sv'" "same_data (db sv') (db sv)" "master_fd sv' = master_fd sv"
    and "prefix (outbox sv) (outbox sv')" "stream_to r sv' = stream_to r sv"
    and "hcontains (replicas sv') r \<Longrightarrow> hcontains (replicas sv) r"
  shows "linked env0 r sv0 sv'"
proof (rule linked_step [OF assms(1,2,4,5)])
  have "feeds env0 [] (db sv) (db sv')" using assms(3) by (simp add: feeds_def repeats_nothing)
  with assms(6,7) show "hcontains (replicas sv') r \<Longrightarrow> hcontains (replicas sv) r
      \<and> (\<exists>L. stream_to r sv' = stream_to r sv @ enc_all L \<and> feeds env0 L (db sv) (db sv'))"
    by (intro conjI exI [of _ "[]"]) simp_all
qed

text \<open>Registering is answered.\<close>

lemma psync_store:
  assumes "to_upper (args ! 0) = ''PSYNC''" "\<not> in_multi client" "args \<noteq> []"
  shows "fst (handle_command env args s client) = s"
proof -
  have "dispatch_data env s args = plain (\<lambda>_. handle_psync) env s args"
    using assms(1) by (simp add: dispatch_data_def front_commands_def data_commands_def incompatible_with_sorted_set_def)
  then have "fst (dispatch_data env s args) = s" by (simp add: plain_def quiet_handlers case_prod_beta)
  with assms show ?thesis by (simp add: handle_command_def dispatch_command_def Let_def case_prod_beta)
qed

lemma outbox_grows: "client_command w i c args sv = Inr (sv', go) \<Longrightarrow> prefix (outbox sv) (outbox sv')"
  by (rule outbox_loop.conn.client_command) simp_all

lemma register_replica_same:
  "db (register_replica c args m response sv) = db sv" "outbox (register_replica c args m response sv) = outbox sv"
  by (simp_all add: register_replica_def)

lemma answer_sent:
  assumes "prefix out (outbox sv)" "pending_block (db sv) = None" "response \<noteq> []"
  shows "\<not> silent_since out c (fst (answer_command w env i c response sv))"
proof -
  let ?sv = "sv\<lparr>db := (db sv)\<lparr>pending_block := None\<rparr>\<rparr>"
  obtain b ok where "send_all (world_sends w (n_sends sv)) response = (b, ok)" by fastforce
  then obtain sv1 where s: "send_to w Answer c response ?sv = (ok, sv1)" "outbox sv1 = outbox sv @ [(c, Answer, b)]"
    by (simp add: send_to_def)
  let ?sv' = "fst (answer_command w env i c response sv)"
  have "?sv' = (if ok then fst (finish_command w i c sv1) else close_client i c sv1)"
    using assms(2,3) s(1) by (simp add: answer_command_def take_pending_block_def)
  moreover have "prefix (outbox sv1) (outbox (fst (finish_command w i c sv1)))"
    by (rule outbox_loop.conn.finish_command) simp
  ultimately have "prefix (outbox sv @ [(c, Answer, b)]) (outbox ?sv')"
    using s(2) by (auto simp: close_client_def)
  then show ?thesis using assms(1) by (auto simp: silent_since_def prefix_def)
qed

lemma registering_answers:
  assumes "rests sv" "client_command w i c args sv = Inr (sv', go)"
    and "hcontains (replicas sv') r" "\<not> hcontains (replicas sv) r"
  shows "\<not> silent_since (outbox sv) r sv'"
proof -
  let ?m = "in_multi (client_at sv c)" and ?env = "world_env w (n_commands sv)"
  have I: "hmap_ok (replicas sv)" "settled sv" using assms(1) by (simp_all add: rests_def settled_def)
  have ack: "\<not> is_ack c args sv"
    using assms(2-4) by (auto simp: client_command_def note_ack_def hcontains_def split: option.splits sum.splits if_splits)
  obtain sv1 response where run: "run_command w c args sv = (sv1, response)" by fastforce
  let ?base = "register_replica c args ?m response sv1"
  have "hcontains (replicas ?base) r"
    using client_command_recorded [OF assms(2) ack I(1) run] assms(3) by (auto simp: recorded_def streamed_def)
  moreover have "replicas sv1 = replicas sv" "outbox sv1 = outbox sv" using run by (auto simp: run_command_def put_client_def split: prod.splits)
  ultimately have reg: "c = r" "args \<noteq> []" "to_upper (args ! 0) = ''PSYNC''" "\<not> ?m" "response \<noteq> []" "outbox ?base = outbox sv"
    using assms(4) by (auto simp: register_replica_def hcontains_def split: if_splits)
  have "db sv1 = db sv" using run psync_store [OF reg(3,4,2), of ?env "db sv"] by (auto simp: run_command_def put_client_def split: prod.splits)
  then have base: "settled ?base" using I(2) by (simp add: settled_def register_replica_same)
  obtain sv2 sv3 where 3: "record_write w c args ?m response ?base = Inr sv2"
      "record_pending w c ?m sv2 = Inr sv3" "sv' = fst (answer_command w ?env i c response sv3)"
    using assms(2) ack run by (auto simp: client_command_def Let_def then_do_Inr)
  have "settled sv3" by (rule settled_answers.record_pending [OF settled_answers.record_write [OF base 3(1)] 3(2)])
  moreover have "prefix (outbox sv) (outbox sv3)"
    by (rule outbox_loop.conn.record_pending [OF outbox_loop.conn.record_write [OF _ 3(1)] 3(2)]) (simp add: reg(6))
  ultimately show ?thesis using answer_sent [of "outbox sv" sv3 response c w ?env i] 3(3) reg(1,5) by (simp add: settled_def)
qed

text \<open>Every operation of the loop keeps the link.\<close>

lemma client_command_linked:
  assumes "linked env0 r sv0 sv" "same_library env0 (world_env w)" "client_command w i c args sv = Inr (sv', go)"
  shows "linked env0 r sv0 sv'"
proof (rule linked_step [OF assms(1)])
  have I: "rests sv" using assms(1) by (simp add: linked_def)
  show "rests sv'"
    using ack_frame(1) [OF I assms(3)] client_command_logs [OF I assms(2,3)] by blast
  show "master_fd sv' = master_fd sv" by (rule master_kept.client_command [OF _ assms(3)]) simp
  show "prefix (outbox sv) (outbox sv')" by (rule outbox_grows [OF assms(3)])
  show "hcontains (replicas sv) r \<and> (\<exists>L. stream_to r sv' = stream_to r sv @ enc_all L \<and> feeds env0 L (db sv) (db sv'))"
    if "silent_since (outbox sv) r sv'" "hcontains (replicas sv') r"
    using that registering_answers [OF I assms(3)] client_command_feeds [OF I assms(2,3) that(2)] by metis
qed

lemma retry_waiter_master:
  assumes "retry_waiter w waiter sv = Inr (sv', reply)"
  shows "master_fd sv' = master_fd sv"
proof (cases "w_kind waiter")
  case BlockList
  obtain s popped where t: "try_blpop (w_keys waiter) (db sv) = (s, popped)" by fastforce
  show ?thesis
  proof (cases popped)
    case None
    with assms BlockList t show ?thesis by (auto simp: retry_waiter_def)
  next
    case (Some kv)
    with assms BlockList t obtain cmds s' where "record_each w (w_fd waiter) cmds (sv\<lparr>db := s'\<rparr>) = Inr sv'"
      by (cases kv) (auto simp: retry_waiter_def take_pending_propagations_def then_do_Inr)
    then show ?thesis by (rule master_kept.record_each [rotated]) simp
  qed
qed (use assms in \<open>auto simp: retry_waiter_def Let_def split: sum.splits\<close>)

lemma retry_waiter_linked:
  assumes "linked env0 r sv0 sv" "retry_waiter w waiter sv = Inr (sv', reply)"
  shows "linked env0 r sv0 sv'"
proof -
  have I: "rests sv" using assms(1) by (simp add: linked_def)
  from retry_waiter_logs [OF I assms(2), of env0] obtain cmds where
    logs: "logs_of env0 cmds (db sv) (db sv')" "rests sv'" "streamed (enc_all cmds) sv sv'" by (auto simp: recorded_def)
  obtain L where L: "enc_all L = enc_all cmds" "feeds env0 L (db sv) (db sv')" using feeds_logs [OF logs(1), of "[]"] by auto
  have "prefix (outbox sv) (outbox sv')" by (rule outbox_loop.retry_waiter [OF _ assms(2)]) simp
  moreover have "master_fd sv' = master_fd sv" by (rule retry_waiter_master [OF assms(2)])
  ultimately show ?thesis
    using logs(3) L by (intro linked_step [OF assms(1) logs(2)]) (auto simp: streamed_def intro!: exI [of _ L])
qed

lemma log_sync_linked:
  assumes "linked env0 r sv0 sv" "log_sync w sv = Inr sv'"
  shows "linked env0 r sv0 sv'"
proof -
  have same: "db sv' = db sv" "clients sv' = clients sv" "replicas sv' = replicas sv" "outbox sv' = outbox sv" "master_fd sv' = master_fd sv"
    using assms(2) by (auto simp: log_sync_def log_call_def split: option.splits sum.splits)
  then show ?thesis
    using assms(1) queued_frame [OF same(2)] by (intro linked_same [OF assms(1)]) (simp_all add: linked_def rests_def stream_to_def)
qed

interpretation link: primary "\<lambda>sv. same_library env0 (world_env w) \<and> linked env0 r sv0 sv" w for env0 r sv0 w
proof unfold_locales
  fix sv sv' i c args go waiter reply x payload ws b fs
  assume I: "same_library env0 (world_env w) \<and> linked env0 r sv0 sv"
  then have l: "linked env0 r sv0 sv" "rests sv" by (simp_all add: linked_def)
  show "master_fd sv < 0" using I by (simp add: linked_def)
  show "client_command w i c args sv = Inr (sv', go) \<Longrightarrow> same_library env0 (world_env w) \<and> linked env0 r sv0 sv'"
    using I client_command_linked by blast
  show "retry_waiter w waiter sv = Inr (sv', reply) \<Longrightarrow> same_library env0 (world_env w) \<and> linked env0 r sv0 sv'"
    using I retry_waiter_linked by blast
  show "log_sync w sv = Inr sv' \<Longrightarrow> same_library env0 (world_env w) \<and> linked env0 r sv0 sv'"
    using I log_sync_linked by blast
  have "linked env0 r sv0 (snd (send_to w Answer x payload sv))"
    using l by (intro linked_same [OF l(1)]) (simp_all add: rests_def queued_send, simp_all add: send_to_def case_prod_beta stream_to_def)
  moreover have "linked env0 r sv0 (close_client i x sv)"
    using l by (intro linked_same [OF l(1)])
      (simp_all add: rests_def queued_close, simp_all add: close_client_def remove_subscriber_def stream_to_def hcontains_def split: if_splits)
  moreover have "linked env0 r sv0 (sv\<lparr>waiters := ws\<rparr>)" "linked env0 r sv0 (sv\<lparr>fds := fs\<rparr>)"
    using l by (intro linked_same [OF l(1)]; simp add: rests_def queued_ok_def client_at_def stream_to_def)+
  moreover have "linked env0 r sv0 (put_buffer c b sv)"
    using l by (intro linked_same [OF l(1)]) (simp_all add: rests_def queued_loop.buffers, simp_all add: put_buffer_def stream_to_def)
  moreover have "linked env0 r sv0 (add_client c sv)"
    using l by (intro linked_same [OF l(1)]) (simp_all add: rests_def queued_loop.admits, simp_all add: add_client_def put_client_def stream_to_def)
  ultimately show "same_library env0 (world_env w) \<and> linked env0 r sv0 (snd (send_to w Answer x payload sv))"
      "same_library env0 (world_env w) \<and> linked env0 r sv0 (close_client i x sv)"
      "same_library env0 (world_env w) \<and> linked env0 r sv0 (sv\<lparr>waiters := ws\<rparr>)"
      "same_library env0 (world_env w) \<and> linked env0 r sv0 (put_buffer c b sv)"
      "same_library env0 (world_env w) \<and> linked env0 r sv0 (add_client c sv)"
      "same_library env0 (world_env w) \<and> linked env0 r sv0 (sv\<lparr>fds := fs\<rparr>)"
    using I by blast+
qed

lemma turns_linked:
  assumes "turns w sv0 sv" "same_library env0 (world_env w)" "rests sv0" "master_fd sv0 < 0"
  shows "linked env0 r sv0 sv"
proof -
  have "linked env0 r sv0 sv0"
    using assms(3,4) by (auto simp: linked_def feeds_def repeats_nothing intro!: exI [of _ "[]"])
  with assms(1,2) have "same_library env0 (world_env w) \<and> linked env0 r sv0 sv"
  proof (induction rule: turns.induct)
    case (interrupted_turn sv sv')
    then have I: "same_library env0 (world_env w) \<and> linked env0 r sv0 sv" by blast
    show ?case by (rule link.syncs [OF I interrupted_turn.hyps(2)])
  next
    case (polled_turn sv now evs sv')
    then have I: "same_library env0 (world_env w) \<and> linked env0 r sv0 sv" by blast
    show ?case by (rule link.poll_turn [OF I polled_turn.hyps(2)])
  qed simp
  then show ?thesis ..
qed

lemma feeds_followed:
  assumes "feeds env0 L s s'" "lasting s" "list_all timeless L" "length (enc_all L) < 2 ^ 58" "concat chunks = enc_all L"
    and "same_library env0 (world_env w)" "following m rv" "same_data (db rv) s" "buffer_at rv m = []"
  shows "lasting s' \<and> (\<exists>rv'. master_recv w j m (map Received chunks) rv = Inr rv' \<and> same_data (db rv') s'
     \<and> following m rv' \<and> buffer_at rv' m = [])"
proof -
  have "list_all timeless (filter writes L)" using assms(3) by (auto simp: list_all_iff)
  with assms(1,2) have l: "lasting s'" "redo env0 (filter writes L) s = Some (graft s s')"
    by (auto simp: feeds_def repeats_change_def)
  have "length args \<le> vector_max_size" if "args \<in> set L" for args
    using length_enc [of args] enc_member [OF that] assms(4) by (simp add: vector_max_size_def)
  moreover have "length (concat (map enc L)) < u64_modulus" "concat chunks = concat (map enc L)"
    using assms(4,5) by (simp_all add: enc_all_def u64_modulus_def)
  ultimately have "feed_chunks [] chunks = (L, [], None)"
    using resp_framing.feed_chunking [of L "[]" chunks, folded enc_def] by (simp add: parse_command_eq)
  then have "feed_chunks (buffer_at rv m) chunks = (L, [], None)" using assms(9) by simp
  then obtain rv' where "master_recv w j m (map Received chunks) rv = Inr rv'" "following m rv'" "buffer_at rv' m = []"
      "same_data (db rv') (graft s s')"
    using master_recv_follows [OF assms(6) _ _ assms(3,7,8,2) l(2), of chunks "[]" j] assms(1) by (auto simp: feeds_def)
  with l(1) show ?thesis using same_data_trans [OF _ same_data_grafted] by blast
qed

section \<open>Properties\<close>

text \<open>C3: Replicas follow. A server without a master runs for any number of turns, with any clients,
  transactions, blocked pops and failing connections. A connection that is registered as a
  replica at the end, and was sent no answer on the way (registering is answered, so it was a
  replica all the time), has been streamed encoded commands. Another server that held the same
  data at the beginning and reads those bytes from its master, however they are cut into
  pieces, holds the same data as the first one at the end, and is ready for the next command;
  given that no key has a lifetime and no command carries one or asks for a generated stream
  identifier, that the other server keeps no log of its own, and that fewer than \<open>2 ^ 58\<close> bytes
  were streamed.\<close>

theorem connected_replica_follows:
  assumes "turns w sv0 sv" "rests sv0" "master_fd sv0 < 0" "lasting (db sv0)"
    and "hcontains (replicas sv) r" "silent_since (outbox sv0) r sv"
    and "same_library env0 (world_env w)" "same_library env0 (world_env w')"
    and "following m rv" "same_data (db rv) (db sv0)" "buffer_at rv m = []"
  shows "\<exists>L. stream_to r sv = stream_to r sv0 @ enc_all L \<and>
     (\<forall>chunks. list_all timeless L \<and> length (enc_all L) < 2 ^ 58 \<and> concat chunks = enc_all L \<longrightarrow>
        lasting (db sv) \<and>
        (\<exists>rv'. master_recv w' j m (map Received chunks) rv = Inr rv' \<and> same_data (db rv') (db sv)
           \<and> following m rv' \<and> buffer_at rv' m = []))"
proof -
  have "linked env0 r sv0 sv" by (rule turns_linked [OF assms(1,7,2,3)])
  with assms(5,6) obtain L where "stream_to r sv = stream_to r sv0 @ enc_all L" "feeds env0 L (db sv0) (db sv)"
    by (auto simp: linked_def)
  with feeds_followed [OF _ assms(4) _ _ _ assms(8-11)] show ?thesis by blast
qed

text \<open>
  A concrete run: two connections, one of which registers as a replica; then the other pushes
  to a list and sets a string, and the replica reads its stream in two pieces.
\<close>

definition sample_link_world :: world where
  "sample_link_world = sample_quick_world\<lparr>world_sends := (\<lambda>_. [Sent 200])\<rparr>"

definition sample_joined :: "server run" where
  "sample_joined = then_do
     (poll_turn sample_link_world 0
        [\<lparr>ev_in = True, ev_error = False, ev_accepts = [Accepted 5 True, Accepted 6 True], ev_recvs = []\<rparr>]
        (run_start 3 (- 1) 0 sample_started))
     (poll_turn sample_link_world 0
        [\<lparr>ev_in = False, ev_error = False, ev_accepts = [], ev_recvs = []\<rparr>,
         \<lparr>ev_in = False, ev_error = False, ev_accepts = [], ev_recvs = []\<rparr>,
         \<lparr>ev_in = True, ev_error = False, ev_accepts = [], ev_recvs = [Received (enc [''PSYNC'', ''?'', ''-1''])]\<rparr>])"

definition sample_pushes :: "event list" where
  "sample_pushes =
     [\<lparr>ev_in = False, ev_error = False, ev_accepts = [], ev_recvs = []\<rparr>,
      \<lparr>ev_in = True, ev_error = False, ev_accepts = [],
       ev_recvs = [Received (enc_all [[''RPUSH'', ''k'', ''a''], [''SET'', ''s'', ''x'']])]\<rparr>]"

definition sample_followed :: "server run" where
  "sample_followed = then_do sample_joined (poll_turn sample_link_world 0 sample_pushes)"

definition sample_replica_server :: server where
  "sample_replica_server = run_start 3 4 0 (new_store, new_Aof, [])"

definition sample_sent :: "args list" where
  "sample_sent = [[''RPUSH'', ''k'', ''a''], [''SET'', ''s'', ''x'']]"

lemma sample_joined_run:
  "case sample_joined of Inl _ \<Rightarrow> False
   | Inr sv0 \<Rightarrow> Expirations (db sv0) = [] \<and> Storage (db sv0) = [] \<and> DynamicVector (db sv0) = [] \<and> Streams (db sv0) = []
       \<and> sorted_sets (db sv0) = [] \<and> stream_to 6 sv0 = []
       \<and> length (outbox sv0) = 1"
  by code_simp

lemma sample_followed_run:
  "case sample_followed of Inl _ \<Rightarrow> False
   | Inr sv \<Rightarrow> hcontains (replicas sv) 6 \<and> list_all (\<lambda>(c, lane, b). c \<noteq> 6 \<or> lane \<noteq> Answer) (drop 1 (outbox sv))
       \<and> stream_to 6 sv = enc_all sample_sent
       \<and> hget (DynamicVector (db sv)) ''k'' = Some [''a''] \<and> hget (Storage (db sv)) ''s'' = Some ''x''"
  by code_simp

lemma sample_start_rests:
  "rests (run_start 3 (- 1) 0 sample_started)" "master_fd (run_start 3 (- 1) 0 sample_started) < 0"
proof -
  have "queued_ok (run_start 3 (- 1) 0 sample_started)" "hmap_ok (replicas (run_start 3 (- 1) 0 sample_started))"
    by (auto simp: queued_ok_def client_at_def run_start_def sample_started_def hget_def new_client_def)
  moreover have "db (run_start 3 (- 1) 0 sample_started) = store_init (\<lambda>_. 0) (default_config ''/data'') new_store"
    by (simp add: run_start_def sample_started_def)
  ultimately show "rests (run_start 3 (- 1) 0 sample_started)" by (simp add: rests_def store_init_fresh)
  show "master_fd (run_start 3 (- 1) 0 sample_started) < 0" by (simp add: run_start_def sample_started_def)
qed

lemma poll_turns: "poll_turn w now evs sv = Inr sv' \<Longrightarrow> turns w sv sv'"
  by (rule turns.polled_turn [OF turns.here])

theorem connected_replica_follows_witness:
  "\<exists>sv rv'. sample_followed = Inr sv \<and> stream_to 6 sv = enc_all sample_sent
     \<and> master_recv sample_link_world 1 4 [Received (take 9 (enc_all sample_sent)), Received (drop 9 (enc_all sample_sent))]
         sample_replica_server = Inr rv'
     \<and> hget (DynamicVector (db rv')) ''k'' = Some [''a''] \<and> hget (Storage (db rv')) ''s'' = Some ''x''"
proof -
  let ?rv = sample_replica_server and ?start = "run_start 3 (- 1) 0 sample_started"
  obtain sv0 sv where run: "sample_joined = Inr sv0" "sample_followed = Inr sv"
    using sample_joined_run sample_followed_run by (auto split: sum.splits)
  note facts = sample_joined_run [unfolded run sum.case] sample_followed_run [unfolded run sum.case]
  have here: "lasting (db sv0)" "stream_to 6 sv0 = []" "same_data (db ?rv) (db sv0)" "hcontains (replicas sv) 6"
      "stream_to 6 sv = enc_all sample_sent" "hget (DynamicVector (db sv)) ''k'' = Some [''a'']" "hget (Storage (db sv)) ''s'' = Some ''x''"
    using facts by (auto simp: lasting_def same_data_def sample_replica_server_def run_start_def new_store_def)
  have quiet: "silent_since (outbox sv0) 6 sv"
    using facts by (auto simp: silent_since_def list_all_iff)
  have lib: "same_library sample_env (world_env sample_link_world)" by (simp add: same_library_def sample_link_world_def sample_quick_world_def sample_world_def)
  obtain sv1 where "turns sample_link_world ?start sv1" "turns sample_link_world sv1 sv0"
    using run(1) poll_turns unfolding sample_joined_def then_do_Inr by blast
  then have rest: "rests sv0" "master_fd sv0 < 0"
    using turns_linked [OF _ lib, of ?start sv1] turns_linked [OF _ lib, of sv1 sv0] sample_start_rests
    by (auto simp: linked_def)
  have turn: "turns sample_link_world sv0 sv"
    by (rule poll_turns [of _ 0 sample_pushes]) (use run(2) [unfolded sample_followed_def run(1)] in simp)
  have rv: "following 4 ?rv" "buffer_at ?rv 4 = []"
    by (simp_all add: sample_replica_server_def run_start_def following_def client_at_def buffer_at_def hget_def
        new_client_def new_store_def lasting_def new_Aof_def)
  obtain L where L: "stream_to 6 sv = stream_to 6 sv0 @ enc_all L"
    "\<And>chunks. list_all timeless L \<and> length (enc_all L) < 2 ^ 58 \<and> concat chunks = enc_all L \<Longrightarrow>
      \<exists>rv'. master_recv sample_link_world 1 4 (map Received chunks) ?rv = Inr rv' \<and> same_data (db rv') (db sv)"
    using connected_replica_follows [OF turn rest here(1,4) quiet lib lib rv(1) here(3) rv(2), of 1] by blast
  have "L = sample_sent" using L(1) here(2,5) by (intro enc_all_inj) simp
  moreover have "list_all timeless sample_sent" "length (enc_all sample_sent) = 56" by code_simp+
  ultimately obtain rv' where "master_recv sample_link_world 1 4 (map Received [take 9 (enc_all sample_sent), drop 9 (enc_all sample_sent)]) ?rv = Inr rv'"
      "same_data (db rv') (db sv)"
    using L(2) [of "[take 9 (enc_all sample_sent), drop 9 (enc_all sample_sent)]"] by auto
  with run(2) here(5-7) show ?thesis by (auto simp: same_data_def)
qed

end
