(* ===== verification/Server_Replica.thy ===== *)
theory Server_Replica
  imports Server_Records
begin

text \<open>
  The replica's side: the handshake of \<open>Server::connect_to_master\<close>
  (\<open>src/src/server/server.cpp\<close>) against what the master's \<open>PSYNC\<close> answers, and the offset a
  replica reports, which counts the bytes of the stream it has processed.
\<close>

section \<open>The handshake\<close>

text \<open>
  Which calls succeed, and the results of the four sends. The bytes the master sends are an
  input; it ends where the connection ends or a read fails.
\<close>

record handshake_calls =
  resolve_ok :: bool
  hs_socket_ok :: bool
  connect_ok :: bool
  hs_sends :: "nat \<Rightarrow> send_result list"
  hs_nonblocking_ok :: bool

text \<open>A request and the line that answers it; \<open>None\<close> when the handshake gives up.\<close>

definition exchange :: "send_result list \<Rightarrow> args \<Rightarrow> bytes \<Rightarrow> (bytes \<times> bytes) option" where
  "exchange sends args input =
     (if \<not> snd (send_all sends (to_bytes (Array args))) then None
      else case read_line input of (line, input) \<Rightarrow> if line = [] then None else Some (line, input))"

text \<open>The text after the last space.\<close>

fun after_last_space :: "string \<Rightarrow> string option" where
  "after_last_space [] = None"
| "after_last_space (ch # t) =
     (case after_last_space t of
        Some r \<Rightarrow> Some r
      | None \<Rightarrow> if ch = CHR '' '' then Some t else None)"

definition announced_offset :: "string \<Rightarrow> int \<Rightarrow> int" where
  "announced_offset fullresync initial =
     (case after_last_space fullresync of
        None \<Rightarrow> initial
      | Some t \<Rightarrow> (case stoll t of Inl _ \<Rightarrow> 0 | Inr v \<Rightarrow> v))"

text \<open>
  The snapshot: a header with its length, then that many bytes, which are dropped. A
  negative length asks for a string longer than \<open>max_size\<close> and throws.
\<close>

definition read_snapshot :: "bytes \<Rightarrow> bytes option res" where
  "read_snapshot input =
     (case read_line input of
        (header, input) \<Rightarrow>
          if header = [] \<or> hd header \<noteq> CHR ''$'' then Inr None
          else case stoll (tl header) of
            Inl _ \<Rightarrow> Inr None
          | Inr len \<Rightarrow>
              if len < 0 then Inl LengthError
              else if length input < nat len then Inr None
              else Inr (Some (drop (nat len) input)))"

text \<open>The four requests of the handshake.\<close>

definition greetings :: "Config \<Rightarrow> args list" where
  "greetings config =
     [[''PING''], [''REPLCONF'', ''listening-port'', to_string_int (cfg_port config)],
      [''REPLCONF'', ''capa'', ''psync2''], [''PSYNC'', ''?'', ''-1'']]"

text \<open>
  The whole handshake: the initial offset it leaves, and, when the connection is
  established, the bytes that follow the snapshot.
\<close>

definition connect_to_master :: "handshake_calls \<Rightarrow> Config \<Rightarrow> bytes \<Rightarrow> (int \<times> bytes option) res" where
  "connect_to_master calls config input =
     (if \<not> (resolve_ok calls \<and> hs_socket_ok calls \<and> connect_ok calls) then Inr (0, None)
      else case exchange (hs_sends calls 0) (greetings config ! 0) input of None \<Rightarrow> Inr (0, None)
      | Some (_, input) \<Rightarrow>
     (case exchange (hs_sends calls 1) (greetings config ! 1) input of None \<Rightarrow> Inr (0, None)
      | Some (_, input) \<Rightarrow>
     (case exchange (hs_sends calls 2) (greetings config ! 2) input of None \<Rightarrow> Inr (0, None)
      | Some (_, input) \<Rightarrow>
     (case exchange (hs_sends calls 3) (greetings config ! 3) input of None \<Rightarrow> Inr (0, None)
      | Some (fullresync, input) \<Rightarrow>
          (let offset = announced_offset fullresync 0
           in case read_snapshot input of
                Inl e \<Rightarrow> Inl e
              | Inr None \<Rightarrow> Inr (offset, None)
              | Inr (Some rest) \<Rightarrow>
                  if hs_nonblocking_ok calls then Inr (offset, Some rest) else Inr (offset, None))))))"

section \<open>The handshake meets the master's answer\<close>

lemma strto_parts_int_append:
  assumes "rest = [] \<or> \<not> is_digit (hd rest)"
  shows "strto_parts (to_string_int i @ rest) = Some (i < 0, nat \<bar>i\<bar>)"
proof -
  have digits: "takeWhile is_digit (to_string_nat n @ rest) = to_string_nat n" for n
    using assms to_string_nat_digits [of n] by (cases rest) (auto simp: takeWhile_append list_all_iff)
  have nat_case: "strto_parts (to_string_nat n @ rest) = Some (False, n)" for n
  proof -
    have h: "is_digit (hd (to_string_nat n))" by (rule hd_to_string_nat)
    obtain ch r where cr: "to_string_nat n = ch # r" by (cases "to_string_nat n") auto
    with h have "is_digit ch" by simp
    then have "\<not> is_space ch" "ch \<noteq> CHR ''-''" "ch \<noteq> CHR ''+''" by (auto simp: is_digit_not_space)
    with digits [of n] digits_val_to_string_nat [of n] show ?thesis by (simp add: strto_parts_def cr Let_def)
  qed
  show ?thesis
  proof (cases "i < 0")
    case True
    have "\<not> is_space CHR ''-''" by (simp add: is_space_def)
    with True digits show ?thesis by (simp add: to_string_int_def strto_parts_def text_simps)
  next
    case False
    with nat_case show ?thesis by (simp add: to_string_int_def)
  qed
qed

lemma stoll_line: "- (2 ^ 63) \<le> i \<Longrightarrow> i < 2 ^ 63 \<Longrightarrow> stoll (to_string_int i @ crlf) = Inr i"
  using strto_parts_int_append [of crlf i]
  by (simp add: stoll_def strto_value_def crlf_def is_digit_def)

lemma no_space_int: "CHR '' '' \<notin> set (to_string_int i)"
proof -
  have "\<not> is_digit (CHR '' '')" by (simp add: is_digit_def)
  then have "CHR '' '' \<notin> set (to_string_nat n)" for n using to_string_nat_digits [of n] by (auto simp: list_all_iff)
  then show ?thesis by (simp add: to_string_int_def)
qed

lemma after_last_space_none: "CHR '' '' \<notin> set t \<Longrightarrow> after_last_space t = None"
  by (induction t) auto

lemma after_last_space_append: "CHR '' '' \<notin> set t \<Longrightarrow> after_last_space (s @ '' '' @ t) = Some t"
  by (induction s) (simp_all add: after_last_space_none)

lemma exchange_line:
  "snd (send_all sends (to_bytes (Array args))) \<Longrightarrow> CR \<notin> set line \<Longrightarrow>
     exchange sends args (line @ crlf @ rest) = Some (line @ crlf, rest)"
  using read_line_takes [of line rest] by (simp add: exchange_def crlf_def)

lemma no_CR_nat: "CR \<notin> set (to_string_nat n)"
proof -
  have "\<not> is_digit CR" by (simp add: is_digit_def)
  then show ?thesis using to_string_nat_digits [of n] by (auto simp: list_all_iff)
qed

lemma read_snapshot_exact:
  assumes "length snapshot < 2 ^ 63"
  shows "read_snapshot (''$'' @ to_string_nat (length snapshot) @ crlf @ snapshot @ rest) = Inr (Some rest)"
proof -
  have "read_line ((''$'' @ to_string_nat (length snapshot)) @ crlf @ snapshot @ rest)
      = ((''$'' @ to_string_nat (length snapshot)) @ crlf, snapshot @ rest)"
    by (rule read_line_takes) (simp add: no_CR_nat)
  moreover have "stoll (to_string_nat (length snapshot) @ crlf) = Inr (int (length snapshot))"
    using stoll_line [of "int (length snapshot)"] assms by (simp add: to_string_int_def)
  ultimately show ?thesis by (simp add: read_snapshot_def)
qed

lemma announced_offset_exact:
  "- (2 ^ 63) \<le> i \<Longrightarrow> i < 2 ^ 63 \<Longrightarrow> announced_offset (s @ '' '' @ to_string_int i @ crlf) n = i"
  using after_last_space_append [of "to_string_int i @ crlf" s] stoll_line [of i] no_space_int [of i]
  by (simp add: announced_offset_def crlf_def)

text \<open>C38: A replica starts where its master stands. When the four requests of the handshake go
  out, the first three are answered by a line each, and the answer to the last is what the
  master's \<open>PSYNC\<close> handler prints, the connection is established with the master's current
  replication offset as the initial offset, and the bytes read next are exactly those the
  master sends after the snapshot.\<close>

theorem handshake_starts_at_masters_offset:
  assumes "resolve_ok calls" "hs_socket_ok calls" "connect_ok calls" "hs_nonblocking_ok calls"
    and "\<And>n. n < 4 \<Longrightarrow> snd (send_all (hs_sends calls n) (to_bytes (Array (greetings config ! n))))"
    and "CR \<notin> set (l1 @ l2 @ l3 @ master_replid s)"
    and "- (2 ^ 63) \<le> master_repl_offset s" "master_repl_offset s < 2 ^ 63"
  shows "connect_to_master calls config
       (l1 @ crlf @ l2 @ crlf @ l3 @ crlf @ snd (handle_psync s args) @ stream)
     = Inr (master_repl_offset s, Some stream)"
proof -
  let ?snapshot = "hex_to_bytes kEmptyRdbHex"
  let ?line = "''+FULLRESYNC '' @ master_replid s @ '' '' @ to_string_int (master_repl_offset s)"
  have reply: "snd (handle_psync s args) @ stream
      = ?line @ crlf @ ''$'' @ to_string_nat (length ?snapshot) @ crlf @ ?snapshot @ stream"
    by (simp add: handle_psync_def Let_def to_bytes.simps)
  have no_CR: "CR \<notin> set ?line" using assms(6) no_CR_nat by (auto simp: to_string_int_def)
  have "length ?snapshot < 2 ^ 63" by code_simp
  then have snap: "read_snapshot (''$'' @ to_string_nat (length ?snapshot) @ crlf @ ?snapshot @ stream) = Inr (Some stream)"
    by (rule read_snapshot_exact)
  have off: "announced_offset (?line @ crlf) 0 = master_repl_offset s"
    using announced_offset_exact [OF assms(7,8), of "''+FULLRESYNC '' @ master_replid s" 0] by simp
  have lines: "CR \<notin> set l1" "CR \<notin> set l2" "CR \<notin> set l3" using assms(6) by auto
  have ex: "exchange (hs_sends calls n) (greetings config ! n) (line @ crlf @ rest) = Some (line @ crlf, rest)"
    if "n < 4" "CR \<notin> set line" for n line rest
    using exchange_line [OF assms(5) [OF that(1)] that(2)] .
  show ?thesis
    unfolding reply connect_to_master_def
    using assms(1-4) ex [of 0, OF _ lines(1)] ex [of 1, OF _ lines(2)] ex [of 2, OF _ lines(3)]
      ex [of 3, OF _ no_CR] snap off
    by simp
qed

definition sample_handshake :: handshake_calls where
  "sample_handshake = \<lparr>resolve_ok = True, hs_socket_ok = True, connect_ok = True,
     hs_sends = (\<lambda>_. [Sent 7, SendInterrupted, Sent 4096]), hs_nonblocking_ok = True\<rparr>"

theorem handshake_starts_at_masters_offset_witness:
  "connect_to_master sample_handshake (default_config ''/data'')
       (''+PONG'' @ crlf @ ''+OK'' @ crlf @ ''+OK'' @ crlf
          @ snd (handle_psync (new_store\<lparr>master_replid := ''8371b4'', master_repl_offset := 42\<rparr>) [])
          @ enc [''RPUSH'', ''k'', ''a''])
     = Inr (42, Some (enc [''RPUSH'', ''k'', ''a'']))"
proof -
  have sends: "snd (send_all (hs_sends sample_handshake n) (to_bytes (Array (greetings (default_config ''/data'') ! n))))"
    if "n < 4" for n
  proof -
    from that consider "n = 0" | "n = 1" | "n = 2" | "n = 3" by linarith
    then show ?thesis by cases (simp_all, code_simp+)
  qed
  show ?thesis
    using handshake_starts_at_masters_offset [of sample_handshake "default_config ''/data''" "''+PONG''" "''+OK''" "''+OK''"
        "new_store\<lparr>master_replid := ''8371b4'', master_repl_offset := 42\<rparr>" "[]" "enc [''RPUSH'', ''k'', ''a'']"]
      sends
    by (simp add: sample_handshake_def)
qed

section \<open>The offset of a replica\<close>

text \<open>Recording touches neither the offset nor the buffers nor the connection to the master.\<close>

definition stands_at :: "int \<Rightarrow> (int, bytes) hmap \<Rightarrow> int \<Rightarrow> server \<Rightarrow> bool" where
  "stands_at offset bs m sv \<longleftrightarrow> replica_offset sv = offset \<and> buffers sv = bs \<and> master_fd sv = m"

interpretation at_offset: queueing "stands_at offset bs m" c for offset bs m c
  by unfold_locales (simp_all add: stands_at_def send_to_def case_prod_beta note_offset_def put_client_def)

lemma master_command_offset:
  assumes "master_command w c args consumed sv = Inr sv'"
  shows "replica_offset sv' = wrap_s64 (replica_offset sv + int consumed) \<and> buffers sv' = buffers sv
     \<and> master_fd sv' = master_fd sv"
proof (cases "is_getack args")
  case True
  with assms show ?thesis by (auto simp: master_command_def advance_offset_def send_to_def case_prod_beta)
next
  case False
  let ?m = "in_multi (client_at sv c)"
  let ?S = "stands_at (wrap_s64 (replica_offset sv + int consumed)) (buffers sv) (master_fd sv)"
  obtain sv1 response where r: "run_command w c args (advance_offset consumed sv) = (sv1, response)" by fastforce
  then have 1: "?S sv1"
    by (auto simp: stands_at_def run_command_def put_client_def advance_offset_def split: prod.splits)
  obtain sv2 sv3 where 3: "log_write w args ?m response sv1 = Inr sv2"
      "log_pending w ?m (pending_propagations (db sv2)) (sv2\<lparr>db := (db sv2)\<lparr>pending_propagations := []\<rparr>\<rparr>) = Inr sv3"
      "sv' = sv3\<lparr>db := (db sv3)\<lparr>pending_block := None\<rparr>\<rparr>"
    using assms False
    by (auto simp: master_command_def Let_def r then_do_Inr take_pending_propagations_def take_pending_block_def)
  have "?S sv2" using 3(1) at_offset.log_command [OF 1] 1 by (auto simp: log_write_def split: if_splits)
  from at_offset.log_pending [OF at_offset.takes [OF this] 3(2)] 3(3) show ?thesis by (simp add: stands_at_def)
qed

text \<open>Processed and unread bytes together: what has arrived, counted from the initial offset.\<close>

definition arrived :: "int \<Rightarrow> server \<Rightarrow> int" where
  "arrived c sv = replica_offset sv + int (length (buffer_at sv c))"

definition counted :: "int \<Rightarrow> int \<Rightarrow> int \<Rightarrow> bool" where
  "counted n a b \<longleftrightarrow> (b - a - n) mod 2 ^ 64 = 0"

lemma counted_trans: "counted m a b \<Longrightarrow> counted n b d \<Longrightarrow> counted (m + n) a d"
  unfolding counted_def by (smt (verit) dvd_add mod_eq_0_iff_dvd)

lemma master_drain_counts:
  "master_drain w i c sv = Inr (sv', go) \<Longrightarrow>
     (go \<longrightarrow> counted 0 (arrived c sv) (arrived c sv') \<and> parse_command (buffer_at sv' c) = Inr None \<and> master_fd sv' = master_fd sv)
     \<and> (\<not> go \<longrightarrow> master_fd sv' = - 1)"
proof (induction "length (buffer_at sv c)" arbitrary: sv rule: less_induct)
  case less
  show ?case
  proof (cases "parse_command (buffer_at sv c)")
    case (Inl e)
    with less.prems show ?thesis by (cases e) (auto simp: master_drain.simps [of w i c sv] lose_master_def)
  next
    case (Inr x)
    show ?thesis
    proof (cases x)
      case None
      with Inr less.prems show ?thesis by (auto simp: master_drain.simps [of w i c sv] counted_def)
    next
      case (Some p)
      obtain args consumed where p: "p = (args, consumed)" by fastforce
      let ?sv = "put_buffer c (drop consumed (buffer_at sv c)) sv"
      obtain sv1 where mc: "master_command w c args consumed ?sv = Inr sv1" "master_drain w i c sv1 = Inr (sv', go)"
        using less.prems Inr Some p by (auto simp: master_drain.simps [of w i c sv] split: sum.splits)
      have parsed: "parse_command (buffer_at sv c) = Inr (Some (args, consumed))" using Inr Some p by simp
      have len: "consumed \<le> length (buffer_at sv c)" "4 \<le> consumed" by (rule parse_command_consumes [OF parsed])+
      have 1: "replica_offset sv1 = wrap_s64 (replica_offset sv + int consumed)"
          "buffer_at sv1 c = drop consumed (buffer_at sv c)" "master_fd sv1 = master_fd sv"
        using master_command_offset [OF mc(1)] by (auto simp: put_buffer_def buffer_at_def)
      then have "counted 0 (arrived c sv) (arrived c sv1)"
        using len wrap_s64_mod [of "replica_offset sv + int consumed"] by (simp add: arrived_def counted_def of_nat_diff algebra_simps)
      moreover have "length (buffer_at sv1 c) < length (buffer_at sv c)" using 1(2) len by simp
      ultimately show ?thesis
        using less.hyps [of sv1] mc(2) 1(3) counted_trans [of 0 "arrived c sv" "arrived c sv1" 0] by auto
    qed
  qed
qed

text \<open>C39: A replica's offset counts the stream. However the bytes of the master arrive, and
  whatever they contain, as long as the connection is up: the offset plus the bytes still
  unread has grown by exactly the bytes received (modulo 64 bits), what is unread is less
  than one request, and the store reports the same offset to replicas of this replica. So the
  offset a replica acknowledges is the initial offset plus the length of the stream it has
  executed.\<close>

theorem replica_offset_counts_stream:
  assumes "master_recv w i c (map Received chunks) sv = Inr sv'" "master_fd sv' \<noteq> - 1" "chunks \<noteq> []"
  shows "counted (int (length (concat chunks))) (arrived c sv) (arrived c sv')
     \<and> parse_command (buffer_at sv' c) = Inr None \<and> master_repl_offset (db sv') = replica_offset sv'"
  using assms
proof (induction chunks arbitrary: sv)
  case (Cons chunk chunks)
  let ?sv = "put_buffer c (buffer_at sv c @ chunk) sv"
  obtain sv1 go where d: "master_drain w i c ?sv = Inr (sv1, go)"
      "(if go then master_recv w i c (map Received chunks) (publish_offset sv1) else Inr (publish_offset sv1)) = Inr sv'"
    using Cons.prems(1) by (auto simp: then_do_Inr)
  have frame: "master_fd (publish_offset sv1) = master_fd sv1" "arrived c (publish_offset sv1) = arrived c sv1"
      "buffer_at (publish_offset sv1) c = buffer_at sv1 c"
      "master_repl_offset (db (publish_offset sv1)) = replica_offset (publish_offset sv1)"
    by (simp_all add: publish_offset_def set_repl_offset_def arrived_def buffer_at_def)
  have go: go using master_drain_counts [OF d(1)] d(2) Cons.prems(2) frame(1) by (cases go) auto
  have "counted (int (length chunk)) (arrived c sv) (arrived c ?sv)"
    by (simp add: counted_def arrived_def put_buffer_def buffer_at_def)
  then have 1: "counted (int (length chunk)) (arrived c sv) (arrived c (publish_offset sv1))"
    using counted_trans [of "int (length chunk)" "arrived c sv" "arrived c ?sv" 0 "arrived c sv1"]
      master_drain_counts [OF d(1)] go frame(2) by simp
  show ?case
  proof (cases "chunks = []")
    case True
    with d(2) go 1 frame master_drain_counts [OF d(1)] show ?thesis by simp
  next
    case False
    with Cons.IH [of "publish_offset sv1"] d(2) go Cons.prems(2) counted_trans [OF 1]
    show ?thesis by simp
  qed
qed simp

definition sample_replica :: server where
  "sample_replica = run_start 3 4 42 sample_started"

theorem replica_offset_counts_stream_witness:
  "\<exists>sv'. master_recv sample_world 1 4 (map Received [take 9 (enc [''INCR'', ''k'']), drop 9 (enc [''INCR'', ''k'']) @ ''*3'']) sample_replica
       = Inr sv'
     \<and> counted 23 (arrived 4 sample_replica) (arrived 4 sv') \<and> master_repl_offset (db sv') = replica_offset sv'"
proof -
  let ?chunks = "[take 9 (enc [''INCR'', ''k'']), drop 9 (enc [''INCR'', ''k'']) @ ''*3'']"
  let ?r = "master_recv sample_world 1 4 (map Received ?chunks) sample_replica"
  have "case ?r of Inl _ \<Rightarrow> False | Inr sv' \<Rightarrow> master_fd sv' \<noteq> - 1" by code_simp
  then obtain sv' where sv': "?r = Inr sv'" "master_fd sv' \<noteq> - 1" by (cases ?r) auto
  have "length (enc [''INCR'', ''k'']) = 21" by code_simp
  with replica_offset_counts_stream [OF sv'] sv'(1) show ?thesis by auto
qed

text \<open>A master that announces a snapshot of length -1 makes the handshake throw.\<close>

lemma negative_snapshot_throws: "read_snapshot (''$-1'' @ crlf @ rest) = Inl LengthError"
proof -
  have "read_line (''$-1'' @ crlf @ rest) = (''$-1'' @ crlf, rest)" by (rule read_line_takes) simp
  moreover have "stoll (''-1'' @ crlf) = Inr (- 1)" by code_simp
  ultimately show ?thesis by (simp add: read_snapshot_def)
qed

end
