(* ===== verification/Programs.thy ===== *)
theory Programs
  imports Server_Replica Server_Recovery
begin

text \<open>
  The two programs of the repository. \<open>src/src/main.cpp\<close> starts the server and enters the
  event loop; \<open>src/src/client/client.cpp\<close> with \<open>src/src/client_main.cpp\<close> is a client that
  sends one \<open>PING\<close> and prints the answer. The last section runs the client against the server.
\<close>

section \<open>The server program\<close>

text \<open>The results of \<open>poll\<close>: the time it returned and the events of the slots, an interrupt, or
  another failure, which ends the loop. The list ends where the next call has not returned.\<close>

datatype poll_result = PollReady int "event list" | PollInterrupted | PollFailed

text \<open>The loop of \<open>Server::run\<close>; the flag is true while it is still running.\<close>

fun event_loop :: "world \<Rightarrow> poll_result list \<Rightarrow> server \<Rightarrow> (server \<times> bool) run" where
  "event_loop w [] sv = Inr (sv, True)"
| "event_loop w (PollReady now evs # ps) sv = then_do (poll_turn w now evs sv) (event_loop w ps)"
| "event_loop w (PollInterrupted # ps) sv = then_do (log_sync w sv) (event_loop w ps)"
| "event_loop w (PollFailed # ps) sv = then_do (log_sync w sv) (\<lambda>sv. Inr (sv, False))"

text \<open>\<open>main\<close>: still running, inside a call that has not returned, or ended with a status.\<close>

datatype outcome = Running server | Suspended | Exited int

record server_calls =
  sc_start :: start_calls
  sc_listener :: int
  sc_handshake :: handshake_calls
  sc_master_input :: bytes
  sc_master_fd :: int
  sc_world :: world
  sc_polls :: "poll_result list"

definition server_run :: "server_calls \<Rightarrow> Config \<Rightarrow> store \<times> Aof \<times> disk \<Rightarrow> (server \<times> bool) run" where
  "server_run calls config booted =
     (case (if cfg_is_replica config then connect_to_master (sc_handshake calls) config (sc_master_input calls)
            else Inr (0, None)) of
        Inl e \<Rightarrow> Inl (Threw e)
      | Inr (offset, conn) \<Rightarrow>
          event_loop (sc_world calls) (sc_polls calls)
            (run_start (sc_listener calls) (if conn = None then - 1 else sc_master_fd calls) offset booted))"

definition server_main :: "server_calls \<Rightarrow> string \<Rightarrow> string list \<Rightarrow> disk \<Rightarrow> outcome" where
  "server_main calls cwd argv d =
     (let config = parse_args cwd argv
      in case server_start (sc_start calls) config d of
           None \<Rightarrow> Exited 1
         | Some booted \<Rightarrow>
             (case server_run calls config booted of
                Inl (Threw e) \<Rightarrow> Exited 1
              | Inl Waiting \<Rightarrow> Suspended
              | Inr (sv, True) \<Rightarrow> Running sv
              | Inr (sv, False) \<Rightarrow> Exited 0))"

text \<open>The states of the loop are exactly those reached by turns.\<close>

lemma event_loop_append:
  "event_loop w (ps @ qs) sv = then_do (event_loop w ps sv) (\<lambda>(sv, go). if go then event_loop w qs sv else Inr (sv, False))"
  by (induction w ps sv rule: event_loop.induct) (auto simp: then_do_def split: sum.split)

lemma event_loop_turns: "turns w sv0 sv \<longleftrightarrow> (\<exists>ps. event_loop w ps sv0 = Inr (sv, True))"
proof
  show "turns w sv0 sv \<Longrightarrow> \<exists>ps. event_loop w ps sv0 = Inr (sv, True)"
  proof (induction rule: turns.induct)
    case here
    show ?case by (rule exI [of _ "[]"]) simp
  next
    case (interrupted_turn sv sv')
    then obtain ps where "event_loop w ps sv0 = Inr (sv, True)" by blast
    with interrupted_turn(2) have "event_loop w (ps @ [PollInterrupted]) sv0 = Inr (sv', True)"
      by (simp add: event_loop_append)
    then show ?case by blast
  next
    case (polled_turn sv now evs sv')
    then obtain ps where "event_loop w ps sv0 = Inr (sv, True)" by blast
    with polled_turn(2) have "event_loop w (ps @ [PollReady now evs]) sv0 = Inr (sv', True)"
      by (simp add: event_loop_append)
    then show ?case by blast
  qed
next
  have "turns w sv0 sv \<Longrightarrow> event_loop w ps sv = Inr (sv', True) \<Longrightarrow> turns w sv0 sv'" for ps sv sv'
    by (induction w ps sv rule: event_loop.induct) (auto simp: then_do_Inr intro: turns.intros)
  then show "\<exists>ps. event_loop w ps sv0 = Inr (sv, True) \<Longrightarrow> turns w sv0 sv" using turns.here by blast
qed

section \<open>The PING client\<close>

record PingClient =
  client_port :: int
  client_fd :: int

definition new_PingClient :: "int \<Rightarrow> PingClient" where
  "new_PingClient port = \<lparr>client_port = port, client_fd = - 1\<rparr>"

text \<open>The results of the calls of the client: the descriptor \<open>socket\<close> returns, what
  \<open>inet_pton\<close> and \<open>connect\<close> return, and the results of one \<open>send\<close> and one \<open>recv\<close>.\<close>

record client_calls =
  cc_socket :: int
  cc_pton :: int
  cc_connect :: int
  cc_send :: send_result
  cc_recv :: recv_result

text \<open>\<open>Client::start\<close>, with the text it writes to the standard error.\<close>

definition client_start :: "client_calls \<Rightarrow> PingClient \<Rightarrow> PingClient \<times> string \<times> bool" where
  "client_start calls client =
     (let client = client\<lparr>client_fd := cc_socket calls\<rparr>
      in if client_fd client < 0 then (client, ''Failed to create client socket'' @ [LF], False)
         else if cc_pton calls \<le> 0 then (client, ''Invalid server address'' @ [LF], False)
         else if cc_connect calls < 0 then (client, ''Error: connection failed'' @ [LF], False)
         else (client, [], True))"

definition ping_message :: bytes where
  "ping_message = ''*1'' @ crlf @ ''$4'' @ crlf @ ''PING'' @ crlf"

text \<open>
  \<open>Client::run\<close>: the bytes that go out and the text it prints. Whatever \<open>send\<close> returns is
  ignored; the answer is printed as a C string from a zeroed buffer of 1024 bytes.
\<close>

definition client_run :: "client_calls \<Rightarrow> bytes \<times> string" where
  "client_run calls =
     (case cc_send calls of Sent n \<Rightarrow> take n ping_message | _ \<Rightarrow> [],
      case cc_recv calls of
        Received answer \<Rightarrow>
          if answer = [] then [] else takeWhile (\<lambda>ch. ch \<noteq> CHR 0x00) (take 1023 answer) @ [LF]
      | _ \<Rightarrow> [])"

definition client_closes :: "PingClient \<Rightarrow> int list" where
  "client_closes client = (if 0 \<le> client_fd client then [client_fd client] else [])"

record client_trace =
  ct_status :: int
  ct_sent :: bytes
  ct_out :: string
  ct_err :: string
  ct_closed :: "int list"

definition client_main :: "client_calls \<Rightarrow> client_trace" where
  "client_main calls =
     (case client_start calls (new_PingClient 6379) of
        (client, err, False) \<Rightarrow>
          \<lparr>ct_status = 1, ct_sent = [], ct_out = [], ct_err = err, ct_closed = client_closes client\<rparr>
      | (client, err, True) \<Rightarrow>
          (case client_run calls of
             (sent, out) \<Rightarrow>
               \<lparr>ct_status = 0, ct_sent = sent, ct_out = out, ct_err = err, ct_closed = client_closes client\<rparr>))"

section \<open>One request over a connection\<close>

lemma put_buffer_twice: "put_buffer c b (put_buffer c b' sv) = put_buffer c b sv"
  by (simp add: put_buffer_def hput_def)

lemma buffer_at_put [simp]: "buffer_at (put_buffer c b sv) c = b"
  by (simp add: buffer_at_def put_buffer_def)

lemma client_drain_idle: "parse_command (buffer_at sv c) = Inr None \<Longrightarrow> client_drain w i c sv = Inr (sv, True)"
  by (subst client_drain.simps) simp

text \<open>A buffer that holds one complete request: it runs once, and nothing is left.\<close>

lemma client_drain_request:
  assumes "parse_command (buffer_at sv c) = Inr (Some (args, length (buffer_at sv c)))"
  shows "client_drain w i c sv = client_command w i c args (put_buffer c [] sv)"
proof (cases "client_command w i c args (put_buffer c [] sv)")
  case (Inr r)
  obtain sv' go where r: "r = (sv', go)" by fastforce
  have "buffer_at sv' c = []"
    using client_command_buffer [of w i c args "put_buffer c [] sv" sv' go c] Inr r by simp
  then have "client_drain w i c sv' = Inr (sv', True)" by (intro client_drain_idle) (simp add: parse_command_eq)
  with Inr r assms show ?thesis by (subst client_drain.simps) simp
qed (use assms in \<open>subst client_drain.simps, simp\<close>)

text \<open>However a request is cut into the chunks \<open>recv\<close> returns, it runs exactly once.\<close>

lemma client_recv_request:
  assumes "length args \<le> vector_max_size" "length (command_bytes args) < u64_modulus"
    and "buffer_at sv c @ concat chunks = command_bytes args" "chunks \<noteq> []" "[] \<notin> set chunks"
  shows "client_recv w i c (map Received chunks) sv
    = then_do (client_command w i c args (put_buffer c [] sv)) (\<lambda>(sv, go). Inr sv)"
  using assms(3-5)
proof (induction chunks arbitrary: sv)
  case (Cons chunk chunks)
  let ?sv = "put_buffer c (buffer_at sv c @ chunk) sv"
  show ?case
  proof (cases "chunks = []")
    case True
    with Cons.prems have "parse_command (buffer_at ?sv c) = Inr (Some (args, length (buffer_at ?sv c)))"
      using parse_command_bytes [of args "[]"] assms(1,2) by simp
    with True show ?thesis by (simp add: client_drain_request put_buffer_twice then_do_def split: sum.split prod.split)
  next
    case False
    with Cons.prems have "concat chunks \<noteq> []" by (cases chunks) auto
    moreover have bytes: "command_bytes args = buffer_at ?sv c @ concat chunks" unfolding Cons.prems(1) [symmetric] by simp
    ultimately have "strict_prefix (buffer_at ?sv c) (command_bytes args)"
      unfolding bytes by (auto simp: strict_prefix_def)
    then have "client_drain w i c ?sv = Inr (?sv, True)"
      using parse_command_cut assms(1,2) by (intro client_drain_idle) blast
    moreover have "client_recv w i c (map Received chunks) ?sv
        = then_do (client_command w i c args (put_buffer c [] ?sv)) (\<lambda>(sv, go). Inr sv)"
      using Cons.prems False by (intro Cons.IH) simp_all
    ultimately show ?thesis by (simp add: put_buffer_twice)
  qed
qed simp

lemma ping_message_request: "ping_message = command_bytes [''PING'']"
  by code_simp

text \<open>A request that is not a write, answered in full to a connection that stays open.\<close>

definition pong :: bytes where
  "pong = to_bytes (SimpleString ''PONG'')"

lemma pong_bytes: "pong = ''+PONG'' @ crlf"
  by code_simp

lemma handle_ping_command:
  assumes "authenticated client" "subscriptions client = []" "\<not> in_multi client"
  shows "handle_command env [''PING''] s client = (s, client, Inr pong)"
proof -
  have "to_upper ''PING'' = ''PING''" by code_simp
  with assms show ?thesis
    by (simp add: handle_command_def dispatch_command_def handle_ping_def pong_def)
qed

lemma ping_not_recorded: "\<not> is_logged [''PING''] m r" "\<not> is_ack c [''PING''] sv"
  "register_replica c [''PING''] m r sv = sv"
proof -
  have u: "to_upper ''PING'' = ''PING''" by code_simp
  have "\<not> is_write_command ''PING''" by code_simp
  with u show "\<not> is_logged [''PING''] m r" "\<not> is_ack c [''PING''] sv" "register_replica c [''PING''] m r sv = sv"
    by (simp_all add: is_logged_def is_ack_def register_replica_def)
qed

definition quiet :: "store \<Rightarrow> bool" where
  "quiet s \<longleftrightarrow> pending_block s = None \<and> pending_propagations s = [] \<and> pending_messages s = []"

lemma quiet_updates:
  assumes "quiet s"
  shows "s\<lparr>pending_block := None\<rparr> = s" "s\<lparr>pending_propagations := []\<rparr> = s" "s\<lparr>pending_messages := []\<rparr> = s"
  using assms by (simp_all add: quiet_def)

lemma client_command_ping:
  assumes "authenticated (client_at sv c)" "subscriptions (client_at sv c) = []" "\<not> in_multi (client_at sv c)"
    and "\<not> close_after_reply (client_at sv c)" "0 \<le> fds sv ! i" "quiet (db sv)"
    and "snd (send_all (world_sends w (n_sends sv)) pong)"
  shows "\<exists>sv'. client_command w i c [''PING''] sv = Inr (sv', True) \<and> outbox sv' = outbox sv @ [(c, Answer, pong)]
     \<and> db sv' = db sv \<and> fds sv' = fds sv \<and> clients sv' = hput c (client_at sv c) (clients sv) \<and> buffers sv' = buffers sv
     \<and> aof sv' = aof sv \<and> disk_of sv' = disk_of sv \<and> n_logs sv' = n_logs sv \<and> server_fd sv' = server_fd sv
     \<and> master_fd sv' = master_fd sv \<and> waiters sv' = waiters sv \<and> replicas sv' = replicas sv \<and> replica_offset sv' = replica_offset sv"
proof -
  have "fst (send_all (world_sends w (n_sends sv)) pong) = pong"
    using assms(7) send_all_ok by (metis prod.collapse)
  then have sent: "send_all (world_sends w (n_sends sv)) pong = (pong, True)" using assms(7) by (metis prod.collapse)
  have "pong \<noteq> []" by (simp add: pong_bytes)
  with assms sent show ?thesis
    by (simp add: client_command_def ping_not_recorded run_command_def handle_ping_command record_write_def
        record_pending_def take_pending_propagations_def log_pending_def answer_command_def take_pending_block_def
        quiet_updates send_to_def finish_command_def deliver_messages_def take_pending_messages_def quiet_def
        put_client_def client_at_def)
qed

section \<open>The client meets the server\<close>

text \<open>The bytes the server sent to a connection as answers.\<close>

definition answers_to :: "int \<Rightarrow> (int \<times> lane \<times> bytes) list \<Rightarrow> bytes" where
  "answers_to c sent = concat (map (\<lambda>(_, _, b). b) (filter (\<lambda>(d, lane, _). d = c \<and> lane = Answer) sent))"

text \<open>Two servers that differ at most in the connection \<open>c\<close> and in what was sent.\<close>

definition same_but_connection :: "int \<Rightarrow> server \<Rightarrow> server \<Rightarrow> bool" where
  "same_but_connection c sv sv' \<longleftrightarrow> db sv' = db sv \<and> aof sv' = aof sv \<and> disk_of sv' = disk_of sv \<and> n_logs sv' = n_logs sv
     \<and> server_fd sv' = server_fd sv \<and> master_fd sv' = master_fd sv \<and> waiters sv' = waiters sv
     \<and> replicas sv' = replicas sv \<and> replica_offset sv' = replica_offset sv
     \<and> (\<forall>x. x \<noteq> c \<longrightarrow> hget (clients sv') x = hget (clients sv) x \<and> hget (buffers sv') x = hget (buffers sv) x)"

text \<open>C13: The PING client works against the server. A server without a password accepts the
  connection; the client's one request, however the network cuts it into pieces, is answered
  with exactly one PONG. Afterwards the connection is listed as an idle client with nothing in
  its buffer, and nothing else of the server has changed: not the data, the log, its file, the
  other connections, the blocked clients or the replicas. Fed with the bytes the server sent,
  the client prints the answer, closes its socket and ends with status 0.\<close>

theorem ping_client_gets_pong:
  assumes "default_user_auto_auth (db sv)" "quiet (db sv)" "length (fds sv) < MAX_FDS"
    and "0 \<le> c" "c \<noteq> server_fd sv" "c \<noteq> master_fd sv" "hget (clients sv) c = None" "hget (buffers sv) c = None"
    and "0 \<le> cc_socket calls" "0 < cc_pton calls" "0 \<le> cc_connect calls" "cc_send calls = Sent (length ping_message)"
    and "concat chunks = ct_sent (client_main calls)" "[] \<notin> set chunks"
    and "snd (send_all (world_sends w (n_sends sv)) pong)"
  shows "\<exists>sv'. handle_event w (length (fds sv))
         \<lparr>ev_in = True, ev_error = False, ev_accepts = [], ev_recvs = map Received chunks\<rparr>
         (accept_loop [Accepted c True] sv) = Inr sv'
     \<and> outbox sv' = outbox sv @ [(c, Answer, pong)] \<and> fds sv' = fds sv @ [c] \<and> same_but_connection c sv sv'
     \<and> client_at sv' c = (new_client (- 1))\<lparr>fd := c, authenticated := True\<rparr> \<and> buffer_at sv' c = []
     \<and> client_main (calls\<lparr>cc_recv := Received (answers_to c (drop (length (outbox sv)) (outbox sv')))\<rparr>)
       = \<lparr>ct_status = 0, ct_sent = ping_message, ct_out = ''+PONG'' @ crlf @ [LF], ct_err = [], ct_closed = [cc_socket calls]\<rparr>"
proof -
  let ?i = "length (fds sv)" and ?a = "add_client c sv"
  have a: "accept_loop [Accepted c True] sv = ?a" using assms(3) by simp
  have client: "client_at ?a c = (new_client (- 1))\<lparr>fd := c, authenticated := True\<rparr>"
    using assms(1,7) by (simp add: add_client_def client_at_def put_client_def)
  have frame: "db ?a = db sv" "outbox ?a = outbox sv" "n_sends ?a = n_sends sv" "fds ?a = fds sv @ [c]"
      "server_fd ?a = server_fd sv" "master_fd ?a = master_fd sv" "buffer_at ?a c = []"
    using assms(8) by (simp_all add: add_client_def put_client_def buffer_at_def)
  have "ct_sent (client_main calls) = ping_message"
    using assms(9-12) by (simp add: client_main_def client_start_def client_run_def case_prod_beta)
  then have cut: "buffer_at ?a c @ concat chunks = command_bytes [''PING'']" "chunks \<noteq> []"
    using assms(13) frame(7) by (auto simp: ping_message_request)
  have "length (command_bytes [''PING'']) < u64_modulus"
    unfolding ping_message_request [symmetric] by (simp add: ping_message_def crlf_def u64_modulus_def)
  then have recv: "client_recv w ?i c (map Received chunks) ?a
      = then_do (client_command w ?i c [''PING''] (put_buffer c [] ?a)) (\<lambda>(sv, go). Inr sv)"
    using cut assms(14) by (intro client_recv_request) (simp_all add: vector_max_size_def)
  have kept: "client_at (put_buffer c [] ?a) c = client_at ?a c" by (simp add: client_at_def put_buffer_def)
  obtain sv' where sv': "client_command w ?i c [''PING''] (put_buffer c [] ?a) = Inr (sv', True)"
      "outbox sv' = outbox sv @ [(c, Answer, pong)]" "fds sv' = fds sv @ [c]"
      and rest: "db sv' = db sv" "clients sv' = hput c (client_at ?a c) (clients ?a)" "buffers sv' = hput c [] (buffers ?a)"
      "aof sv' = aof ?a" "disk_of sv' = disk_of ?a" "n_logs sv' = n_logs ?a" "server_fd sv' = server_fd ?a"
      "master_fd sv' = master_fd ?a" "waiters sv' = waiters ?a" "replicas sv' = replicas ?a" "replica_offset sv' = replica_offset ?a"
    using client_command_ping [of "put_buffer c [] ?a" c ?i w] assms(2,4,15) frame client kept
    by (auto simp: put_buffer_def new_client_def nth_append)
  have others: "same_but_connection c sv sv'"
    using rest by (simp add: same_but_connection_def add_client_def put_client_def)
  have this_one: "client_at sv' c = (new_client (- 1))\<lparr>fd := c, authenticated := True\<rparr>" "buffer_at sv' c = []"
    using rest(2,3) client by (simp_all add: client_at_def buffer_at_def)
  have "handle_event w ?i \<lparr>ev_in = True, ev_error = False, ev_accepts = [], ev_recvs = map Received chunks\<rparr> ?a = Inr sv'"
    using assms(4-6) frame(4-6) recv sv'(1) by (simp add: handle_event_def)
  moreover have "client_main (calls\<lparr>cc_recv := Received (answers_to c (drop (length (outbox sv)) (outbox sv')))\<rparr>)
       = \<lparr>ct_status = 0, ct_sent = ping_message, ct_out = ''+PONG'' @ crlf @ [LF], ct_err = [], ct_closed = [cc_socket calls]\<rparr>"
    using assms(9-12) unfolding sv'(2)
    by (simp add: client_main_def client_start_def client_run_def client_closes_def answers_to_def pong_bytes crlf_def)
  ultimately show ?thesis using sv'(2,3) others this_one unfolding a by blast
qed

text \<open>The server that was started on an empty disk, and a client whose request arrives in two pieces.\<close>

definition sample_ping_calls :: client_calls where
  "sample_ping_calls = \<lparr>cc_socket = 5, cc_pton = 1, cc_connect = 0, cc_send = Sent 14, cc_recv = PeerClosed\<rparr>"

definition sample_idle_server :: server where
  "sample_idle_server = run_start 3 (- 1) 0 (new_store, new_Aof, [])"

theorem ping_client_gets_pong_witness:
  "\<exists>sv'. handle_event sample_quick_world 1
       \<lparr>ev_in = True, ev_error = False, ev_accepts = [],
        ev_recvs = [Received (take 7 ping_message), Received (drop 7 ping_message)]\<rparr>
       (accept_loop [Accepted 4 True] sample_idle_server) = Inr sv'
     \<and> answers_to 4 (outbox sv') = ''+PONG'' @ crlf"
proof -
  let ?sv = sample_idle_server and ?chunks = "[take 7 ping_message, drop 7 ping_message]"
  have idle: "default_user_auto_auth (db ?sv)" "quiet (db ?sv)" "length (fds ?sv) < MAX_FDS" "(4 :: int) \<noteq> server_fd ?sv"
      "4 \<noteq> master_fd ?sv" "hget (clients ?sv) 4 = None" "hget (buffers ?sv) 4 = None" "outbox ?sv = []" "length (fds ?sv) = 1"
    by (simp_all add: sample_idle_server_def run_start_def new_store_def default_user_auto_auth_def quiet_def MAX_FDS_def hget_def)
  have calls: "0 \<le> cc_socket sample_ping_calls" "0 < cc_pton sample_ping_calls" "0 \<le> cc_connect sample_ping_calls"
      "cc_send sample_ping_calls = Sent (length ping_message)"
    by (simp_all add: sample_ping_calls_def ping_message_def crlf_def)
  have chunks: "concat ?chunks = ct_sent (client_main sample_ping_calls)" "[] \<notin> set ?chunks" by code_simp+
  have out: "snd (send_all (world_sends sample_quick_world (n_sends ?sv)) pong)" by code_simp
  show ?thesis
    using ping_client_gets_pong [OF idle(1-3) _ idle(4-7) calls chunks out] idle(8,9)
    by (auto simp: answers_to_def pong_bytes simp del: accept_loop.simps)
qed

text \<open>A master connection that reports an error without input is closed, but its descriptor is
  still taken for the master's: the client accepted under it next gets no answer.\<close>

lemma stale_master_descriptor:
  "case handle_event sample_quick_world 1 \<lparr>ev_in = False, ev_error = True, ev_accepts = [], ev_recvs = []\<rparr>
      (run_start 3 4 0 (new_store, new_Aof, [])) of
     Inl _ \<Rightarrow> False
   | Inr sv \<Rightarrow> master_fd sv = 4 \<and>
       (case handle_event sample_quick_world 1
          \<lparr>ev_in = True, ev_error = False, ev_accepts = [], ev_recvs = [Received ping_message]\<rparr>
          (accept_loop [Accepted 4 True] (sv\<lparr>fds := compact_fds 1 (fds sv)\<rparr>)) of
        Inl _ \<Rightarrow> False
      | Inr sv \<Rightarrow> fds sv = [3, 4] \<and> outbox sv = [])"
  by code_simp

end
