(* ===== verification/Spec2Isabelle.thy ===== *)
theory Spec2Isabelle
  imports Typing Server_Messages Server_Waiters Server_Follow Programs
begin

text \<open>
  A verification library of TrueStore, a single-threaded in-memory key-value server that
  speaks the Redis protocol (C++, \<open>src/src\<close>), and of the small client that comes with it.

  \<^bold>\<open>The program.\<close> \<open>main\<close> parses the arguments, starts the server and enters one event loop
  (\<open>Server::run\<close>). The loop polls the listening socket, the clients and, on a replica, the
  master; it appends what arrives to a buffer per connection, takes complete requests off the
  buffer, runs them through the command layer on the store, writes the changing ones to the
  append-only file and to the replicas, and sends the reply. Clients can block (\<open>BLPOP\<close>,
  \<open>XREAD BLOCK\<close>, \<open>WAIT\<close>) and are served or timed out at the end of a turn. At start-up the
  append-only file is replayed, or an RDB file is loaded.

  \<^bold>\<open>Theories and sources.\<close> Shared: \<open>Prelude\<close> (exceptions as values, wrap-around, containers),
  \<open>Cpp_Text\<close> (number/text conversions of the standard library), \<open>Double\<close> (the values of
  \<open>double\<close>).

  \<^item> Protocol: \<open>Resp\<close> for \<open>resp/resp.cpp\<close>.
  \<^item> Streams: \<open>Rax\<close> (the contract of the vendored radix tree) and \<open>Stream_Data\<close> for
    \<open>stream/stream.cpp\<close>.
  \<^item> Store: \<open>Store_State\<close> is the class \<open>Store\<close> as a record, field by field; \<open>Keyspace\<close> has the
    operations of \<open>store/store.cpp\<close>, the invariant \<open>store_wf\<close> and the abstract key space \<open>view\<close>.
  \<^item> Commands: \<open>Strings_Cmd\<close>, \<open>Lists_Cmd\<close>, \<open>Sorted_Sets\<close>, \<open>Bitmaps\<close>, \<open>Streams_Cmd\<close>, \<open>Geo\<close> for
    the files of \<open>store/\<close>; \<open>Pubsub\<close>, \<open>Auth\<close>, \<open>Replication\<close> (with \<open>CONFIG GET\<close>) for the
    directories of the same names. One definition per handler, with the name it has in the code.
  \<^item> Command layer: \<open>Command\<close> for \<open>command/command.cpp\<close>: dispatch, the gates for authentication
    and subscribed mode, \<open>MULTI\<close>, \<open>EXEC\<close>, \<open>DISCARD\<close>, \<open>WATCH\<close>. \<open>Typing\<close>: the types of keys.
  \<^item> Persistence: \<open>Rdb\<close> for \<open>rdb/rdb.cpp\<close>, \<open>Aof\<close> for \<open>aof/aof.cpp\<close>; \<open>Logged_Commands\<close> and
    \<open>Recovery\<close> relate what a command does to what replaying its log entry does.
  \<^item> Network: \<open>Net\<close> for \<open>net/socket.cpp\<close>, \<open>Config\<close> for \<open>config/config.cpp\<close>, \<open>Server\<close> for
    \<open>server/server.cpp\<close> and \<open>Server_Replica\<close> for its handshake with a master;
    \<open>Server_Safety\<close>, \<open>Server_Access\<close>, \<open>Server_Messages\<close>, \<open>Server_Records\<close>, \<open>Server_Waiters\<close>, \<open>Server_Recovery\<close> and
    \<open>Server_Follow\<close> prove what the loop promises. \<open>Programs\<close> has both \<open>main\<close> functions and \<open>client/client.cpp\<close>.

  \<^bold>\<open>How the code is rendered.\<close> Handlers take the store and return it with the reply; a handler
  that can throw returns a sum, the exception on the left, and what was changed before the
  exception stays changed. \<open>std::string\<close> and buffers are lists of characters. Integers are
  unbounded where the code cannot overflow and are wrapped explicitly (\<open>wrap_u64\<close>, \<open>wrap_s64\<close>,
  \<open>wrap_s32\<close>) or are words where it can. Maps are association lists with distinct keys, so
  iteration over a hash map is in order of insertion; no property depends on that order.
  The loop is a step on the record \<open>server\<close> (the locals and members of \<open>Server::run\<close>), with the
  bytes sent recorded in \<open>outbox\<close>. A turn is \<open>poll_turn\<close>, the loop \<open>event_loop\<close>; \<open>reachable\<close> and
  \<open>turns\<close> are the states after any number of turns.

  \<^bold>\<open>Inputs.\<close> What the code asks of its surroundings is an argument: \<open>env\<close> has the clocks,
  \<open>fnmatch\<close>, SHA-256, the conversions and rounding of \<open>double\<close> and the trigonometric functions;
  \<open>world\<close> gives the environment of the n-th command and the results of the system calls of
  the n-th send and the n-th call of the log; \<open>start_calls\<close>, \<open>handshake_calls\<close>,
  \<open>server_calls\<close> and \<open>client_calls\<close> hold the results of the other system calls. What is assumed of them is
  named where it is used: \<open>env_ok\<close> and \<open>world_ok\<close> (rounding gives no NaN), \<open>events_ok\<close> (the
  operating system does not hand out a descriptor that is in use), \<open>same_library\<close> (two
  environments differ in their clocks only).

  \<^bold>\<open>Termination, bounds and fuel.\<close> All definitions are total functions and no fuel is used. The
  loops that drain buffers end because every parsed request consumes at least four bytes; a
  loop over system calls recurses on the list of their results. Where the list can end before
  the loop does, the value is \<open>None\<close> or \<open>Waiting\<close>: the call has not returned yet. Machine
  bounds are the code's: 200 descriptors, \<open>2 ^ 64\<close> for sizes, \<open>2 ^ 58 - 1\<close> elements of a vector.

  \<^bold>\<open>Choices.\<close> The request parser \<open>parse_command_in\<close> takes the number of elements memory can be
  allocated for, so that \<open>elements.reserve\<close> throws \<open>std::length_error\<close> or \<open>std::bad_alloc\<close>; the
  loops use \<open>parse_command\<close>, the parser with an allocator that refuses nothing. \<open>INCR\<close> increments an
  \<open>int\<close>, whose overflow C++ leaves undefined and which wraps here. A command, and an \<open>EXEC\<close> with
  all its commands, reads the clock once, where the code reads it at each expiry check. Differences
  of time points (\<open>remaining_ms\<close>) are not wrapped at 64 bits, and the conversion of at most one
  second to \<open>int\<close> in \<open>sync_timeout_ms\<close> is left out.

  \<^bold>\<open>What is proved.\<close>

  \<^item> Contracts. \<open>wf_handler\<close>, \<open>reading_handler\<close>, \<open>typed_handler\<close>, \<open>logged_command\<close> and
    \<open>quiet_command\<close> are the interfaces of handlers; every entry of the dispatch tables has an
    interpretation, and the facts about the command layer follow from the tables. \<open>recording\<close>,
    \<open>queueing\<close>, \<open>answering\<close>, \<open>serving\<close>, \<open>client_loop\<close>, \<open>turning\<close>, \<open>driving\<close>, \<open>primary\<close> (a server
    without a master) and \<open>looping\<close> are the interfaces of the event loop, one extending the other:
    an invariant of its parts is an invariant of the turn, and the properties of the loop are
    interpretations of them. \<open>framing\<close>, \<open>fifo\<close>, \<open>score_index\<close>, \<open>bit_array\<close>, \<open>ordered_dict\<close>,
    \<open>finite_map\<close> and \<open>ordered_set\<close> are the specifications of data structures.
  \<^item> Whole server: every reachable state is well-formed; what a command changes is logged and sent
    to the replicas, with the offset counting the bytes; after any number of turns, restarting from
    the log gives back the data, and a replica that stayed connected and read its stream holds
    the data of its master; a client without the password has no effect and learns nothing; a published message reaches
    the connected subscribers;
    blocked clients are served in order, or at their deadline; a replica's offset counts the
    stream; the client gets its answer.
  \<^item> Command layer: transactions abort exactly when a watched string changed and otherwise run
    as one block, unauthenticated commands are refused, keys keep their type.
  \<^item> Components: what each command computes on every branch, against a reference (the key space, a
    list, a bit sequence, a ranking, a window of a stream), round trips of the protocol, the RDB
    format, the log and the geographical code, the invariants of subscriptions and passwords.
  \<^item> Limits. Lemmas next to the properties show inputs on which the code does not do what it is
    meant to: negative lengths and huge counts on the wire, positions at longitude 180, overflowing lifetimes and timeouts, a log that its own
    server refuses, keys in two containers, a stale master descriptor.

  \<^bold>\<open>Not modelled.\<close> The inside of the radix tree (third-party; its documented behaviour is the
  locale \<open>ordered_dict\<close>); failure of memory allocation outside the
  request parser, so also for the buffer of a huge snapshot in \<open>read_snapshot\<close>; the texts written to the standard error by
  the server; \<open>set_nonblocking\<close>, which is one system call; the port in the addresses passed to \<open>bind\<close> and
  \<open>connect\<close>, which only the operating system reads; signals other than their effect on system calls.
\<close>

end
